(* ===== verification/Prelude.thy ===== *)
theory Prelude
  imports
    Main
    "HOL-Library.Word"
    "HOL-Library.Sublist"
    "HOL-Library.Char_ord"
    "HOL-Library.List_Lexorder"
    "HOL-Library.Multiset"
begin

text \<open>
  Shared vocabulary of the development: Go strings, error values, results, the collections of
  facts the component theories fill, and generic lemmas on lists and results.

  A Go \<^verbatim>\<open>string\<close> is a byte sequence, so it is modelled by \<open>string\<close>, whose characters are
  bytes. An \<^verbatim>\<open>error\<close> return value is one of the constructors of \<open>goerr\<close>, one per
  error the sources build; errors that come from outside the repository (the operating
  system, the JSON decoder, gRPC, netlink, the CDI library) are \<open>ErrExt\<close> with the text
  they carry. Functions that return \<^verbatim>\<open>(T, error)\<close> return \<open>'a result\<close>.
\<close>

section \<open>Strings, errors and results\<close>

type_synonym go_string = string

datatype goerr =
    ErrExt go_string
  | ErrInterval int
  | ErrNoConfig
  | ErrResourceName go_string
  | ErrResourceExists go_string
  | ErrRdmaHcaMax int
  | ErrEmptyPrefix
  | ErrNoSelectors
  | ErrSelectorsAndDevices
  | ErrNetnsModeUnknown
  | ErrNetnsModeExclusive
  | ErrPciInfo goerr
  | ErrNoNetDir go_string
  | ErrReadNetDir go_string
  | ErrDriver go_string
  | ErrNoSymlink go_string
  | ErrLstatLink go_string
  | ErrReadLink go_string
  | ErrRdmaDevMissing go_string
  | ErrRdmaSpecMissing go_string goerr
  | ErrNoDevices
  | ErrEmptyPool
  | ErrAnnotation goerr
  | ErrNoGrpcServer go_string
  | ErrAddrInUse go_string
  | ErrFakeDial go_string goerr
  | ErrFakeGetInfo goerr
  | ErrFakeStatus goerr go_string
  | ErrFakeReported go_string
  | ErrFakeRegistering
  | ErrFakeTimeout

type_synonym 'a result = "goerr + 'a"

definition is_ok :: "'a result \<Rightarrow> bool" where
  "is_ok r = (case r of Inl _ \<Rightarrow> False | Inr _ \<Rightarrow> True)"

lemma is_ok_simps [simp]: "\<not> is_ok (Inl e)" "is_ok (Inr x)"
  by (simp_all add: is_ok_def)

text \<open>A call that may panic.\<close>

datatype 'a outcome = Returns 'a | Panics

section \<open>Collections of facts\<close>

named_theorems frame_simps
  \<open>an operation leaves a field alone\<close>

section \<open>Lists\<close>

lemma filter_eq_Cons_unique:
  assumes "distinct (map f xs)" "x \<in> set xs"
  shows "filter (\<lambda>y. f y = f x) xs = [x]"
  using assms
proof (induction xs)
  case Nil
  then show ?case by simp
next
  case (Cons a xs)
  have rest: "filter (\<lambda>y. f y = f a) xs = []"
    using Cons.prems(1) by (auto simp: filter_empty_conv image_iff)
  show ?case
  proof (cases "x = a")
    case True
    then show ?thesis using rest by simp
  next
    case False
    then have "x \<in> set xs" using Cons.prems by simp
    moreover have "f a \<noteq> f x" using Cons.prems \<open>x \<in> set xs\<close> by auto
    ultimately show ?thesis using Cons by simp
  qed
qed

lemma filter_neq_idle: "x \<notin> set xs \<Longrightarrow> filter (\<lambda>y. y \<noteq> x) xs = xs"
  by (induction xs) auto

lemma mset_eq_of_subset_distinct:
  assumes "distinct xs" "distinct ys" "length xs = length ys" "set ys \<subseteq> set xs"
  shows "mset xs = mset ys"
proof -
  have "card (set ys) = card (set xs)"
    using assms by (simp add: distinct_card)
  then have "set ys = set xs"
    using assms(4) by (simp add: card_subset_eq)
  then show ?thesis
    using assms(1,2) by (simp add: set_eq_iff_mset_eq_distinct)
qed

lemma all_set_filter: "list_all P (filter P xs)"
  by (induction xs) auto

lemma filter_filter_conj: "filter P (filter Q xs) = filter (\<lambda>x. Q x \<and> P x) xs"
  by (simp add: conj_commute)

end
