(* ===== verification/GoLib.thy ===== *)
theory GoLib
  imports Prelude
begin

text \<open>
  The functions of the Go standard library that the sources call, on byte strings:
  \<^verbatim>\<open>strconv\<close> (\<open>go_Itoa\<close>, \<open>go_ParseInt16\<close>, \<open>go_ParseUint10\<close>), \<^verbatim>\<open>strings\<close>
  (\<open>go_Fields\<close>, \<open>go_Join\<close>, \<open>go_Contains\<close>) and \<^verbatim>\<open>path\<close>/\<^verbatim>\<open>filepath\<close> on Unix
  (\<open>path_Clean\<close>, \<open>path_Join\<close>, \<open>path_Split\<close>, \<open>path_Base\<close>, \<open>path_Dir\<close>).
  The lemmas say what the components rely on: printing and parsing decimal numbers round
  trips, joining a directory and a plain file name is injective in the name.

  Two limits: \<open>go_Fields\<close> splits at ASCII white space only (Go also splits at the few
  non-ASCII space code points), and error texts are not modelled.
\<close>

section \<open>strconv\<close>

fun nat_to_dec :: "nat \<Rightarrow> go_string" where
  "nat_to_dec n =
     (if n < 10 then [char_of (48 + n)]
      else nat_to_dec (n div 10) @ [char_of (48 + n mod 10)])"

declare nat_to_dec.simps [simp del]

definition go_Itoa :: "int \<Rightarrow> go_string" where
  "go_Itoa i = (if i < 0 then CHR ''-'' # nat_to_dec (nat (- i)) else nat_to_dec (nat i))"

definition dec_digit :: "char \<Rightarrow> nat option" where
  "dec_digit c =
     (let k = of_char c :: nat in if 48 \<le> k \<and> k \<le> 57 then Some (k - 48) else None)"

definition hex_digit :: "char \<Rightarrow> nat option" where
  "hex_digit c =
     (let k = of_char c :: nat in
      if 48 \<le> k \<and> k \<le> 57 then Some (k - 48)
      else if 97 \<le> k \<and> k \<le> 102 then Some (k - 87)
      else if 65 \<le> k \<and> k \<le> 70 then Some (k - 55)
      else None)"

fun digits_val :: "(char \<Rightarrow> nat option) \<Rightarrow> nat \<Rightarrow> nat \<Rightarrow> go_string \<Rightarrow> nat option" where
  "digits_val dig base acc [] = Some acc"
| "digits_val dig base acc (c # cs) =
     (case dig c of None \<Rightarrow> None | Some d \<Rightarrow> digits_val dig base (acc * base + d) cs)"

text \<open>\<^verbatim>\<open>strconv.ParseUint(s, 10, 64)\<close>; the empty string, a non-digit and a value out of
  range are errors.\<close>

definition go_ParseUint10 :: "go_string \<Rightarrow> 64 word option" where
  "go_ParseUint10 s =
     (if s = [] then None
      else case digits_val dec_digit 10 0 s of
        None \<Rightarrow> None
      | Some n \<Rightarrow> if n < 2 ^ 64 then Some (of_nat n) else None)"

text \<open>\<^verbatim>\<open>strconv.ParseInt(s, 16, 64)\<close>: an optional sign, then hexadecimal digits.\<close>

definition go_ParseUint16 :: "go_string \<Rightarrow> nat option" where
  "go_ParseUint16 s =
     (if s = [] then None
      else case digits_val hex_digit 16 0 s of
        None \<Rightarrow> None
      | Some n \<Rightarrow> if n < 2 ^ 64 then Some n else None)"

definition go_ParseInt16 :: "go_string \<Rightarrow> int option" where
  "go_ParseInt16 s =
     (case s of
        [] \<Rightarrow> None
      | c # cs \<Rightarrow>
          (let neg = (c = CHR ''-'');
               body = (if c = CHR ''+'' \<or> c = CHR ''-'' then cs else s)
           in case go_ParseUint16 body of
                None \<Rightarrow> None
              | Some n \<Rightarrow>
                  if \<not> neg \<and> n \<ge> 2 ^ 63 then None
                  else if neg \<and> n > 2 ^ 63 then None
                  else Some (if neg then - int n else int n)))"

lemma nat_to_dec_nonempty [simp]: "nat_to_dec n \<noteq> []"
  by (subst nat_to_dec.simps) simp

lemma digits_val_append:
  "digits_val dig base acc (xs @ ys) =
     (case digits_val dig base acc xs of
        None \<Rightarrow> None | Some a \<Rightarrow> digits_val dig base a ys)"
  by (induction xs arbitrary: acc) (auto split: option.splits)

lemma dec_digit_char_of [simp]: "d < 10 \<Longrightarrow> dec_digit (char_of (48 + d)) = Some d"
  by (simp add: dec_digit_def Let_def)

lemma digits_val_nat_to_dec: "digits_val dec_digit 10 0 (nat_to_dec n) = Some n"
proof (induction n rule: nat_to_dec.induct)
  case (1 n)
  show ?case
  proof (cases "n < 10")
    case True
    then show ?thesis by (subst nat_to_dec.simps) simp
  next
    case False
    then show ?thesis
      using "1.IH" by (subst nat_to_dec.simps) (simp add: digits_val_append)
  qed
qed

lemma ParseUint10_Itoa:
  "n < 2 ^ 64 \<Longrightarrow> go_ParseUint10 (go_Itoa (int n)) = Some (of_nat n)"
  by (simp add: go_ParseUint10_def go_Itoa_def digits_val_nat_to_dec)

lemma ParseUint10_Itoa_word: "go_ParseUint10 (go_Itoa (uint w)) = Some (w :: 64 word)"
proof -
  have bound: "unat w < 2 ^ 64"
    using unsigned_less [of w] by simp
  have "uint w = int (unat w)" by simp
  then show ?thesis
    using ParseUint10_Itoa [OF bound] by simp
qed

lemma nat_to_dec_inject [simp]: "nat_to_dec m = nat_to_dec n \<longleftrightarrow> m = n"
  by (metis digits_val_nat_to_dec option.inject)

lemma nat_to_dec_digits: "c \<in> set (nat_to_dec n) \<Longrightarrow> dec_digit c \<noteq> None"
proof (induction n rule: nat_to_dec.induct)
  case (1 n)
  then show ?case
    by (subst (asm) (2) nat_to_dec.simps) (auto split: if_splits)
qed

lemma go_Itoa_inject_nonneg: "0 \<le> i \<Longrightarrow> 0 \<le> j \<Longrightarrow> go_Itoa i = go_Itoa j \<longleftrightarrow> i = j"
  by (simp add: go_Itoa_def eq_nat_nat_iff)

section \<open>strings\<close>

definition go_space :: "char \<Rightarrow> bool" where
  "go_space c = (let k = of_char c :: nat in k = 32 \<or> (9 \<le> k \<and> k \<le> 13))"

text \<open>The field being read is accumulated in reverse.\<close>

fun fields_acc :: "go_string \<Rightarrow> go_string \<Rightarrow> go_string list" where
  "fields_acc cur [] = (if cur = [] then [] else [rev cur])"
| "fields_acc cur (c # cs) =
     (if go_space c then (if cur = [] then [] else [rev cur]) @ fields_acc [] cs
      else fields_acc (c # cur) cs)"

definition go_Fields :: "go_string \<Rightarrow> go_string list" where
  "go_Fields s = fields_acc [] s"

fun go_Join :: "go_string \<Rightarrow> go_string list \<Rightarrow> go_string" where
  "go_Join sep [] = []"
| "go_Join sep [x] = x"
| "go_Join sep (x # xs) = x @ sep @ go_Join sep xs"

fun go_Contains :: "go_string \<Rightarrow> go_string \<Rightarrow> bool" where
  "go_Contains [] sub = (sub = [])"
| "go_Contains (c # cs) sub = (prefix sub (c # cs) \<or> go_Contains cs sub)"

lemma go_Contains_sublist: "go_Contains s sub \<longleftrightarrow> sublist sub s"
  by (induction s) (auto simp: sublist_Cons_right)

lemma fields_acc_nospace:
  "\<forall>c \<in> set s. \<not> go_space c \<Longrightarrow>
     fields_acc cur s = (if cur = [] \<and> s = [] then [] else [rev cur @ s])"
  by (induction s arbitrary: cur) auto

lemma go_Fields_nospace:
  "\<forall>c \<in> set s. \<not> go_space c \<Longrightarrow> s \<noteq> [] \<Longrightarrow> go_Fields s = [s]"
  by (simp add: go_Fields_def fields_acc_nospace)

section \<open>path and filepath\<close>

fun split_at :: "char \<Rightarrow> go_string \<Rightarrow> go_string list" where
  "split_at s [] = [[]]"
| "split_at s (c # cs) =
     (if c = s then [] # split_at s cs
      else case split_at s cs of [] \<Rightarrow> [[c]] | w # ws \<Rightarrow> (c # w) # ws)"

text \<open>One element of the path against the (reversed) elements kept so far.\<close>

definition clean_push :: "bool \<Rightarrow> go_string list \<Rightarrow> go_string \<Rightarrow> go_string list" where
  "clean_push rooted st e =
     (if e = [] \<or> e = ''.'' then st
      else if e = ''..'' then
        (case st of
           [] \<Rightarrow> if rooted then [] else [''..'']
         | t # ts \<Rightarrow> if t = ''..'' then ''..'' # st else ts)
      else e # st)"

definition path_Clean :: "go_string \<Rightarrow> go_string" where
  "path_Clean p =
     (if p = [] then ''.''
      else let rooted = (hd p = CHR ''/'');
               body = go_Join ''/'' (rev (foldl (clean_push rooted) [] (split_at (CHR ''/'') p)))
           in if rooted then CHR ''/'' # body else if body = [] then ''.'' else body)"

definition path_Join :: "go_string list \<Rightarrow> go_string" where
  "path_Join es =
     (let ne = filter (\<lambda>e. e \<noteq> []) es
      in if ne = [] then [] else path_Clean (go_Join ''/'' ne))"

text \<open>\<^verbatim>\<open>path.Split\<close>: up to and including the last slash, and the rest.\<close>

definition path_Split :: "go_string \<Rightarrow> go_string \<times> go_string" where
  "path_Split p =
     (let file = rev (takeWhile (\<lambda>c. c \<noteq> CHR ''/'') (rev p))
      in (take (length p - length file) p, file))"

definition path_Base :: "go_string \<Rightarrow> go_string" where
  "path_Base p =
     (if p = [] then ''.''
      else let q = rev (dropWhile (\<lambda>c. c = CHR ''/'') (rev p));
               b = snd (path_Split q)
           in if b = [] then ''/'' else b)"

definition path_Dir :: "go_string \<Rightarrow> go_string" where
  "path_Dir p = path_Clean (fst (path_Split p))"

text \<open>A plain file name: one path element that \<open>path_Clean\<close> keeps.\<close>

definition plain_name :: "go_string \<Rightarrow> bool" where
  "plain_name x \<longleftrightarrow> x \<noteq> [] \<and> x \<noteq> ''.'' \<and> x \<noteq> ''..'' \<and> CHR ''/'' \<notin> set x"

lemma split_at_nosep: "s \<notin> set x \<Longrightarrow> split_at s x = [x]"
  by (induction x) auto

lemma split_at_nonempty [simp]: "split_at s x \<noteq> []"
  by (induction x) (auto split: list.splits)

lemma split_at_append_sep: "split_at s (d @ s # x) = split_at s d @ split_at s x"
  by (induction d) (auto split: list.splits simp: Cons_eq_append_conv)

lemma clean_push_plain: "plain_name x \<Longrightarrow> clean_push r st x = x # st"
  by (simp add: clean_push_def plain_name_def)

lemma go_Join_snoc:
  "go_Join sep (xs @ [x]) = (if xs = [] then x else go_Join sep xs @ sep @ x)"
proof (induction xs)
  case (Cons a xs)
  then show ?case by (cases xs) auto
qed simp

lemma clean_push_empty: "clean_push r st [] = st"
  by (simp add: clean_push_def)

lemma foldl_clean_plain:
  "list_all (\<lambda>e. e = [] \<or> plain_name e) es \<Longrightarrow>
     foldl (clean_push r) st es = rev (filter (\<lambda>e. e \<noteq> []) es) @ st"
  by (induction es arbitrary: st) (auto simp: clean_push_plain clean_push_empty)

text \<open>Joining a \<^verbatim>\<open>unix://\<close> prefix to an absolute path collapses the slashes; what is left is
  still a target of the \<^verbatim>\<open>unix\<close> scheme that names the same path.\<close>

lemma path_Join_unix:
  assumes d: "list_all (\<lambda>e. e = [] \<or> plain_name e) (split_at (CHR ''/'') d)" and x: "plain_name x"
  shows "path_Join [''unix://'', CHR ''/'' # d, x] = ''unix:'' @ path_Join [CHR ''/'' # d, x]"
proof -
  let ?es = "filter (\<lambda>e. e \<noteq> []) (split_at (CHR ''/'') d)"
  have ne: "x \<noteq> []" and nosep: "CHR ''/'' \<notin> set x" using x by (simp_all add: plain_name_def)
  have dx: "split_at (CHR ''/'') (d @ CHR ''/'' # x) = split_at (CHR ''/'') d @ [x]"
    by (simp add: split_at_append_sep split_at_nosep [OF nosep])
  have rooted: "path_Join [CHR ''/'' # d, x] = CHR ''/'' # go_Join ''/'' (?es @ [x])"
    using ne by (simp add: path_Join_def path_Clean_def Let_def dx foldl_clean_plain [OF d]
        clean_push_plain [OF x] clean_push_empty)
  have "split_at (CHR ''/'') (''unix:///'' @ CHR ''/'' # d @ CHR ''/'' # x) =
      [''unix:'', [], [], []] @ split_at (CHR ''/'') d @ [x]"
    by (simp add: dx)
  moreover have "clean_push False [] ''unix:'' = [''unix:'']" by (simp add: clean_push_def)
  moreover have "go_Join ''/'' (''unix:'' # ys) \<noteq> []" for ys by (cases ys) simp_all
  ultimately have "path_Join [''unix://'', CHR ''/'' # d, x] = go_Join ''/'' (''unix:'' # ?es @ [x])"
    using ne by (simp add: path_Join_def path_Clean_def Let_def foldl_clean_plain [OF d]
        clean_push_plain [OF x] clean_push_empty)
  also have "\<dots> = ''unix:'' @ CHR ''/'' # go_Join ''/'' (?es @ [x])"
    by (cases "?es @ [x]") auto
  finally show ?thesis by (simp add: rooted)
qed

lemma path_Split_file: "CHR ''/'' \<notin> set x \<Longrightarrow> snd (path_Split (d @ CHR ''/'' # x)) = x"
proof -
  assume x: "CHR ''/'' \<notin> set x"
  have "takeWhile (\<lambda>c. c \<noteq> CHR ''/'') (rev x @ CHR ''/'' # rev d) = rev x"
    using x by (subst takeWhile_append2) auto
  then show ?thesis by (simp add: path_Split_def Let_def)
qed

lemma path_Split_nosep: "CHR ''/'' \<notin> set x \<Longrightarrow> snd (path_Split x) = x"
proof -
  assume "CHR ''/'' \<notin> set x"
  then have eq: "takeWhile (\<lambda>c. c \<noteq> CHR ''/'') (rev x) = rev x"
    unfolding takeWhile_eq_all_conv by auto
  show ?thesis by (simp only: path_Split_def Let_def snd_conv eq rev_rev_ident)
qed

lemma path_Clean_nonempty [simp]: "path_Clean p \<noteq> []"
  by (simp add: path_Clean_def Let_def)

lemma path_Join2_nonempty [simp]: "x \<noteq> [] \<Longrightarrow> path_Join [d, x] \<noteq> []"
  by (simp add: path_Join_def)

lemma path_Join2_plain:
  assumes x: "plain_name x" and d: "d \<noteq> []"
  shows "path_Join [d, x] =
    (if hd d = CHR ''/'' then ''/'' else []) @ go_Join ''/''
      (rev (foldl (clean_push (hd d = CHR ''/'')) [] (split_at (CHR ''/'') d)) @ [x])"
proof -
  have sl: "CHR ''/'' \<notin> set x" and ne: "x \<noteq> []"
    using x by (auto simp: plain_name_def)
  have "path_Join [d, x] = path_Clean (d @ CHR ''/'' # x)"
    using d ne by (simp add: path_Join_def)
  also have "split_at (CHR ''/'') (d @ CHR ''/'' # x) = split_at (CHR ''/'') d @ [x]"
    using sl by (simp add: split_at_append_sep split_at_nosep)
  then have "path_Clean (d @ CHR ''/'' # x) =
    (if hd d = CHR ''/'' then ''/'' else []) @ go_Join ''/''
      (rev (foldl (clean_push (hd d = CHR ''/'')) [] (split_at (CHR ''/'') d)) @ [x])"
    using d ne by (simp add: path_Clean_def hd_append clean_push_plain [OF x] go_Join_snoc)
  finally show ?thesis .
qed

lemma path_Join2_file:
  assumes "plain_name x" "d \<noteq> []"
  shows "snd (path_Split (path_Join [d, x])) = x"
proof -
  have sl: "CHR ''/'' \<notin> set x"
    using assms(1) by (simp add: plain_name_def)
  define st where "st = rev (foldl (clean_push (hd d = CHR ''/'')) [] (split_at (CHR ''/'') d))"
  define pre where "pre = (if hd d = CHR ''/'' then ''/'' else [])"
  have eq: "path_Join [d, x] = pre @ go_Join ''/'' (st @ [x])"
    unfolding st_def pre_def by (rule path_Join2_plain [OF assms])
  show ?thesis
  proof (cases "st = []")
    case True
    then show ?thesis
      using eq path_Split_file [OF sl, of "[]"] path_Split_nosep [OF sl] by (simp add: pre_def)
  next
    case False
    then have "path_Join [d, x] = (pre @ go_Join ''/'' st) @ CHR ''/'' # x"
      using eq by (simp add: go_Join_snoc)
    then show ?thesis using path_Split_file [OF sl] by metis
  qed
qed

lemma path_Join2_inject:
  assumes "plain_name x" "plain_name y" "d \<noteq> []"
  shows "path_Join [d, x] = path_Join [d, y] \<longleftrightarrow> x = y"
  using path_Join2_file [OF assms(1,3)] path_Join2_file [OF assms(2,3)] by metis

end
