(* ===== verification/Types.thy ===== *)
theory Types
  imports GoLib
begin

text \<open>
  The data of \<^verbatim>\<open>pkg/types/types.go\<close> and of the struct behind its \<^verbatim>\<open>PciNetDevice\<close>
  interface (\<^verbatim>\<open>pkg/resources/pci_net_device.go\<close>).  Nil and empty slices are both the empty
  list: every use of a slice in the sources goes through \<^verbatim>\<open>len\<close> or \<^verbatim>\<open>range\<close>.

  \<open>DeviceSpec\<close> and \<open>Device\<close> are the device-plugin API messages, with the fields the sources
  read and write.  \<^verbatim>\<open>RdmaHcaMax\<close> is a Go \<^verbatim>\<open>int\<close> that is only compared and counted up to,
  so it is an \<open>int\<close>; the update interval is multiplied, so it keeps its 64 bits.
\<close>

section \<open>Device-plugin API messages\<close>

record DeviceSpec =
  HostPath :: go_string
  ContainerPath :: go_string
  Permissions :: go_string

datatype health = Healthy | Unhealthy

record Device =
  ID :: go_string
  Health :: health

section \<open>User configuration\<close>

record Selectors =
  Vendors :: "go_string list"
  DeviceIDs :: "go_string list"
  Drivers :: "go_string list"
  IfNames :: "go_string list"
  LinkTypes :: "go_string list"

record UserConfig =
  ResourceName :: go_string
  ResourcePrefix :: go_string
  RdmaHcaMax :: int
  Devices :: "go_string list"
  ConfSelectors :: Selectors

record UserConfigList =
  CfgPeriodicUpdateInterval :: "64 word option"
  ConfigList :: "UserConfig list"

definition no_selectors :: Selectors where
  "no_selectors = \<lparr>Vendors = [], DeviceIDs = [], Drivers = [], IfNames = [], LinkTypes = []\<rparr>"

section \<open>PCI network devices\<close>

record pciNetDevice =
  pciAddress :: go_string
  ifName :: go_string
  vendor :: go_string
  deviceID :: go_string
  driver :: go_string
  linkType :: go_string
  rdmaSpec :: "DeviceSpec list"

definition GetVendor :: "pciNetDevice \<Rightarrow> go_string" where
  "GetVendor nd = vendor nd"

definition GetDeviceID :: "pciNetDevice \<Rightarrow> go_string" where
  "GetDeviceID nd = deviceID nd"

definition GetDriver :: "pciNetDevice \<Rightarrow> go_string" where
  "GetDriver nd = driver nd"

definition GetLinkType :: "pciNetDevice \<Rightarrow> go_string" where
  "GetLinkType nd = linkType nd"

definition GetIfName :: "pciNetDevice \<Rightarrow> go_string" where
  "GetIfName nd = ifName nd"

definition GetPciAddr :: "pciNetDevice \<Rightarrow> go_string" where
  "GetPciAddr nd = pciAddress nd"

definition GetRdmaSpec :: "pciNetDevice \<Rightarrow> DeviceSpec list" where
  "GetRdmaSpec nd = rdmaSpec nd"

lemmas getters = GetVendor_def GetDeviceID_def GetDriver_def GetLinkType_def GetIfName_def
  GetPciAddr_def GetRdmaSpec_def

end
