(* ===== verification/Base32.thy ===== *)
theory Base32
  imports Prelude
begin

text \<open>
  \<^verbatim>\<open>base32.StdEncoding.WithPadding(base32.NoPadding).EncodeToString\<close>, the encoding the CDI
  annotation key uses: the bytes as bits, most significant first, cut into groups of five (the
  last one filled with zeros), each group a character of the standard alphabet.  The lemmas
  give the length of the encoding and its injectivity on inputs of equal length.
\<close>

section \<open>Encoding\<close>

type_synonym byte = "8 word"

definition byte_bits :: "byte \<Rightarrow> bool list" where
  "byte_bits w = map (bit w) [7, 6, 5, 4, 3, 2, 1, 0]"

fun bits_val :: "bool list \<Rightarrow> nat" where
  "bits_val [] = 0"
| "bits_val (b # bs) = (if b then 2 ^ length bs else 0) + bits_val bs"

definition base32_alphabet :: go_string where
  "base32_alphabet = ''ABCDEFGHIJKLMNOPQRSTUVWXYZ234567''"

definition base32_group :: "bool list \<Rightarrow> char" where
  "base32_group bs = base32_alphabet ! bits_val (bs @ replicate (5 - length bs) False)"

fun base32_bits :: "bool list \<Rightarrow> go_string" where
  "base32_bits [] = []"
| "base32_bits (b # bs) = base32_group (take 5 (b # bs)) # base32_bits (drop 5 (b # bs))"

declare base32_bits.simps(2) [simp del]

definition base32_NoPadding :: "byte list \<Rightarrow> go_string" where
  "base32_NoPadding bytes = base32_bits (concat (map byte_bits bytes))"

section \<open>Length\<close>

lemma length_base32_bits: "length (base32_bits bs) = (length bs + 4) div 5"
proof (induction bs rule: base32_bits.induct)
  case 1
  then show ?case by simp
next
  case (2 b bs)
  have step: "length (base32_bits (b # bs)) = Suc ((length (drop 5 (b # bs)) + 4) div 5)"
    using 2 by (simp add: base32_bits.simps(2))
  show ?case
  proof (cases "length (b # bs) < 5")
    case True
    then show ?thesis using step by simp
  next
    case False
    then have "(length (b # bs) + 4) div 5 = Suc ((length (b # bs) - 5 + 4) div 5)" by simp
    then show ?thesis using step by (simp del: drop_Suc_Cons)
  qed
qed

lemma length_byte_bits [simp]: "length (byte_bits w) = 8"
  by (simp add: byte_bits_def)

lemma length_all_bits: "length (concat (map byte_bits bytes)) = 8 * length bytes"
  by (induction bytes) auto

lemma length_base32: "length (base32_NoPadding bytes) = (8 * length bytes + 4) div 5"
  by (simp add: base32_NoPadding_def length_base32_bits length_all_bits)

section \<open>Injectivity\<close>

lemma byte_bits_inject: "byte_bits v = byte_bits w \<Longrightarrow> v = w"
proof (rule bit_word_eqI)
  fix n :: nat
  assume eq: "byte_bits v = byte_bits w" and n: "n < LENGTH(8)"
  have "n \<in> {0, 1, 2, 3, 4, 5, 6, 7}" using n by auto
  then show "bit v n = bit w n" using eq by (auto simp: byte_bits_def)
qed

lemma all_bits_inject:
  "length xs = length ys \<Longrightarrow>
     concat (map byte_bits xs) = concat (map byte_bits ys) \<Longrightarrow> xs = ys"
  by (induction xs ys rule: list_induct2) (auto dest: byte_bits_inject)

lemma bits_val_less: "bits_val bs < 2 ^ length bs"
  by (induction bs) auto

lemma bits_val_inject:
  "length bs = length cs \<Longrightarrow> bits_val bs = bits_val cs \<Longrightarrow> bs = cs"
proof (induction bs cs rule: list_induct2)
  case (Cons b bs c cs)
  have "bits_val bs < 2 ^ length bs" "bits_val cs < 2 ^ length bs"
    using bits_val_less [of bs] bits_val_less [of cs] Cons.hyps by auto
  then have "b = c" using Cons.prems Cons.hyps by (cases b; cases c) auto
  then show ?case using Cons by auto
qed simp

lemma alphabet_distinct: "distinct base32_alphabet"
  by (simp add: base32_alphabet_def)

lemma alphabet_length: "length base32_alphabet = 32"
  by (simp add: base32_alphabet_def)

lemma base32_group_inject:
  assumes "length bs = length cs" "length cs \<le> 5" "base32_group bs = base32_group cs"
  shows "bs = cs"
proof -
  let ?p = "\<lambda>bs. bs @ replicate (5 - length bs) False"
  have lens: "length (?p bs) = 5" "length (?p cs) = 5" using assms(1,2) by auto
  then have "bits_val (?p bs) < 32" "bits_val (?p cs) < 32"
    using bits_val_less [of "?p bs"] bits_val_less [of "?p cs"] by simp_all
  then have "bits_val (?p bs) = bits_val (?p cs)"
    using assms(3) nth_eq_iff_index_eq [OF alphabet_distinct]
    by (simp add: base32_group_def alphabet_length)
  then have "?p bs = ?p cs" using lens by (intro bits_val_inject) simp_all
  then show ?thesis using assms(1) by simp
qed

lemma base32_bits_inject:
  "length bs = length cs \<Longrightarrow> base32_bits bs = base32_bits cs \<Longrightarrow> bs = cs"
proof (induction bs arbitrary: cs rule: base32_bits.induct)
  case 1
  then show ?case by simp
next
  case (2 b bs)
  obtain c ds where cs: "cs = c # ds" using "2.prems"(1) by (cases cs) auto
  have grp: "base32_group (take 5 (b # bs)) = base32_group (take 5 cs)"
    and rest: "base32_bits (drop 5 (b # bs)) = base32_bits (drop 5 cs)"
    using "2.prems"(2) by (simp_all add: cs base32_bits.simps(2))
  have "take 5 (b # bs) = take 5 cs"
    using grp "2.prems"(1) by (intro base32_group_inject) simp_all
  moreover have "drop 5 (b # bs) = drop 5 cs"
    using rest "2.prems"(1) by (intro "2.IH") simp_all
  ultimately show ?case by (metis append_take_drop_id)
qed

lemma base32_inject:
  "length xs = length ys \<Longrightarrow> base32_NoPadding xs = base32_NoPadding ys \<Longrightarrow> xs = ys"
  unfolding base32_NoPadding_def
  by (intro all_bits_inject base32_bits_inject) (simp_all add: length_all_bits)

end
