(* ===== verification/Cdi.thy ===== *)
theory Cdi
  imports Types Base32
begin

text \<open>
  \<^verbatim>\<open>pkg/cdi/cdi.go\<close>: building a CDI spec from the devices of a pool, the container
  annotation that refers to it, and the clean-up of spec files left by an earlier run.

  The CDI library is not part of the repository; its entry points, the file removal of the
  operating system and SHA-256 are the record \<open>cdi_env\<close>, an argument of the definitions that
  call them.  The spec files are an association list from path to contents.
  \<^verbatim>\<open>filepath.Glob\<close> is modelled for directories whose name has no pattern character; for the
  others its answer is the field \<open>cdi_GlobMeta\<close>.
\<close>

section \<open>Specs and the library\<close>

record DeviceNode =
  NodePath :: go_string
  NodeHostPath :: go_string
  NodePermissions :: go_string

record CdiDevice =
  DevName :: go_string
  DevNodes :: "DeviceNode list"

record CdiSpec =
  SpecVersion :: go_string
  SpecKind :: go_string
  SpecDevices :: "CdiDevice list"

type_synonym spec_files = "(go_string \<times> go_string) list"

record cdi_env =
  cdi_CurrentVersion :: go_string
  cdi_SpecDirectories :: "go_string list"
  cdi_WriteSpec :: "CdiSpec \<Rightarrow> go_string \<Rightarrow> spec_files \<Rightarrow> goerr option \<times> spec_files"
  cdi_ReadSpecKind :: "go_string \<Rightarrow> go_string \<Rightarrow> go_string result"
  cdi_AnnotationKey :: "go_string \<Rightarrow> go_string \<Rightarrow> go_string result"
  cdi_AnnotationValue :: "go_string list \<Rightarrow> go_string result"
  cdi_QualifiedName :: "go_string \<Rightarrow> go_string \<Rightarrow> go_string \<Rightarrow> go_string"
  cdi_GlobMeta :: "go_string \<Rightarrow> spec_files \<Rightarrow> go_string list result"
  cdi_RemoveErr :: "go_string \<Rightarrow> goerr option"
  sha256_Sum256 :: "go_string \<Rightarrow> byte list"

section \<open>CreateCDISpec\<close>

fun device_nodes :: "DeviceSpec list \<Rightarrow> DeviceNode list" where
  "device_nodes [] = []"
| "device_nodes (spec # rdma) =
     \<lparr>NodePath = ContainerPath spec, NodeHostPath = HostPath spec, NodePermissions = ''rw''\<rparr>
       # device_nodes rdma"

fun spec_devices :: "pciNetDevice list \<Rightarrow> CdiDevice list" where
  "spec_devices [] = []"
| "spec_devices (dev # devices) =
     \<lparr>DevName = GetPciAddr dev, DevNodes = device_nodes (GetRdmaSpec dev)\<rparr>
       # spec_devices devices"

definition build_spec :: "cdi_env \<Rightarrow> go_string \<Rightarrow> go_string \<Rightarrow> pciNetDevice list \<Rightarrow> CdiSpec" where
  "build_spec env resourcePrefix resourceName devices =
     \<lparr>SpecVersion = cdi_CurrentVersion env,
      SpecKind = resourcePrefix @ ''/'' @ resourceName,
      SpecDevices = spec_devices devices\<rparr>"

definition CreateCDISpec ::
  "cdi_env \<Rightarrow> go_string \<Rightarrow> go_string \<Rightarrow> go_string \<Rightarrow> pciNetDevice list \<Rightarrow> spec_files
     \<Rightarrow> goerr option \<times> spec_files" where
  "CreateCDISpec env resourcePrefix resourceName poolName devices files =
     cdi_WriteSpec env (build_spec env resourcePrefix resourceName devices)
       (resourcePrefix @ ''_'' @ poolName) files"

section \<open>CreateContainerAnnotations\<close>

definition pool_id :: "cdi_env \<Rightarrow> go_string \<Rightarrow> go_string \<Rightarrow> go_string" where
  "pool_id env resourceNamePrefix poolName =
     base32_NoPadding (sha256_Sum256 env (resourceNamePrefix @ ''/'' @ poolName))"

definition CreateContainerAnnotations ::
  "cdi_env \<Rightarrow> pciNetDevice list \<Rightarrow> go_string \<Rightarrow> go_string \<Rightarrow> go_string
     \<Rightarrow> (go_string \<times> go_string) list result" where
  "CreateContainerAnnotations env devices resourceNamePrefix resourceKind poolName =
     (if length devices = 0 then Inl ErrNoDevices
      else if poolName = [] then Inl ErrEmptyPool
      else case cdi_AnnotationKey env ''rdmadp'' (pool_id env resourceNamePrefix poolName) of
        Inl e \<Rightarrow> Inl e
      | Inr annoKey \<Rightarrow>
          (let deviceNames =
             map (\<lambda>dev. cdi_QualifiedName env resourceNamePrefix resourceKind (GetPciAddr dev)) devices
           in case cdi_AnnotationValue env deviceNames of
                Inl e \<Rightarrow> Inl e
              | Inr annoValue \<Rightarrow> Inr [(annoKey, annoValue)]))"

section \<open>CleanupSpecs\<close>

definition has_meta :: "go_string \<Rightarrow> bool" where
  "has_meta p = list_ex (\<lambda>c. c \<in> set ''*?['' \<or> c = char_of (92 :: nat)) p"

definition clean_glob_path :: "go_string \<Rightarrow> go_string" where
  "clean_glob_path p = (if p = [] then ''.'' else if p = ''/'' then p else butlast p)"

definition glob_dir :: "go_string \<Rightarrow> go_string" where
  "glob_dir p = clean_glob_path (fst (path_Split p))"

definition names_in :: "go_string \<Rightarrow> spec_files \<Rightarrow> go_string list" where
  "names_in dir files =
     map (\<lambda>f. snd (path_Split (fst f))) (filter (\<lambda>f. glob_dir (fst f) = dir) files)"

text \<open>\<^verbatim>\<open>filepath.Glob(filepath.Join(dir, prefix+"*"))\<close> for a prefix without pattern
  characters and slashes.\<close>

definition glob_prefix ::
  "cdi_env \<Rightarrow> go_string \<Rightarrow> go_string \<Rightarrow> spec_files \<Rightarrow> go_string list result" where
  "glob_prefix env dir pre files =
     (let pattern = path_Join [dir, pre @ ''*'']; gdir = glob_dir pattern in
      if has_meta gdir then cdi_GlobMeta env pattern files
      else Inr (map (\<lambda>n. path_Join [gdir, n])
                 (filter (prefix pre) (sort (names_in gdir files)))))"

fun cleanup_files ::
  "cdi_env \<Rightarrow> go_string \<Rightarrow> go_string list \<Rightarrow> spec_files \<Rightarrow> goerr option \<times> spec_files" where
  "cleanup_files env kind [] files = (None, files)"
| "cleanup_files env kind (spec # specs) files =
     (case map_of files spec of
        None \<Rightarrow> cleanup_files env kind specs files
      | Some contents \<Rightarrow>
          (case cdi_ReadSpecKind env spec contents of
             Inl e \<Rightarrow> cleanup_files env kind specs files
           | Inr k \<Rightarrow>
               if k \<noteq> kind then cleanup_files env kind specs files
               else (case cdi_RemoveErr env spec of
                       Some e \<Rightarrow> (Some e, files)
                     | None \<Rightarrow>
                         cleanup_files env kind specs (filter (\<lambda>f. fst f \<noteq> spec) files))))"

fun cleanup_dirs ::
  "cdi_env \<Rightarrow> go_string \<Rightarrow> go_string \<Rightarrow> go_string list \<Rightarrow> spec_files \<Rightarrow> goerr option \<times> spec_files"
where
  "cleanup_dirs env pre kind [] files = (None, files)"
| "cleanup_dirs env pre kind (dir # dirs) files =
     (case glob_prefix env dir pre files of
        Inl e \<Rightarrow> (Some e, files)
      | Inr specs \<Rightarrow>
          (case cleanup_files env kind specs files of
             (Some e, files') \<Rightarrow> (Some e, files')
           | (None, files') \<Rightarrow> cleanup_dirs env pre kind dirs files'))"

definition CleanupSpecs ::
  "cdi_env \<Rightarrow> go_string \<Rightarrow> go_string \<Rightarrow> spec_files \<Rightarrow> goerr option \<times> spec_files" where
  "CleanupSpecs env resourcePrefix resourceKind files =
     cleanup_dirs env resourcePrefix (resourcePrefix @ ''/'' @ resourceKind)
       (cdi_SpecDirectories env) files"

section \<open>Facts about the spec and the annotation\<close>

lemma device_nodes_map:
  "device_nodes rdma =
     map (\<lambda>s. \<lparr>NodePath = ContainerPath s, NodeHostPath = HostPath s, NodePermissions = ''rw''\<rparr>) rdma"
  by (induction rdma) auto

lemma spec_devices_map:
  "spec_devices devices =
     map (\<lambda>d. \<lparr>DevName = GetPciAddr d, DevNodes = device_nodes (GetRdmaSpec d)\<rparr>) devices"
  by (induction devices) auto

lemma annotations_Inr:
  "CreateContainerAnnotations env devices pre kind pool = Inr as \<Longrightarrow>
     devices \<noteq> [] \<and> pool \<noteq> [] \<and>
     (\<exists>k v. as = [(k, v)] \<and> cdi_AnnotationKey env ''rdmadp'' (pool_id env pre pool) = Inr k \<and>
        cdi_AnnotationValue env
          (map (\<lambda>d. cdi_QualifiedName env pre kind (GetPciAddr d)) devices) = Inr v)"
  by (auto simp: CreateContainerAnnotations_def Let_def split: if_splits sum.splits)

section \<open>Facts about the clean-up\<close>

definition owned_file :: "cdi_env \<Rightarrow> go_string \<Rightarrow> spec_files \<Rightarrow> go_string \<Rightarrow> bool" where
  "owned_file env kind files p =
     (case map_of files p of
        None \<Rightarrow> False | Some c \<Rightarrow> cdi_ReadSpecKind env p c = Inr kind)"

lemma map_of_filter_fst: "map_of (filter (\<lambda>f. fst f \<noteq> s) files) p = (if p = s then None else map_of files p)"
  by (induction files) auto

lemma cleanup_files_keeps:
  "\<not> owned_file env kind files p \<Longrightarrow>
     map_of (snd (cleanup_files env kind specs files)) p = map_of files p"
proof (induction specs arbitrary: files)
  case (Cons s ss)
  then show ?case
    by (auto simp: owned_file_def map_of_filter_fst split: option.splits sum.splits)
qed simp

lemma cleanup_files_shrinks:
  "map_of (snd (cleanup_files env kind specs files)) p = map_of files p \<or>
   map_of (snd (cleanup_files env kind specs files)) p = None"
proof (induction specs arbitrary: files)
  case (Cons s ss)
  have "map_of (snd (cleanup_files env kind ss (filter (\<lambda>f. fst f \<noteq> s) files))) p = map_of files p
    \<or> map_of (snd (cleanup_files env kind ss (filter (\<lambda>f. fst f \<noteq> s) files))) p = None"
    using Cons.IH [of "filter (\<lambda>f. fst f \<noteq> s) files"]
    by (cases "p = s") (simp_all add: map_of_filter_fst)
  then show ?case using Cons.IH [of files] by (auto split: option.splits sum.splits)
qed simp

lemma cleanup_files_removes:
  "cleanup_files env kind specs files = (None, files') \<Longrightarrow> p \<in> set specs \<Longrightarrow>
     \<not> owned_file env kind files' p"
proof (induction specs arbitrary: files)
  case (Cons s ss)
  show ?case
  proof (cases "p \<in> set ss")
    case True
    then show ?thesis using Cons by (auto split: option.splits sum.splits if_splits)
  next
    case False
    then have p: "p = s" using Cons.prems(2) by simp
    show ?thesis
    proof (cases "owned_file env kind files s")
      case True
      then have eq: "cleanup_files env kind ss (filter (\<lambda>f. fst f \<noteq> s) files) = (None, files')"
        using Cons.prems(1) by (auto simp: owned_file_def split: option.splits)
      then show ?thesis
        using cleanup_files_shrinks [of env kind ss "filter (\<lambda>f. fst f \<noteq> s) files" p]
        by (simp add: p map_of_filter_fst owned_file_def)
    next
      case False
      then have "map_of files' s = map_of files s"
        using cleanup_files_keeps [OF False, of "s # ss"] Cons.prems(1) by simp
      then show ?thesis using False by (simp add: p owned_file_def)
    qed
  qed
qed simp

lemma cleanup_dirs_keeps:
  "\<not> owned_file env kind files p \<Longrightarrow>
     map_of (snd (cleanup_dirs env pre kind dirs files)) p = map_of files p"
proof (induction dirs arbitrary: files)
  case (Cons d ds)
  show ?case
  proof (cases "glob_prefix env d pre files")
    case (Inr specs)
    obtain r files' where c: "cleanup_files env kind specs files = (r, files')" by force
    then have same: "map_of files' p = map_of files p"
      using cleanup_files_keeps [OF Cons.prems, of specs] by simp
    then have "\<not> owned_file env kind files' p" using Cons.prems by (simp add: owned_file_def)
    then show ?thesis using Cons.IH [of files'] Inr c same by (cases r) auto
  qed simp
qed simp

lemma cleanup_dirs_shrinks:
  "map_of (snd (cleanup_dirs env pre kind dirs files)) p = map_of files p \<or>
   map_of (snd (cleanup_dirs env pre kind dirs files)) p = None"
proof (induction dirs arbitrary: files)
  case (Cons d ds)
  show ?case
  proof (cases "glob_prefix env d pre files")
    case (Inr specs)
    obtain r files' where c: "cleanup_files env kind specs files = (r, files')" by force
    show ?thesis
      using Cons.IH [of files'] cleanup_files_shrinks [of env kind specs files p] Inr c
      by (cases r) auto
  qed simp
qed simp

lemma owned_shrinks:
  assumes "map_of files' p = map_of files p \<or> map_of files' p = None" "owned_file env kind files' p"
  shows "owned_file env kind files p"
  using assms by (cases "map_of files' p"; cases "map_of files p") (simp_all add: owned_file_def)

text \<open>A file found by the search of one directory: its path is in normal form, its directory
  is the one searched and its name has the prefix.\<close>

definition found_in :: "go_string \<Rightarrow> go_string \<Rightarrow> go_string \<Rightarrow> bool" where
  "found_in dir pre p \<longleftrightarrow>
     (let gdir = glob_dir (path_Join [dir, pre @ ''*'']); name = snd (path_Split p) in
      \<not> has_meta gdir \<and> glob_dir p = gdir \<and> prefix pre name \<and> path_Join [gdir, name] = p)"

lemma glob_prefix_finds:
  assumes "found_in dir pre p" "p \<in> fst ` set files"
  shows "\<exists>specs. glob_prefix env dir pre files = Inr specs \<and> p \<in> set specs"
  using assms by (force simp: found_in_def glob_prefix_def Let_def names_in_def image_iff)

lemma cleanup_dirs_removes:
  "cleanup_dirs env pre kind dirs files = (None, files') \<Longrightarrow> dir \<in> set dirs \<Longrightarrow>
     found_in dir pre p \<Longrightarrow> \<not> owned_file env kind files' p"
proof (induction dirs arbitrary: files)
  case (Cons d ds)
  obtain specs where g: "glob_prefix env d pre files = Inr specs"
    using Cons.prems(1) by (cases "glob_prefix env d pre files") auto
  obtain r fs where c: "cleanup_files env kind specs files = (r, fs)" by force
  have rest: "cleanup_dirs env pre kind ds fs = (None, files')" and r: "r = None"
    using Cons.prems(1) g c by (auto split: option.splits)
  show ?case
  proof (cases "dir \<in> set ds")
    case True
    then show ?thesis using Cons.IH [OF rest] Cons.prems(3) by blast
  next
    case False
    then have d: "dir = d" using Cons.prems(2) by simp
    have "\<not> owned_file env kind fs p"
    proof (cases "p \<in> fst ` set files")
      case True
      then have "p \<in> set specs" using glob_prefix_finds [of d pre p files env] Cons.prems(3) g d by auto
      then show ?thesis using cleanup_files_removes c r by blast
    next
      case False
      then have "map_of files p = None" by (simp add: map_of_eq_None_iff)
      then show ?thesis
        using cleanup_files_shrinks [of env kind specs files p] c by (simp add: owned_file_def)
    qed
    then show ?thesis
      using owned_shrinks cleanup_dirs_shrinks [of env pre kind ds fs p] rest by (metis snd_conv)
  qed
qed simp

text \<open>Where no spec directory has pattern characters in its name and files can be removed, the
  clean-up succeeds.\<close>

definition cleanup_works :: "cdi_env \<Rightarrow> go_string \<Rightarrow> bool" where
  "cleanup_works env pre \<longleftrightarrow>
     (\<forall>p. cdi_RemoveErr env p = None) \<and>
     list_all (\<lambda>dir. \<not> has_meta (glob_dir (path_Join [dir, pre @ ''*'']))) (cdi_SpecDirectories env)"

lemma cleanup_files_works:
  "\<forall>p. cdi_RemoveErr env p = None \<Longrightarrow> fst (cleanup_files env kind specs files) = None"
  by (induction specs arbitrary: files) (auto split: option.splits sum.splits)

lemma cleanup_dirs_works:
  "\<forall>p. cdi_RemoveErr env p = None \<Longrightarrow>
     list_all (\<lambda>dir. \<not> has_meta (glob_dir (path_Join [dir, pre @ ''*'']))) dirs \<Longrightarrow>
     fst (cleanup_dirs env pre kind dirs files) = None"
proof (induction dirs arbitrary: files)
  case (Cons dir dirs)
  obtain specs where specs: "glob_prefix env dir pre files = Inr specs"
    using Cons.prems(2) by (simp add: glob_prefix_def Let_def)
  obtain files1 where "cleanup_files env kind specs files = (None, files1)"
    using cleanup_files_works [OF Cons.prems(1), of kind specs files]
    by (cases "cleanup_files env kind specs files") auto
  then show ?case using Cons specs by simp
qed simp

lemma CleanupSpecs_works:
  "cleanup_works env pre \<Longrightarrow> fst (CleanupSpecs env pre kind files) = None"
  using cleanup_dirs_works by (simp add: cleanup_works_def CleanupSpecs_def)

section \<open>Properties\<close>

text \<open>A library with its documented behaviour on a few files, for the witnesses.\<close>

definition sample_cdi :: cdi_env where
  "sample_cdi =
     \<lparr>cdi_CurrentVersion = ''1.0.0'', cdi_SpecDirectories = [''/etc/cdi'', ''/var/run/cdi''],
      cdi_WriteSpec = (\<lambda>spec name files. (None, (''/var/run/cdi/'' @ name, SpecKind spec) # files)),
      cdi_ReadSpecKind = (\<lambda>p contents. Inr contents),
      cdi_AnnotationKey = (\<lambda>plugin dev. Inr (''cdi.k8s.io/'' @ plugin @ ''_'' @ dev)),
      cdi_AnnotationValue = (\<lambda>names. Inr (go_Join '','' names)),
      cdi_QualifiedName = (\<lambda>v c n. v @ ''/'' @ c @ ''='' @ n),
      cdi_GlobMeta = (\<lambda>p files. Inr []), cdi_RemoveErr = (\<lambda>p. None),
      sha256_Sum256 = (\<lambda>s. replicate 32 (word_of_nat (length s)))\<rparr>"

definition sample_files :: spec_files where
  "sample_files = [(''/var/run/cdi/nvidia.com_rdma'', ''nvidia.com/net-rdma''),
                   (''/var/run/cdi/nvidia.com_gpu'', ''nvidia.com/gpu'')]"



text \<open>C37: The pool identifier in the annotation key has 52 characters, so with the plugin name
  it stays within the 63 of a Kubernetes annotation name, and two pools share it only when
  their SHA-256 digests collide.\<close>

theorem pool_id_short_and_faithful:
  assumes "\<forall>s. length (sha256_Sum256 env s) = 32"
  shows "length (''rdmadp_'' @ pool_id env pre pool) \<le> 63 \<and> length (pool_id env pre pool) = 52 \<and>
    (pool_id env pre pool = pool_id env pre' pool' \<longleftrightarrow>
       sha256_Sum256 env (pre @ ''/'' @ pool) = sha256_Sum256 env (pre' @ ''/'' @ pool'))"
  using base32_inject assms by (auto simp: pool_id_def length_base32)

lemma pool_id_short_and_faithful_witness:
  "length (pool_id sample_cdi ''nvidia.com'' ''pool'') = 52"
  using pool_id_short_and_faithful [of sample_cdi "''nvidia.com''" "''pool''" "''nvidia.com''" "''p''"]
  by (simp add: sample_cdi_def)

lemma cleanup_keeps_foreign_specs:
  assumes "\<And>c. map_of files p = Some c \<Longrightarrow> cdi_ReadSpecKind env p c \<noteq> Inr (pre @ ''/'' @ kind)"
  shows "map_of (snd (CleanupSpecs env pre kind files)) p = map_of files p"
  unfolding CleanupSpecs_def
  by (rule cleanup_dirs_keeps) (use assms in \<open>auto simp: owned_file_def split: option.splits\<close>)

lemma cleanup_removes_own_specs:
  assumes "CleanupSpecs env pre kind files = (None, files')"
    and "dir \<in> set (cdi_SpecDirectories env)" "found_in dir pre p" "map_of files' p = Some c"
  shows "cdi_ReadSpecKind env p c \<noteq> Inr (pre @ ''/'' @ kind)"
  using cleanup_dirs_removes [of env pre "pre @ ''/'' @ kind" "cdi_SpecDirectories env" files files'
      dir p] assms
  by (auto simp: CleanupSpecs_def owned_file_def)

text \<open>C38: Cleaning up removes the plugin's specs and nothing else: it changes no file, and it
  keeps every spec file of another kind and every one that does not parse, also when it stops
  with an error; and when it reports no error, no spec file of the plugin's kind is left under
  the searched name prefix in any of the CDI directories.\<close>

theorem cleanup_removes_exactly_own_specs:
  assumes "CleanupSpecs env pre kind files = (err, files')"
  shows "(\<forall>p. map_of files' p = None \<or> map_of files' p = map_of files p) \<and>
    (\<forall>p c. map_of files p = Some c \<and> cdi_ReadSpecKind env p c \<noteq> Inr (pre @ ''/'' @ kind) \<longrightarrow>
       map_of files' p = Some c) \<and>
    (err = None \<longrightarrow> (\<forall>dir \<in> set (cdi_SpecDirectories env). \<forall>p c.
       found_in dir pre p \<and> map_of files' p = Some c \<longrightarrow>
       cdi_ReadSpecKind env p c \<noteq> Inr (pre @ ''/'' @ kind)))"
proof -
  have "map_of files' p = None \<or> map_of files' p = map_of files p" for p
    using cleanup_dirs_shrinks [of env pre "pre @ ''/'' @ kind" "cdi_SpecDirectories env" files p] assms
    by (auto simp: CleanupSpecs_def)
  moreover have "map_of files' p = Some c"
    if "map_of files p = Some c" "cdi_ReadSpecKind env p c \<noteq> Inr (pre @ ''/'' @ kind)" for p c
    using cleanup_keeps_foreign_specs [of files p env pre kind] that assms by simp
  ultimately show ?thesis
    using cleanup_removes_own_specs [of env pre kind files files'] assms by blast
qed

lemma sample_cleanup:
  "CleanupSpecs sample_cdi ''nvidia.com'' ''net-rdma'' sample_files =
     (None, [(''/var/run/cdi/nvidia.com_gpu'', ''nvidia.com/gpu'')])"
  by code_simp

lemma cleanup_removes_exactly_own_specs_witness:
  "\<exists>files'. CleanupSpecs sample_cdi ''nvidia.com'' ''net-rdma'' sample_files = (None, files') \<and>
     map_of files' ''/var/run/cdi/nvidia.com_gpu'' = Some ''nvidia.com/gpu'' \<and>
     map_of files' ''/var/run/cdi/nvidia.com_rdma'' \<noteq> Some ''nvidia.com/net-rdma''"
proof -
  let ?kept = "[(''/var/run/cdi/nvidia.com_gpu'', ''nvidia.com/gpu'')]"
  note T = cleanup_removes_exactly_own_specs [OF sample_cleanup]
  have found: "found_in ''/var/run/cdi'' ''nvidia.com'' ''/var/run/cdi/nvidia.com_rdma''" by code_simp
  have dir: "''/var/run/cdi'' \<in> set (cdi_SpecDirectories sample_cdi)"
    and kind: "cdi_ReadSpecKind sample_cdi p c = Inr c" for p c
    by (simp_all add: sample_cdi_def)
  have foreign: "map_of sample_files ''/var/run/cdi/nvidia.com_gpu'' = Some ''nvidia.com/gpu'' \<and>
      cdi_ReadSpecKind sample_cdi ''/var/run/cdi/nvidia.com_gpu'' ''nvidia.com/gpu'' \<noteq>
        Inr (''nvidia.com'' @ ''/'' @ ''net-rdma'')"
    unfolding kind by (simp add: sample_files_def)
  have "map_of ?kept ''/var/run/cdi/nvidia.com_gpu'' = Some ''nvidia.com/gpu''"
    by (rule conjunct1 [OF conjunct2 [OF T], rule_format, OF foreign])
  moreover have "map_of ?kept ''/var/run/cdi/nvidia.com_rdma'' \<noteq> Some ''nvidia.com/net-rdma''"
  proof
    assume left: "map_of ?kept ''/var/run/cdi/nvidia.com_rdma'' = Some ''nvidia.com/net-rdma''"
    show False
      using conjunct2 [OF conjunct2 [OF T], rule_format, OF refl dir conjI [OF found left]]
      unfolding kind by simp
  qed
  ultimately show ?thesis using sample_cleanup by (intro exI conjI)
qed

end
