(* ===== verification/ServerState.thy ===== *)
theory ServerState
  imports Types Cdi
begin

text \<open>
  The state of a resource server (\<^verbatim>\<open>resourceServer\<close> and \<^verbatim>\<open>resourcesServerPort\<close> in
  \<^verbatim>\<open>pkg/resources/server.go\<close>) and its constructor.

  \<^item> \<open>devs\<close> is a slice of pointers, and the health channel carries such pointers, so devices
    live in the store \<open>devStore\<close> and \<open>devs\<close> holds indices into it.
  \<^item> \<open>updateResource\<close> is a channel of capacity one: the number of buffered notifications.
  \<^item> \<open>stopWatcher\<close> and \<open>health\<close> are unbuffered and hold nothing.
  \<^item> \<open>rsConnector\<close> is \<open>None\<close> for a nil interface, \<open>Some None\<close> for a port whose gRPC server
    is nil.  A gRPC server is what the code can observe of it: its services, the listener it
    serves, whether it was stopped.
  \<^item> \<open>mutex\<close> and \<open>lifecycleMu\<close> have no field: the step relations of the protocol theories
    say which steps they make atomic.
\<close>

section \<open>The server record\<close>

datatype socket_owner = socketOwnerNone | socketOwnerKnown | socketOwnerUnknown

record listener =
  lis_ino :: "64 word"
  lis_path :: go_string
  lis_unlink_on_close :: bool

datatype grpc_service = RegistrationService | DevicePluginService | KubeletRegistrationService

record grpcServer =
  services :: "grpc_service list"
  serving :: "listener option"
  grpc_stopped :: bool

record resourceServer =
  activeSockDir :: go_string
  deprecatedSockDir :: go_string
  resourceName :: go_string
  watchMode :: bool
  socketName :: go_string
  socketPath :: go_string
  socketOwner :: socket_owner
  socketIno :: "64 word"
  updateResource :: nat
  rsConnector :: "grpcServer option option"
  rdmaHcaMax :: int
  devs :: "nat list"
  devStore :: "Device list"
  deviceSpec :: "DeviceSpec list"
  pciDevices :: "pciNetDevice list"
  useCdi :: bool
  cdiResourceName :: go_string

definition cdiResourcePrefix :: go_string where
  "cdiResourcePrefix = ''nvidia.com''"

definition cdiResourceKind :: go_string where
  "cdiResourceKind = ''net-rdma''"

definition socketSuffix :: go_string where
  "socketSuffix = ''sock''"

definition kubeEndPoint :: go_string where
  "kubeEndPoint = ''kubelet.sock''"

definition defaultKubeletRootDir :: go_string where
  "defaultKubeletRootDir = ''/var/lib/kubelet''"

definition getActiveSockDir :: "go_string \<Rightarrow> go_string" where
  "getActiveSockDir kubeletRootDir = path_Join [kubeletRootDir, ''plugins_registry'']"

definition getDeprecatedSockDir :: go_string where
  "getDeprecatedSockDir = path_Join [defaultKubeletRootDir, ''device-plugins'']"

section \<open>Device lists\<close>

text \<open>\<^verbatim>\<open>for n := 0; n < rdmaHcaMax; n++\<close>, creating one healthy device per round.\<close>

function device_loop :: "int \<Rightarrow> int \<Rightarrow> Device list" where
  "device_loop n hcaMax =
     (if n < hcaMax then \<lparr>ID = go_Itoa n, Health = Healthy\<rparr> # device_loop (n + 1) hcaMax else [])"
  by pat_completeness auto
termination
  by (relation "measure (\<lambda>(n, hcaMax). nat (hcaMax - n))") auto

declare device_loop.simps [simp del]

definition device_refs :: "Device list \<Rightarrow> Device list \<Rightarrow> nat list" where
  "device_refs store new = [length store ..< length store + length new]"

fun getDevicesSpec :: "pciNetDevice list \<Rightarrow> DeviceSpec list" where
  "getDevicesSpec [] = []"
| "getDevicesSpec (device # devices) = GetRdmaSpec device @ getDevicesSpec devices"

text \<open>What the pointers in \<open>devs\<close> refer to: the devices the kubelet is shown.\<close>

definition device_list :: "resourceServer \<Rightarrow> Device list" where
  "device_list s = map (\<lambda>r. devStore s ! r) (devs s)"

section \<open>newResourceServer\<close>

definition newResourceServer ::
  "UserConfig \<Rightarrow> pciNetDevice list \<Rightarrow> go_string \<Rightarrow> bool \<Rightarrow> bool \<Rightarrow> resourceServer result" where
  "newResourceServer config devices kubeletRootDir watcherMode cdi =
     (let active = getActiveSockDir kubeletRootDir;
          deprecated = getDeprecatedSockDir;
          sockDir = (if watcherMode then active else deprecated)
      in if RdmaHcaMax config < 0 then Inl (ErrRdmaHcaMax (RdmaHcaMax config))
         else if ResourcePrefix config = [] then Inl ErrEmptyPrefix
         else
           (let spec = getDevicesSpec devices;
                store = (if length spec > 0 then device_loop 0 (RdmaHcaMax config) else []);
                name = ResourceName config @ ''.'' @ socketSuffix
            in Inr \<lparr>activeSockDir = active, deprecatedSockDir = deprecated,
                    resourceName = ResourcePrefix config @ ''/'' @ ResourceName config,
                    watchMode = watcherMode, socketName = name,
                    socketPath = path_Join [sockDir, name],
                    socketOwner = socketOwnerNone, socketIno = 0, updateResource = 0,
                    rsConnector = Some None, rdmaHcaMax = RdmaHcaMax config,
                    devs = device_refs [] store, devStore = store, deviceSpec = spec,
                    pciDevices = devices, useCdi = cdi,
                    cdiResourceName = ResourceName config\<rparr>))"

section \<open>Facts\<close>

lemma getDevicesSpec_concat: "getDevicesSpec devices = concat (map GetRdmaSpec devices)"
  by (induction devices) auto

lemma getDevicesSpec_append [simp]:
  "getDevicesSpec (xs @ ys) = getDevicesSpec xs @ getDevicesSpec ys"
  by (simp add: getDevicesSpec_concat)

lemma device_loop_map:
  "0 \<le> n \<Longrightarrow> device_loop n m = map (\<lambda>k. \<lparr>ID = go_Itoa (int k), Health = Healthy\<rparr>) [nat n ..< nat m]"
proof (induction n m rule: device_loop.induct)
  case (1 n m)
  show ?case
  proof (cases "n < m")
    case True
    then have "[nat n ..< nat m] = nat n # [nat (n + 1) ..< nat m]"
      using "1.prems" by (subst upt_conv_Cons) (auto simp: nat_add_distrib)
    then show ?thesis
      using True 1 by (subst device_loop.simps) simp
  next
    case False
    then show ?thesis by (subst device_loop.simps) simp
  qed
qed

lemma length_device_loop [simp]: "length (device_loop 0 m) = nat m"
  by (simp add: device_loop_map)

lemma length_device_list [simp]: "length (device_list s) = length (devs s)"
  by (simp add: device_list_def)

text \<open>The identifiers \<^verbatim>\<open>"0" .. "n-1"\<close> the server advertises.\<close>

definition numbered_ids :: "int \<Rightarrow> go_string list" where
  "numbered_ids m = map (\<lambda>k. go_Itoa (int k)) [0 ..< nat m]"

lemma ids_device_loop: "map ID (device_loop 0 m) = numbered_ids m"
  by (simp add: device_loop_map numbered_ids_def)

lemma numbered_ids_distinct: "distinct (numbered_ids m)"
  by (auto simp: numbered_ids_def distinct_map inj_on_def go_Itoa_inject_nonneg)

lemma numbered_ids_empty [simp]: "m \<le> 0 \<Longrightarrow> numbered_ids m = []"
  by (simp add: numbered_ids_def)

section \<open>Properties\<close>

definition sample_config :: UserConfig where
  "sample_config = \<lparr>ResourceName = ''hca_a'', ResourcePrefix = ''rdma'', RdmaHcaMax = 3,
     Devices = [], ConfSelectors = no_selectors\<lparr>Vendors := [''15b3'']\<rparr>\<rparr>"

definition sample_nd :: pciNetDevice where
  "sample_nd =
     \<lparr>pciAddress = ''0000:03:00.0'', ifName = ''eth0'', vendor = ''15b3'', deviceID = ''1017'',
      driver = ''mlx5_core'', linkType = ''ether'',
      rdmaSpec = [\<lparr>HostPath = ''/dev/infiniband/uverbs0'', ContainerPath = ''/dev/infiniband/uverbs0'',
                   Permissions = ''rwm''\<rparr>]\<rparr>"

definition sample_server :: "bool \<Rightarrow> bool \<Rightarrow> resourceServer" where
  "sample_server wm cdi = projr (newResourceServer sample_config [sample_nd] ''/var/lib/kubelet'' wm cdi)"

lemma sample_server_new:
  "newResourceServer sample_config [sample_nd] ''/var/lib/kubelet'' wm cdi = Inr (sample_server wm cdi)"
  by (simp add: sample_server_def newResourceServer_def sample_config_def Let_def)

text \<open>A new resource server refuses a negative device count and an empty prefix and
  nothing else; it exposes the RDMA devices of all its PCI devices and advertises
  \<^verbatim>\<open>rdmaHcaMax\<close> healthy devices with distinct identifiers \<^verbatim>\<open>"0"\<close>, \<^verbatim>\<open>"1"\<close>, and so on,
  or none when there is no RDMA device to expose.\<close>

lemma new_server_inventory:
  "(case newResourceServer config devices root wm cdi of
      Inl e \<Rightarrow> RdmaHcaMax config < 0 \<and> e = ErrRdmaHcaMax (RdmaHcaMax config) \<or>
               0 \<le> RdmaHcaMax config \<and> ResourcePrefix config = [] \<and> e = ErrEmptyPrefix
    | Inr s \<Rightarrow> 0 \<le> RdmaHcaMax config \<and> ResourcePrefix config \<noteq> [] \<and>
        deviceSpec s = concat (map GetRdmaSpec devices) \<and>
        map ID (device_list s) =
          (if concat (map GetRdmaSpec devices) = [] then []
           else map (\<lambda>k. go_Itoa (int k)) [0 ..< nat (RdmaHcaMax config)]) \<and>
        distinct (map ID (device_list s)) \<and> Health ` set (device_list s) \<subseteq> {Healthy})"
proof -
  let ?store = "if getDevicesSpec devices = [] then [] else device_loop 0 (RdmaHcaMax config)"
  have nth: "map ((!) xs) [0 ..< length xs] = xs" for xs :: "Device list" by (rule map_nth)
  have ids: "map ID ?store = (if getDevicesSpec devices = [] then []
      else map (\<lambda>k. go_Itoa (int k)) [0 ..< nat (RdmaHcaMax config)])"
    using ids_device_loop [of "RdmaHcaMax config"] by (simp add: numbered_ids_def)
  have dist: "distinct (map ID ?store)"
    using ids_device_loop [of "RdmaHcaMax config"] numbered_ids_distinct [of "RdmaHcaMax config"] by simp
  have health: "x \<in> set (device_loop 0 m) \<Longrightarrow> Health x = Healthy" for x m
    by (auto simp: device_loop_map)
  show ?thesis
    using ids dist health
    by (auto simp: newResourceServer_def Let_def device_list_def device_refs_def nth
        getDevicesSpec_concat [symmetric])
qed

end
