(* ===== verification/Sockets.thy ===== *)
theory Sockets
  imports ServerState
begin

text \<open>
  The registration socket of a resource server and who owns it: the ownership record
  (\<^verbatim>\<open>recordSocketIDLocked\<close>, \<^verbatim>\<open>clearSocketOwnershipLocked\<close>), the ownership check
  (\<^verbatim>\<open>shouldRemoveSocketPathLocked\<close>, \<^verbatim>\<open>socketPathOwnedSolelyBy\<close>), the parser of
  \<^verbatim>\<open>/proc/net/unix\<close> (\<^verbatim>\<open>unixSocketInodesForPath\<close>), the path lock and the clean-up, all
  of \<^verbatim>\<open>pkg/resources/server.go\<close>.

  \<open>osys\<close> is the part of the machine these functions touch: what a path name refers to, the
  bound Unix sockets of the network namespace in the order the kernel lists them, and the
  directories this caller holds a \<^verbatim>\<open>flock\<close> on.  \<open>os_env\<close> holds what the system calls and the
  libraries answer during one call; every failure the code handles can be chosen there.
\<close>

section \<open>The machine\<close>

datatype fs_node = SockNode "64 word" | OtherNode

type_synonym unix_row = "64 word \<times> go_string"

record osys =
  paths :: "go_string \<rightharpoonup> fs_node"
  unix_rows :: "unix_row list"
  flocks :: "go_string list"

datatype capture = CapNotUnixListener | CapNoSyscallConn | CapFstatFailed | CapFstat

datatype lock_answer = LockTaken | LockOpenFailed | LockFlockFailed

record RegisterRequest =
  ReqVersion :: go_string
  ReqEndpoint :: go_string
  ReqResourceName :: go_string

record os_env =
  e_lock :: lock_answer
  e_lstat :: "goerr option"
  e_remove :: "goerr option"
  e_listen :: "64 word result"
  e_capture :: capture
  e_proc_net_unix :: "unix_row list \<Rightarrow> (go_string list \<times> goerr option) result"
  e_NewClient :: "go_string \<Rightarrow> goerr option"
  e_api_version :: go_string
  e_Register :: "RegisterRequest \<Rightarrow> goerr option"

text \<open>\<^verbatim>\<open>os.Remove\<close>, with \<^verbatim>\<open>os.IsNotExist\<close> told apart from the other errors.\<close>

datatype remove_answer = RemoveOk osys | RemoveNotExist | RemoveError goerr

definition os_Remove :: "os_env \<Rightarrow> go_string \<Rightarrow> osys \<Rightarrow> remove_answer" where
  "os_Remove e p os =
     (case paths os p of
        None \<Rightarrow> RemoveNotExist
      | Some _ \<Rightarrow>
          (case e_remove e of
             Some err \<Rightarrow> RemoveError err
           | None \<Rightarrow> RemoveOk (os\<lparr>paths := (paths os)(p := None)\<rparr>)))"

datatype lstat_answer = LstatOk | LstatNotExist | LstatError goerr

definition os_Lstat_path :: "os_env \<Rightarrow> go_string \<Rightarrow> osys \<Rightarrow> lstat_answer" where
  "os_Lstat_path e p os =
     (case e_lstat e of
        Some err \<Rightarrow> LstatError err
      | None \<Rightarrow> (case paths os p of None \<Rightarrow> LstatNotExist | Some _ \<Rightarrow> LstatOk))"

text \<open>Binding a Unix socket fails when the path name exists; otherwise the name refers to the
  new socket, and the kernel lists it.\<close>

definition net_Listen :: "os_env \<Rightarrow> go_string \<Rightarrow> osys \<Rightarrow> (listener \<times> osys) result" where
  "net_Listen e p os =
     (case e_listen e of
        Inl err \<Rightarrow> Inl err
      | Inr ino \<Rightarrow>
          if paths os p \<noteq> None then Inl (ErrAddrInUse p)
          else Inr (\<lparr>lis_ino = ino, lis_path = p, lis_unlink_on_close = True\<rparr>,
                    os\<lparr>paths := (paths os)(p \<mapsto> SockNode ino),
                       unix_rows := unix_rows os @ [(ino, p)]\<rparr>))"

definition close_listener :: "listener \<Rightarrow> osys \<Rightarrow> osys" where
  "close_listener l os =
     os\<lparr>unix_rows := filter (\<lambda>r. fst r \<noteq> lis_ino l) (unix_rows os),
        paths := (if lis_unlink_on_close l then (paths os)(lis_path l := None) else paths os)\<rparr>"

section \<open>Reading /proc/net/unix\<close>

definition procNetUnixInodeField :: nat where
  "procNetUnixInodeField = 6"

definition procNetUnixPathField :: nat where
  "procNetUnixPathField = 7"

fun inodes_loop :: "go_string \<Rightarrow> go_string list \<Rightarrow> 64 word list" where
  "inodes_loop p [] = []"
| "inodes_loop p (line # lines) =
     (let fields = go_Fields line in
      if length fields \<le> procNetUnixPathField then inodes_loop p lines
      else
        (let q = (if length fields > procNetUnixPathField + 1
                  then go_Join '' '' (drop procNetUnixPathField fields)
                  else fields ! procNetUnixPathField)
         in if q \<noteq> p then inodes_loop p lines
            else case go_ParseUint10 (fields ! procNetUnixInodeField) of
              None \<Rightarrow> inodes_loop p lines
            | Some ino \<Rightarrow> ino # inodes_loop p lines))"

text \<open>The answer of the open, or the lines the scanner yields and its error at the end.\<close>

definition unixSocketInodesForPath ::
  "(go_string list \<times> goerr option) result \<Rightarrow> go_string \<Rightarrow> 64 word list \<times> goerr option" where
  "unixSocketInodesForPath file p =
     (case file of
        Inl e \<Rightarrow> ([], Some e)
      | Inr (lines, scan_err) \<Rightarrow>
          (case lines of
             [] \<Rightarrow> ([], scan_err)
           | header # rows \<Rightarrow> (inodes_loop p rows, scan_err)))"

definition socketPathOwnedSolelyBy ::
  "(go_string list \<times> goerr option) result \<Rightarrow> go_string \<Rightarrow> 64 word \<Rightarrow> bool" where
  "socketPathOwnedSolelyBy file p ino =
     (case unixSocketInodesForPath file p of
        (inos, Some e) \<Rightarrow> False
      | (inos, None) \<Rightarrow> length inos = 1 \<and> inos ! 0 = ino)"

section \<open>Ownership\<close>

definition clearSocketOwnershipLocked :: "resourceServer \<Rightarrow> resourceServer" where
  "clearSocketOwnershipLocked s = s\<lparr>socketOwner := socketOwnerNone, socketIno := 0\<rparr>"

text \<open>The listener is returned because its unlink-on-close flag is changed.\<close>

definition recordSocketIDLocked ::
  "os_env \<Rightarrow> listener \<Rightarrow> resourceServer \<Rightarrow> resourceServer \<times> listener" where
  "recordSocketIDLocked e l s =
     (let s1 = clearSocketOwnershipLocked s in
      if e_capture e = CapNotUnixListener then (s1\<lparr>socketOwner := socketOwnerUnknown\<rparr>, l)
      else
        (let l1 = l\<lparr>lis_unlink_on_close := False\<rparr> in
         if e_capture e = CapNoSyscallConn then (s1\<lparr>socketOwner := socketOwnerUnknown\<rparr>, l1)
         else if e_capture e = CapFstatFailed then (s1\<lparr>socketOwner := socketOwnerUnknown\<rparr>, l1)
         else (s1\<lparr>socketOwner := socketOwnerKnown, socketIno := lis_ino l1\<rparr>, l1)))"

definition shouldRemoveSocketPathLocked :: "os_env \<Rightarrow> resourceServer \<Rightarrow> osys \<Rightarrow> bool" where
  "shouldRemoveSocketPathLocked e s os =
     (case socketOwner s of
        socketOwnerUnknown \<Rightarrow> False
      | socketOwnerKnown \<Rightarrow>
          (case os_Lstat_path e (socketPath s) os of
             LstatNotExist \<Rightarrow> False
           | LstatError err \<Rightarrow> False
           | LstatOk \<Rightarrow>
               if \<not> socketPathOwnedSolelyBy (e_proc_net_unix e (unix_rows os)) (socketPath s)
                    (socketIno s)
               then False else True)
      | socketOwnerNone \<Rightarrow> True)"

definition cleanupLocked ::
  "os_env \<Rightarrow> resourceServer \<Rightarrow> osys \<Rightarrow> goerr option \<times> resourceServer \<times> osys" where
  "cleanupLocked e s os =
     (if \<not> shouldRemoveSocketPathLocked e s os then (None, clearSocketOwnershipLocked s, os)
      else case os_Remove e (socketPath s) os of
        RemoveError err \<Rightarrow> (Some err, s, os)
      | RemoveNotExist \<Rightarrow> (None, clearSocketOwnershipLocked s, os)
      | RemoveOk os1 \<Rightarrow> (None, clearSocketOwnershipLocked s, os1))"

definition cleanup ::
  "os_env \<Rightarrow> resourceServer \<Rightarrow> osys \<Rightarrow> goerr option \<times> resourceServer \<times> osys" where
  "cleanup e s os = cleanupLocked e s os"

section \<open>The path lock\<close>

text \<open>\<^verbatim>\<open>lockSocketPath\<close> returns a function; its effect is given by the directory it unlocks,
  if any.\<close>

definition lockSocketPath :: "os_env \<Rightarrow> go_string \<Rightarrow> osys \<Rightarrow> go_string option \<times> osys" where
  "lockSocketPath e p os =
     (let dir = path_Dir p in
      case e_lock e of
        LockOpenFailed \<Rightarrow> (None, os)
      | LockFlockFailed \<Rightarrow> (None, os)
      | LockTaken \<Rightarrow> (Some dir, os\<lparr>flocks := dir # flocks os\<rparr>))"

definition unlockSocketPath :: "go_string option \<Rightarrow> osys \<Rightarrow> osys" where
  "unlockSocketPath held os =
     (case held of None \<Rightarrow> os | Some dir \<Rightarrow> os\<lparr>flocks := remove1 dir (flocks os)\<rparr>)"

section \<open>The parser on the documented format\<close>

text \<open>
  A row of \<^verbatim>\<open>/proc/net/unix\<close>: six columns, the inode in decimal, the path.  The file starts
  with a header line; sockets that are not bound have no path column.
\<close>

definition row_line :: "unix_row \<Rightarrow> go_string \<Rightarrow> bool" where
  "row_line r line \<longleftrightarrow>
     (\<exists>cols. length cols = 6 \<and> go_Fields line = cols @ [go_Itoa (uint (fst r)), snd r])"

definition rows_clean :: "unix_row list \<Rightarrow> bool" where
  "rows_clean rows \<longleftrightarrow> (\<forall>r \<in> set rows. go_Fields (snd r) = [snd r])"

definition proc_format ::
  "(unix_row list \<Rightarrow> (go_string list \<times> goerr option) result) \<Rightarrow> bool" where
  "proc_format proc \<longleftrightarrow>
     (\<forall>rows. rows_clean rows \<longrightarrow>
        (\<exists>header ls. proc rows = Inr (header # ls, None) \<and>
           list_all2 row_line rows (filter (\<lambda>l. length (go_Fields l) > 7) ls)))"

definition inos_of :: "go_string \<Rightarrow> unix_row list \<Rightarrow> 64 word list" where
  "inos_of p rows = map fst (filter (\<lambda>r. snd r = p) rows)"

lemma inos_of_simps [simp]:
  "inos_of p [] = []"
  "inos_of p (r # rows) = (if snd r = p then [fst r] else []) @ inos_of p rows"
  "inos_of p (rows @ rows') = inos_of p rows @ inos_of p rows'"
  by (simp_all add: inos_of_def)

lemma set_inos_of: "i \<in> set (inos_of p rows) \<longleftrightarrow> (i, p) \<in> set rows"
  by (force simp: inos_of_def)

lemma inodes_loop_skip:
  "inodes_loop p ls = inodes_loop p (filter (\<lambda>l. length (go_Fields l) > 7) ls)"
  by (induction ls) (auto simp: procNetUnixPathField_def Let_def split: option.split)

lemma inodes_loop_row:
  assumes "row_line r l"
  shows "inodes_loop p (l # ls) = (if snd r = p then [fst r] else []) @ inodes_loop p ls"
proof -
  obtain cols where len: "length cols = 6"
    and f: "go_Fields l = cols @ [go_Itoa (uint (fst r)), snd r]"
    using assms by (auto simp: row_line_def)
  have "go_Fields l ! 6 = go_Itoa (uint (fst r))" "go_Fields l ! 7 = snd r"
    "length (go_Fields l) = 8"
    by (simp_all add: f len nth_append)
  then show ?thesis
    by (simp add: procNetUnixPathField_def procNetUnixInodeField_def ParseUint10_Itoa_word)
qed

lemma inodes_loop_rows: "list_all2 row_line rows ls \<Longrightarrow> inodes_loop p ls = inos_of p rows"
  by (induction rule: list_all2_induct) (simp_all add: inodes_loop_row del: inodes_loop.simps(2))

lemma proc_inodes:
  assumes "proc_format proc" "rows_clean rows"
  shows "unixSocketInodesForPath (proc rows) p = (inos_of p rows, None)"
proof -
  obtain header ls where p: "proc rows = Inr (header # ls, None)"
    and rows: "list_all2 row_line rows (filter (\<lambda>l. length (go_Fields l) > 7) ls)"
    using assms by (auto simp: proc_format_def)
  show ?thesis
    using inodes_loop_rows [OF rows] inodes_loop_skip [of p ls]
    by (simp add: unixSocketInodesForPath_def p)
qed

lemma proc_sole:
  assumes "proc_format proc" "rows_clean rows"
  shows "socketPathOwnedSolelyBy (proc rows) p ino \<longleftrightarrow> inos_of p rows = [ino]"
  using proc_inodes [OF assms, of p]
  by (cases "inos_of p rows") (auto simp: socketPathOwnedSolelyBy_def)

text \<open>A concrete printer with this format, for the witnesses.\<close>

definition sample_proc :: "unix_row list \<Rightarrow> (go_string list \<times> goerr option) result" where
  "sample_proc rows =
     Inr (''Num RefCount Protocol Flags Type St Inode Path'' #
       map (\<lambda>r. ''0: 00000002 00000000 00010000 0001 01 '' @ go_Itoa (uint (fst r)) @ '' '' @ snd r) rows,
       None)"

lemma fields_acc_word:
  "\<forall>c \<in> set w. \<not> go_space c \<Longrightarrow> go_space sp \<Longrightarrow>
     fields_acc cur (w @ sp # rest) =
       (if cur = [] \<and> w = [] then [] else [rev cur @ w]) @ fields_acc [] rest"
  by (induction w arbitrary: cur) auto

lemma go_Fields_word:
  "w \<noteq> [] \<Longrightarrow> \<forall>c \<in> set w. \<not> go_space c \<Longrightarrow> go_Fields (w @ '' '' @ rest) = w # go_Fields rest"
  using fields_acc_word [of w "CHR '' ''" "[]" rest] by (simp add: go_Fields_def go_space_def)

lemma itoa_nospace: "c \<in> set (go_Itoa (uint w)) \<Longrightarrow> \<not> go_space c"
  using nat_to_dec_digits [of c "nat (uint w)"]
  by (auto simp: go_Itoa_def dec_digit_def go_space_def Let_def split: if_splits)

lemma itoa_nonempty [simp]: "go_Itoa i \<noteq> []"
  by (simp add: go_Itoa_def)

lemma sample_columns:
  "go_Fields (''0: 00000002 00000000 00010000 0001 01 '' @ rest) =
    [''0:'', ''00000002'', ''00000000'', ''00010000'', ''0001'', ''01''] @ go_Fields rest"
  by (simp add: go_Fields_def go_space_def)

lemma sample_line:
  assumes "go_Fields (snd r) = [snd r]"
  shows "go_Fields (''0: 00000002 00000000 00010000 0001 01 '' @ go_Itoa (uint (fst r)) @ '' '' @ snd r) =
    [''0:'', ''00000002'', ''00000000'', ''00010000'', ''0001'', ''01''] @ [go_Itoa (uint (fst r)), snd r]"
proof -
  have "go_Fields (go_Itoa (uint (fst r)) @ '' '' @ snd r) = [go_Itoa (uint (fst r)), snd r]"
    using go_Fields_word [of "go_Itoa (uint (fst r))" "snd r"] itoa_nospace assms by auto
  then show ?thesis by (simp only: sample_columns)
qed

lemma sample_proc_format: "proc_format sample_proc"
proof -
  have "list_all2 row_line rows (filter (\<lambda>l. length (go_Fields l) > 7)
      (map (\<lambda>r. ''0: 00000002 00000000 00010000 0001 01 '' @ go_Itoa (uint (fst r)) @ '' '' @ snd r) rows))"
    if "rows_clean rows" for rows
    using that
  proof (induction rows)
    case (Cons r rows)
    have r: "go_Fields (snd r) = [snd r]" and rest: "rows_clean rows"
      using Cons.prems by (simp_all add: rows_clean_def)
    show ?case
      using Cons.IH [OF rest] sample_line [OF r]
      by (auto simp: row_line_def intro!: exI
          [of _ "[''0:'', ''00000002'', ''00000000'', ''00010000'', ''0001'', ''01'']"])
  qed simp
  then show ?thesis by (auto simp: proc_format_def sample_proc_def)
qed

section \<open>Facts about ownership and the clean-up\<close>

lemma clear_fields [frame_simps]:
  "socketPath (clearSocketOwnershipLocked s) = socketPath s"
  "watchMode (clearSocketOwnershipLocked s) = watchMode s"
  "rsConnector (clearSocketOwnershipLocked s) = rsConnector s"
  "socketOwner (clearSocketOwnershipLocked s) = socketOwnerNone"
  "socketIno (clearSocketOwnershipLocked s) = 0"
  by (simp_all add: clearSocketOwnershipLocked_def)

lemma shouldRemove_known_iff:
  assumes "proc_format (e_proc_net_unix e)" "rows_clean (unix_rows os)"
    and "socketOwner s = socketOwnerKnown"
  shows "shouldRemoveSocketPathLocked e s os \<longleftrightarrow>
    e_lstat e = None \<and> paths os (socketPath s) \<noteq> None \<and>
    inos_of (socketPath s) (unix_rows os) = [socketIno s]"
  using proc_sole [OF assms(1,2)] assms(3)
  by (auto simp: shouldRemoveSocketPathLocked_def os_Lstat_path_def split: option.splits)

lemma shouldRemove_none [simp]:
  "socketOwner s = socketOwnerNone \<Longrightarrow> shouldRemoveSocketPathLocked e s os"
  by (simp add: shouldRemoveSocketPathLocked_def)

lemma shouldRemove_unknown [simp]:
  "socketOwner s = socketOwnerUnknown \<Longrightarrow> \<not> shouldRemoveSocketPathLocked e s os"
  by (simp add: shouldRemoveSocketPathLocked_def)

lemma shouldRemove_cong:
  assumes "paths os1 = paths os" "unix_rows os1 = unix_rows os"
  shows "shouldRemoveSocketPathLocked e s os1 = shouldRemoveSocketPathLocked e s os"
proof -
  have "os_Lstat_path e p os1 = os_Lstat_path e p os" for p
    by (simp add: os_Lstat_path_def assms(1) split: option.split)
  then show ?thesis
    by (cases "socketOwner s") (simp_all add: shouldRemoveSocketPathLocked_def assms(2))
qed

lemma unlock_lock:
  "lockSocketPath e p os = (held, os') \<Longrightarrow> unlockSocketPath held os' = os"
  by (auto simp: lockSocketPath_def unlockSocketPath_def Let_def split: lock_answer.splits)

lemma lock_frame:
  assumes "lockSocketPath e p os = (held, os')"
  shows "paths os' = paths os" "unix_rows os' = unix_rows os"
  using assms by (auto simp: lockSocketPath_def Let_def split: lock_answer.splits)

lemma unlock_frame [simp]:
  "paths (unlockSocketPath held os) = paths os" "unix_rows (unlockSocketPath held os) = unix_rows os"
  by (simp_all add: unlockSocketPath_def split: option.splits)

section \<open>Properties\<close>

text \<open>A machine whose system calls succeed, for the witnesses.\<close>

definition sample_env :: "64 word \<Rightarrow> os_env" where
  "sample_env ino =
     \<lparr>e_lock = LockTaken, e_lstat = None, e_remove = None, e_listen = Inr ino,
      e_capture = CapFstat, e_proc_net_unix = sample_proc, e_NewClient = (\<lambda>t. None),
      e_api_version = ''v1beta1'', e_Register = (\<lambda>r. None)\<rparr>"

definition sample_os :: osys where
  "sample_os = \<lparr>paths = Map.empty, unix_rows = [(41, ''/run/other.sock'')], flocks = []\<rparr>"

lemma sample_env_fields [simp]:
  "e_lock (sample_env i) = LockTaken" "e_lstat (sample_env i) = None"
  "e_remove (sample_env i) = None" "e_listen (sample_env i) = Inr i"
  "e_capture (sample_env i) = CapFstat" "e_NewClient (sample_env i) t = None"
  "e_Register (sample_env i) r = None" "proc_format (e_proc_net_unix (sample_env i))"
  by (simp_all add: sample_env_def sample_proc_format)

lemma sample_os_fields [simp]:
  "paths sample_os = Map.empty" "unix_rows sample_os = [(41, ''/run/other.sock'')]"
  "flocks sample_os = []"
  by (simp_all add: sample_os_def)

lemma plain_socket_path [simp]:
  "go_Fields ''/run/other.sock'' = [''/run/other.sock'']"
  by (simp add: go_Fields_def go_space_def)

text \<open>C23: On a file in the kernel's format, the parser of \<^verbatim>\<open>/proc/net/unix\<close> finds exactly the
  inodes of the sockets bound to the path, in the order of the file; header, unbound sockets
  and other paths do not disturb it.\<close>

theorem proc_net_unix_is_read_back:
  assumes "proc_format proc" "rows_clean rows"
  shows "unixSocketInodesForPath (proc rows) p = (map fst (filter (\<lambda>r. snd r = p) rows), None)"
  using proc_inodes [OF assms] by (simp add: inos_of_def)

lemma proc_net_unix_is_read_back_witness:
  "unixSocketInodesForPath (sample_proc [(41, ''/run/other.sock''), (42, ''/run/a.sock'')]) ''/run/a.sock''
     = ([42], None)"
  using proc_net_unix_is_read_back [OF sample_proc_format,
      of "[(41, ''/run/other.sock''), (42, ''/run/a.sock'')]" "''/run/a.sock''"]
  by (simp add: rows_clean_def go_Fields_def go_space_def)

text \<open>The ownership check lets a path be removed only when ownership was cleared, or when
  the recorded socket is the only one the kernel lists at an existing path; an unidentified
  socket, a failed \<^verbatim>\<open>lstat\<close>, an unreadable table, a second listener or another inode keep it.\<close>

lemma removal_needs_sole_ownership:
  assumes "shouldRemoveSocketPathLocked e s os" "socketOwner s \<noteq> socketOwnerNone"
    and "rows_clean (unix_rows os)" "proc_format (e_proc_net_unix e)"
  shows "socketOwner s = socketOwnerKnown \<and> paths os (socketPath s) \<noteq> None \<and>
    map fst (filter (\<lambda>r. snd r = socketPath s) (unix_rows os)) = [socketIno s]"
proof -
  have known: "socketOwner s = socketOwnerKnown"
    using assms(1,2) by (cases "socketOwner s") simp_all
  show ?thesis
    using shouldRemove_known_iff [OF assms(4,3) known] assms(1) known by (simp add: inos_of_def)
qed

end
