(* ===== verification/Lifecycle.thy ===== *)
theory Lifecycle
  imports Sockets
begin

text \<open>
  Starting, stopping, restarting and watching a resource server: \<^verbatim>\<open>Start\<close>,
  \<^verbatim>\<open>startLocked\<close>, \<^verbatim>\<open>Stop\<close>, \<^verbatim>\<open>stopLocked\<close>,
  \<^verbatim>\<open>stopAndRemoveOwnedSocketLocked\<close>, \<^verbatim>\<open>Restart\<close>, \<^verbatim>\<open>Watch\<close>, \<^verbatim>\<open>register\<close>,
  \<^verbatim>\<open>NotifyRegistrationStatus\<close> and the methods of \<^verbatim>\<open>resourcesServerPort\<close>, as state
  transformers on the server and the machine.  \<open>startLocked\<close> and the stop sequence are
  composed of the parts that are atomic under the path lock (\<open>start_reclaim\<close>,
  \<open>start_bind\<close>, \<open>stop_check\<close>, \<open>stop_grpc\<close>, \<open>stop_unlink\<close>), which the interleaving model
  of several instances reuses.
\<close>

section \<open>The gRPC port\<close>

definition rsc_CreateServer :: "resourceServer \<Rightarrow> resourceServer" where
  "rsc_CreateServer s =
     s\<lparr>rsConnector := Some (Some \<lparr>services = [], serving = None, grpc_stopped = False\<rparr>)\<rparr>"

definition rsc_DeleteServer :: "resourceServer \<Rightarrow> resourceServer" where
  "rsc_DeleteServer s = s\<lparr>rsConnector := Some None\<rparr>"

definition rsc_GetServer :: "resourceServer \<Rightarrow> grpcServer option" where
  "rsc_GetServer s = (case rsConnector s of None \<Rightarrow> None | Some g \<Rightarrow> g)"

definition rsc_RegisterService :: "grpc_service \<Rightarrow> resourceServer \<Rightarrow> resourceServer" where
  "rsc_RegisterService sv s =
     (case rsc_GetServer s of
        None \<Rightarrow> s
      | Some g \<Rightarrow> s\<lparr>rsConnector := Some (Some (g\<lparr>services := services g @ [sv]\<rparr>))\<rparr>)"

definition rsc_Serve :: "listener \<Rightarrow> resourceServer \<Rightarrow> resourceServer" where
  "rsc_Serve l s =
     (case rsc_GetServer s of
        None \<Rightarrow> s
      | Some g \<Rightarrow> s\<lparr>rsConnector := Some (Some (g\<lparr>serving := Some l\<rparr>))\<rparr>)"

text \<open>\<^verbatim>\<open>grpc.Server.Stop\<close> closes the listener it serves.  The callers have checked that there
  is a server.\<close>

definition rsc_Stop :: "resourceServer \<Rightarrow> osys \<Rightarrow> resourceServer \<times> osys" where
  "rsc_Stop s os =
     (case rsc_GetServer s of
        None \<Rightarrow> (s, os)
      | Some g \<Rightarrow>
          (s\<lparr>rsConnector := Some (Some (g\<lparr>serving := None, grpc_stopped := True\<rparr>))\<rparr>,
           case serving g of None \<Rightarrow> os | Some l \<Rightarrow> close_listener l os))"

definition GetClientConn :: "os_env \<Rightarrow> go_string \<Rightarrow> goerr option" where
  "GetClientConn e unixSocketPath = e_NewClient e (''unix://'' @ unixSocketPath)"

definition register :: "os_env \<Rightarrow> resourceServer \<Rightarrow> goerr option" where
  "register e s =
     (let kubeletEndpoint = path_Join [deprecatedSockDir s, kubeEndPoint] in
      case GetClientConn e kubeletEndpoint of
        Some err \<Rightarrow> Some err
      | None \<Rightarrow>
          e_Register e \<lparr>ReqVersion = e_api_version e, ReqEndpoint = socketName s,
                        ReqResourceName = resourceName s\<rparr>)"

section \<open>Stop\<close>

definition stop_check :: "os_env \<Rightarrow> resourceServer \<Rightarrow> osys \<Rightarrow> bool \<times> resourceServer" where
  "stop_check e s os = (shouldRemoveSocketPathLocked e s os, clearSocketOwnershipLocked s)"

definition stop_unlink :: "os_env \<Rightarrow> bool \<Rightarrow> go_string \<Rightarrow> osys \<Rightarrow> goerr option \<times> osys" where
  "stop_unlink e removePath p os =
     (if removePath then
        (case os_Remove e p os of
           RemoveError err \<Rightarrow> (Some err, os)
         | RemoveNotExist \<Rightarrow> (None, os)
         | RemoveOk os1 \<Rightarrow> (None, os1))
      else (None, os))"

definition stopAndRemoveOwnedSocketLocked ::
  "os_env \<Rightarrow> resourceServer \<Rightarrow> osys \<Rightarrow> goerr option \<times> resourceServer \<times> osys" where
  "stopAndRemoveOwnedSocketLocked e s os =
     (let (held, os1) = lockSocketPath e (socketPath s) os;
          (removePath, s1) = stop_check e s os1;
          (s2, os2) = rsc_Stop s1 os1;
          (err, os3) = stop_unlink e removePath (socketPath s) os2
      in (err, s2, unlockSocketPath held os3))"

definition stopLocked ::
  "os_env \<Rightarrow> resourceServer \<Rightarrow> osys \<Rightarrow> goerr option \<times> resourceServer \<times> osys" where
  "stopLocked e s os =
     (if rsConnector s = None \<or> rsc_GetServer s = None then (None, s, os)
      else let (err, s1, os1) = stopAndRemoveOwnedSocketLocked e s os
           in (err, rsc_DeleteServer s1, os1))"

text \<open>
  \<^verbatim>\<open>Stop\<close> sends on the unbuffered \<^verbatim>\<open>stopWatcher\<close>; \<open>watcher\<close> says whether some
  goroutine receives from it.  \<open>None\<close> is a call that never returns.
\<close>

definition Stop ::
  "bool \<Rightarrow> os_env \<Rightarrow> resourceServer \<Rightarrow> osys \<Rightarrow> (goerr option \<times> resourceServer \<times> osys) option" where
  "Stop watcher e s os =
     (let running = (rsConnector s \<noteq> None \<and> rsc_GetServer s \<noteq> None) in
      if \<not> running then Some (None, s, os)
      else if \<not> watchMode s \<and> \<not> watcher then None
      else Some (stopLocked e s os))"

section \<open>Start and Restart\<close>

definition start_reclaim :: "os_env \<Rightarrow> resourceServer \<Rightarrow> osys \<Rightarrow> resourceServer \<times> osys" where
  "start_reclaim e s os =
     (let (_, s1, os1) = cleanupLocked e (clearSocketOwnershipLocked s) os
      in (rsc_CreateServer s1, os1))"

definition start_bind ::
  "os_env \<Rightarrow> resourceServer \<Rightarrow> osys \<Rightarrow> (listener \<times> resourceServer \<times> osys) result" where
  "start_bind e s os =
     (case net_Listen e (socketPath s) os of
        Inl err \<Rightarrow> Inl err
      | Inr (sock, os1) \<Rightarrow>
          (let (s1, sock1) = recordSocketIDLocked e sock s in Inr (sock1, s1, os1)))"

definition start_serve :: "listener \<Rightarrow> resourceServer \<Rightarrow> resourceServer" where
  "start_serve sock s =
     (let s1 = (if watchMode s then rsc_RegisterService RegistrationService s else s);
          s2 = rsc_RegisterService DevicePluginService s1
      in rsc_Serve sock s2)"

text \<open>\<open>e2\<close> is what the machine answers in the stop sequence after a failed registration.\<close>

definition startLocked ::
  "os_env \<Rightarrow> os_env \<Rightarrow> resourceServer \<Rightarrow> osys \<Rightarrow> goerr option \<times> resourceServer \<times> osys" where
  "startLocked e e2 s os =
     (let (held, os1) = lockSocketPath e (socketPath s) os;
          (s2, os2) = start_reclaim e s os1
      in case start_bind e s2 os2 of
           Inl err \<Rightarrow> (Some err, s2, unlockSocketPath held os2)
         | Inr (sock, s3, os3) \<Rightarrow>
             (let os4 = unlockSocketPath held os3;
                  s4 = start_serve sock s3
              in case GetClientConn e (socketPath s4) of
                   Some err \<Rightarrow> (Some err, s4, os4)
                 | None \<Rightarrow>
                     if \<not> watchMode s4 then
                       (case register e s4 of
                          Some err \<Rightarrow>
                            (let (_, s5, os5) = stopAndRemoveOwnedSocketLocked e2 s4 os4
                             in (Some err, s5, os5))
                        | None \<Rightarrow> (None, s4, os4))
                     else (None, s4, os4)))"

text \<open>Calling a method of the nil connector panics.\<close>

definition Start ::
  "os_env \<Rightarrow> os_env \<Rightarrow> resourceServer \<Rightarrow> osys \<Rightarrow> (goerr option \<times> resourceServer \<times> osys) outcome"
where
  "Start e e2 s os =
     (if rsConnector s = None then Panics else Returns (startLocked e e2 s os))"

definition Restart ::
  "os_env \<Rightarrow> os_env \<Rightarrow> resourceServer \<Rightarrow> osys \<Rightarrow> goerr option \<times> resourceServer \<times> osys" where
  "Restart e e2 s os =
     (if rsConnector s = None \<or> rsc_GetServer s = None
      then (Some (ErrNoGrpcServer (resourceName s)), s, os)
      else
        (let (s1, os1) = rsc_Stop s os;
             s2 = rsc_DeleteServer s1
         in startLocked e e2 s2 os1))"

section \<open>Watch and NotifyRegistrationStatus\<close>

text \<open>One round of the watch loop: what \<^verbatim>\<open>stopWatcher\<close> delivers, if anything; the flag says
  whether the loop goes on.\<close>

definition watch_round ::
  "os_env \<Rightarrow> os_env \<Rightarrow> bool option \<Rightarrow> resourceServer \<Rightarrow> osys \<Rightarrow> bool \<times> resourceServer \<times> osys" where
  "watch_round e e2 msg s os =
     (case msg of
        Some stop \<Rightarrow> if stop then (False, s, os) else (True, s, os)
      | None \<Rightarrow>
          (case os_Lstat_path e (socketPath s) os of
             LstatOk \<Rightarrow> (True, s, os)
           | _ \<Rightarrow> (let (_, s1, os1) = Restart e e2 s os in (True, s1, os1))))"

fun Watch ::
  "(os_env \<times> os_env \<times> bool option) list \<Rightarrow> resourceServer \<Rightarrow> osys \<Rightarrow> bool \<times> resourceServer \<times> osys"
where
  "Watch [] s os = (True, s, os)"
| "Watch ((e, e2, msg) # rounds) s os =
     (case watch_round e e2 msg s os of
        (False, s1, os1) \<Rightarrow> (False, s1, os1)
      | (True, s1, os1) \<Rightarrow> Watch rounds s1 os1)"

definition NotifyRegistrationStatus ::
  "bool \<Rightarrow> resourceServer \<Rightarrow> osys \<Rightarrow> (resourceServer \<times> osys) outcome" where
  "NotifyRegistrationStatus pluginRegistered s os =
     (if pluginRegistered then Returns (s, os)
      else if rsc_GetServer s = None then Panics
      else Returns (rsc_Stop s os))"

section \<open>What every lifecycle operation keeps\<close>

text \<open>The listener a server serves is bound to its own socket path and does not unlink on close
  once it was identified as a Unix listener.\<close>

definition own_listener :: "resourceServer \<Rightarrow> listener option" where
  "own_listener s = (case rsc_GetServer s of None \<Rightarrow> None | Some g \<Rightarrow> serving g)"

definition listener_ok :: "resourceServer \<Rightarrow> bool" where
  "listener_ok s \<longleftrightarrow> (\<forall>l. own_listener s = Some l \<longrightarrow> lis_path l = socketPath s)"

definition same_server :: "resourceServer \<Rightarrow> resourceServer \<Rightarrow> bool" where
  "same_server s s' \<longleftrightarrow>
     socketPath s' = socketPath s \<and> watchMode s' = watchMode s \<and>
     socketName s' = socketName s \<and> resourceName s' = resourceName s \<and>
     devs s' = devs s \<and> devStore s' = devStore s \<and> deviceSpec s' = deviceSpec s \<and>
     updateResource s' = updateResource s \<and> rdmaHcaMax s' = rdmaHcaMax s \<and>
     pciDevices s' = pciDevices s \<and> useCdi s' = useCdi s \<and>
     cdiResourceName s' = cdiResourceName s \<and> deprecatedSockDir s' = deprecatedSockDir s \<and>
     activeSockDir s' = activeSockDir s"

definition other_paths :: "go_string \<Rightarrow> osys \<Rightarrow> osys \<Rightarrow> bool" where
  "other_paths p os os' \<longleftrightarrow> (\<forall>q. q \<noteq> p \<longrightarrow> paths os' q = paths os q) \<and> flocks os' = flocks os"

locale lifecycle_operation =
  fixes op :: "resourceServer \<Rightarrow> osys \<Rightarrow> goerr option \<times> resourceServer \<times> osys"
  assumes op_server: "op s os = (r, s', os') \<Longrightarrow> same_server s s'"
    and op_listener: "op s os = (r, s', os') \<Longrightarrow> listener_ok s \<Longrightarrow> listener_ok s'"
    and op_paths: "op s os = (r, s', os') \<Longrightarrow> listener_ok s \<Longrightarrow> other_paths (socketPath s) os os'"
begin

lemma op_keeps_device_list: "op s os = (r, s', os') \<Longrightarrow> device_list s' = device_list s"
  using op_server [of s os r s' os'] by (simp add: same_server_def device_list_def)

lemma op_other_path:
  "op s os = (r, s', os') \<Longrightarrow> listener_ok s \<Longrightarrow> q \<noteq> socketPath s \<Longrightarrow> paths os' q = paths os q"
  using op_paths [of s os r s' os'] by (simp add: other_paths_def)

lemma op_locks: "op s os = (r, s', os') \<Longrightarrow> listener_ok s \<Longrightarrow> flocks os' = flocks os"
  using op_paths [of s os r s' os'] by (simp add: other_paths_def)

end

lemma same_server_refl [simp]: "same_server s s"
  by (simp add: same_server_def)

lemma same_server_trans: "same_server a b \<Longrightarrow> same_server b c \<Longrightarrow> same_server a c"
  by (simp add: same_server_def)

lemma same_server_updates [simp]:
  "same_server s (clearSocketOwnershipLocked s)"
  "same_server s (rsc_CreateServer s)" "same_server s (rsc_DeleteServer s)"
  "same_server s (rsc_RegisterService sv s)" "same_server s (rsc_Serve l s)"
  "same_server s (fst (rsc_Stop s os))" "same_server s (fst (recordSocketIDLocked e l s))"
  by (auto simp: same_server_def clearSocketOwnershipLocked_def rsc_CreateServer_def
      rsc_DeleteServer_def rsc_RegisterService_def rsc_Serve_def rsc_Stop_def
      recordSocketIDLocked_def Let_def split: option.splits)

lemma GetServer_updates [simp]:
  "rsc_GetServer (clearSocketOwnershipLocked s) = rsc_GetServer s"
  "rsc_GetServer (rsc_CreateServer s) = Some \<lparr>services = [], serving = None, grpc_stopped = False\<rparr>"
  "rsc_GetServer (rsc_DeleteServer s) = None"
  "rsc_GetServer (fst (recordSocketIDLocked e l s)) = rsc_GetServer s"
  by (auto simp: rsc_GetServer_def clearSocketOwnershipLocked_def rsc_CreateServer_def
      rsc_DeleteServer_def recordSocketIDLocked_def Let_def)

lemma own_listener_updates [simp]:
  "own_listener (clearSocketOwnershipLocked s) = own_listener s"
  "own_listener (rsc_CreateServer s) = None" "own_listener (rsc_DeleteServer s) = None"
  "own_listener (fst (recordSocketIDLocked e l s)) = own_listener s"
  by (simp_all add: own_listener_def)

lemma own_listener_Register_Stop [simp]:
  "own_listener (rsc_RegisterService sv s) = own_listener s"
  "own_listener (fst (rsc_Stop s os)) = None"
  by (auto simp: own_listener_def rsc_RegisterService_def rsc_Stop_def rsc_GetServer_def
      split: option.splits)

lemma own_listener_Serve:
  "rsc_GetServer s \<noteq> None \<Longrightarrow> own_listener (rsc_Serve l s) = Some l"
  by (auto simp: own_listener_def rsc_Serve_def rsc_GetServer_def split: option.splits)

lemma GetServer_RegisterService [simp]:
  "rsc_GetServer (rsc_RegisterService sv s) = None \<longleftrightarrow> rsc_GetServer s = None"
  by (auto simp: rsc_RegisterService_def rsc_GetServer_def split: option.splits)

lemma rsc_Stop_os:
  "snd (rsc_Stop s os) = (case own_listener s of None \<Rightarrow> os | Some l \<Rightarrow> close_listener l os)"
  by (auto simp: rsc_Stop_def own_listener_def split: option.splits)

lemma other_paths_refl [simp]: "other_paths p os os"
  by (simp add: other_paths_def)

lemma other_paths_trans: "other_paths p a b \<Longrightarrow> other_paths p b c \<Longrightarrow> other_paths p a c"
  by (simp add: other_paths_def)

lemma rsc_Stop_paths:
  assumes "listener_ok s"
  shows "other_paths (socketPath s) os (snd (rsc_Stop s os))"
  using assms by (auto simp: rsc_Stop_os listener_ok_def close_listener_def other_paths_def
      split: option.splits)

lemma os_Remove_paths: "os_Remove e p os = RemoveOk os' \<Longrightarrow> other_paths p os os'"
  by (auto simp: os_Remove_def other_paths_def split: option.splits)

lemma os_Remove_result:
  "os_Remove e p os = RemoveOk os' \<Longrightarrow> paths os' p = None \<and> unix_rows os' = unix_rows os"
  by (auto simp: os_Remove_def split: option.splits)

lemma stop_unlink_paths: "stop_unlink e b p os = (r, os') \<Longrightarrow> other_paths p os os'"
  by (auto simp: stop_unlink_def os_Remove_paths split: if_splits remove_answer.splits)

lemma stop_unlink_rows: "stop_unlink e b p os = (r, os') \<Longrightarrow> unix_rows os' = unix_rows os"
  by (auto simp: stop_unlink_def os_Remove_result split: if_splits remove_answer.splits)

lemma cleanupLocked_paths:
  "cleanupLocked e s os = (r, s', os') \<Longrightarrow> other_paths (socketPath s) os os'"
  by (auto simp: cleanupLocked_def os_Remove_paths split: if_splits remove_answer.splits)

lemma cleanupLocked_server:
  "cleanupLocked e s os = (r, s', os') \<Longrightarrow> same_server s s' \<and> own_listener s' = own_listener s"
  by (auto simp: cleanupLocked_def split: if_splits remove_answer.splits)

text \<open>A path lock is released whatever happens in between.\<close>

lemma other_paths_locked:
  assumes "lockSocketPath e p os = (held, os1)" "other_paths q os1 os2"
  shows "other_paths q os (unlockSocketPath held os2)"
  using assms
  by (auto simp: lockSocketPath_def unlockSocketPath_def other_paths_def Let_def
      split: lock_answer.splits)

lemma stopAndRemove_parts:
  assumes "stopAndRemoveOwnedSocketLocked e s os = (r, s', os')"
  obtains held os1 os2 os3 where
    "lockSocketPath e (socketPath s) os = (held, os1)"
    "s' = fst (rsc_Stop (clearSocketOwnershipLocked s) os1)"
    "os2 = snd (rsc_Stop s os1)"
    "stop_unlink e (shouldRemoveSocketPathLocked e s os1) (socketPath s) os2 = (r, os3)"
    "os' = unlockSocketPath held os3"
proof -
  obtain held os1 where l: "lockSocketPath e (socketPath s) os = (held, os1)" by force
  obtain s2 os2 where st: "rsc_Stop (clearSocketOwnershipLocked s) os1 = (s2, os2)" by force
  obtain r1 os3 where u:
    "stop_unlink e (shouldRemoveSocketPathLocked e s os1) (socketPath s) os2 = (r1, os3)" by force
  have os2: "os2 = snd (rsc_Stop s os1)"
    using st rsc_Stop_os [of "clearSocketOwnershipLocked s" os1] rsc_Stop_os [of s os1] by simp
  have "r1 = r" "s2 = s'" "os' = unlockSocketPath held os3"
    using assms l st u by (simp_all add: stopAndRemoveOwnedSocketLocked_def stop_check_def)
  then show thesis using that [of held os1 os2 os3] l st u os2 by simp
qed

interpretation stop_remove_op: lifecycle_operation "stopAndRemoveOwnedSocketLocked e" for e
proof unfold_locales
  fix s os r s' os'
  assume run: "stopAndRemoveOwnedSocketLocked e s os = (r, s', os')"
  then obtain held os1 os2 os3 where p:
    "lockSocketPath e (socketPath s) os = (held, os1)"
    "s' = fst (rsc_Stop (clearSocketOwnershipLocked s) os1)" "os2 = snd (rsc_Stop s os1)"
    "stop_unlink e (shouldRemoveSocketPathLocked e s os1) (socketPath s) os2 = (r, os3)"
    "os' = unlockSocketPath held os3"
    by (rule stopAndRemove_parts)
  show "same_server s s'"
    unfolding p(2) by (rule same_server_trans [of _ "clearSocketOwnershipLocked s"]) simp_all
  show "listener_ok s'" by (simp add: listener_ok_def p(2))
  assume ok: "listener_ok s"
  have "other_paths (socketPath s) os1 os3"
    using rsc_Stop_paths [OF ok, of os1] stop_unlink_paths [OF p(4)] p(3)
    by (blast intro: other_paths_trans)
  then show "other_paths (socketPath s) os os'"
    unfolding p(5) by (rule other_paths_locked [OF p(1)])
qed

interpretation stop_op: lifecycle_operation "stopLocked e" for e
proof unfold_locales
  fix s os r s' os'
  assume run: "stopLocked e s os = (r, s', os')"
  have "(s' = s \<and> os' = os) \<or>
    (\<exists>r1 s1. stopAndRemoveOwnedSocketLocked e s os = (r1, s1, os') \<and> s' = rsc_DeleteServer s1)"
    using run by (auto simp: stopLocked_def split: if_splits prod.splits)
  then consider "s' = s" "os' = os"
    | r1 s1 where "stopAndRemoveOwnedSocketLocked e s os = (r1, s1, os')" "s' = rsc_DeleteServer s1"
    by blast
  note parts = this
  show "same_server s s'"
    using parts by cases (simp, metis stop_remove_op.op_server same_server_trans same_server_updates(3))
  show "listener_ok s'" if "listener_ok s"
    using parts that by cases (simp_all add: listener_ok_def)
  show "other_paths (socketPath s) os os'" if "listener_ok s"
    using parts that by cases (simp, metis stop_remove_op.op_paths)
qed

interpretation cleanup_op: lifecycle_operation "cleanup e" for e
proof unfold_locales
  fix s os r s' os'
  assume run: "cleanup e s os = (r, s', os')"
  then have cl: "cleanupLocked e s os = (r, s', os')" by (simp add: cleanup_def)
  show same: "same_server s s'" using cleanupLocked_server [OF cl] by simp
  show "listener_ok s'" if "listener_ok s"
    using that same cleanupLocked_server [OF cl] by (simp add: listener_ok_def same_server_def)
  show "other_paths (socketPath s) os os'" by (rule cleanupLocked_paths [OF cl])
qed

section \<open>The phases of a start\<close>

lemma start_reclaim_state:
  assumes "start_reclaim e s os = (s', os')"
  shows "same_server s s' \<and> rsc_GetServer s' = Some \<lparr>services = [], serving = None, grpc_stopped = False\<rparr>
    \<and> socketOwner s' = socketOwnerNone \<and> socketIno s' = 0
    \<and> other_paths (socketPath s) os os' \<and> unix_rows os' = unix_rows os
    \<and> (e_remove e = None \<longrightarrow> paths os' (socketPath s) = None)"
proof -
  obtain r s1 os1 where c: "cleanupLocked e (clearSocketOwnershipLocked s) os = (r, s1, os1)"
    by (cases "cleanupLocked e (clearSocketOwnershipLocked s) os") auto
  have s': "s' = rsc_CreateServer s1" "os' = os1"
    using assms c by (simp_all add: start_reclaim_def)
  have own: "shouldRemoveSocketPathLocked e (clearSocketOwnershipLocked s) os"
    by (simp add: frame_simps)
  have cl: "s1 = clearSocketOwnershipLocked s"
    using c own by (auto simp: cleanupLocked_def clearSocketOwnershipLocked_def
        split: remove_answer.splits)
  have "unix_rows os1 = unix_rows os \<and> (e_remove e = None \<longrightarrow> paths os1 (socketPath s) = None)
      \<and> other_paths (socketPath s) os os1"
    using c own
    by (auto simp: cleanupLocked_def os_Remove_def frame_simps other_paths_def
        split: remove_answer.splits option.splits)
  moreover have "same_server s s'"
    unfolding s' cl
    by (rule same_server_trans [of _ "clearSocketOwnershipLocked s"]) simp_all
  moreover have "socketOwner s' = socketOwnerNone \<and> socketIno s' = 0"
    by (simp add: s' cl rsc_CreateServer_def clearSocketOwnershipLocked_def)
  ultimately show ?thesis by (simp add: s' cl)
qed

lemma start_bind_Inr:
  assumes "start_bind e s os = Inr (sock, s', os')"
  shows "e_listen e = Inr (lis_ino sock) \<and> lis_path sock = socketPath s \<and>
    lis_unlink_on_close sock = (e_capture e = CapNotUnixListener) \<and>
    paths os (socketPath s) = None \<and>
    os' = os\<lparr>paths := (paths os)(socketPath s \<mapsto> SockNode (lis_ino sock)),
             unix_rows := unix_rows os @ [(lis_ino sock, socketPath s)]\<rparr> \<and>
    same_server s s' \<and> rsc_GetServer s' = rsc_GetServer s \<and>
    socketOwner s' = (if e_capture e = CapFstat then socketOwnerKnown else socketOwnerUnknown) \<and>
    socketIno s' = (if e_capture e = CapFstat then lis_ino sock else 0)"
proof -
  obtain ino where l: "e_listen e = Inr ino" and free: "paths os (socketPath s) = None"
    using assms by (auto simp: start_bind_def net_Listen_def split: sum.splits if_splits)
  let ?l0 = "\<lparr>lis_ino = ino, lis_path = socketPath s, lis_unlink_on_close = True\<rparr>"
  have rec: "recordSocketIDLocked e ?l0 s = (s', sock)"
    and os': "os' = os\<lparr>paths := (paths os)(socketPath s \<mapsto> SockNode ino),
               unix_rows := unix_rows os @ [(ino, socketPath s)]\<rparr>"
    using assms l free by (auto simp: start_bind_def net_Listen_def split: prod.splits)
  have s': "s' = fst (recordSocketIDLocked e ?l0 s)" using rec by simp
  have "sock = snd (recordSocketIDLocked e ?l0 s)" using rec by simp
  then have sock: "lis_ino sock = ino" "lis_path sock = socketPath s"
    "lis_unlink_on_close sock = (e_capture e = CapNotUnixListener)"
    by (auto simp: recordSocketIDLocked_def Let_def)
  have own: "socketOwner s' = (if e_capture e = CapFstat then socketOwnerKnown else socketOwnerUnknown)"
    "socketIno s' = (if e_capture e = CapFstat then ino else 0)"
    by (cases "e_capture e"; simp add: s' recordSocketIDLocked_def clearSocketOwnershipLocked_def
        Let_def)+
  show ?thesis using l free os' sock own s' by simp
qed

lemma start_serve_state:
  assumes "rsc_GetServer s = Some \<lparr>services = [], serving = None, grpc_stopped = False\<rparr>"
  shows "rsc_GetServer (start_serve sock s) =
      Some \<lparr>services = (if watchMode s then [RegistrationService] else []) @ [DevicePluginService],
            serving = Some sock, grpc_stopped = False\<rparr> \<and>
    same_server s (start_serve sock s) \<and> socketOwner (start_serve sock s) = socketOwner s \<and>
    socketIno (start_serve sock s) = socketIno s \<and> own_listener (start_serve sock s) = Some sock"
  using assms
  by (auto simp: start_serve_def rsc_RegisterService_def rsc_Serve_def rsc_GetServer_def
      same_server_def own_listener_def Let_def split: option.splits)

text \<open>The ways a start can end.\<close>

lemma startLocked_cases:
  assumes "startLocked e e2 s os = (r, s', os')"
  obtains
    (not_bound) held os1 s2 os2 err where
      "lockSocketPath e (socketPath s) os = (held, os1)" "start_reclaim e s os1 = (s2, os2)"
      "start_bind e s2 os2 = Inl err" "r = Some err" "s' = s2" "os' = unlockSocketPath held os2"
  | (bound) held os1 s2 os2 sock s3 os3 s4 os4 where
      "lockSocketPath e (socketPath s) os = (held, os1)" "start_reclaim e s os1 = (s2, os2)"
      "start_bind e s2 os2 = Inr (sock, s3, os3)" "s4 = start_serve sock s3"
      "os4 = unlockSocketPath held os3" "s' = s4" "os' = os4"
      "r = None \<longleftrightarrow> GetClientConn e (socketPath s4) = None"
      "GetClientConn e (socketPath s4) = None \<longrightarrow> watchMode s4 \<or> register e s4 = None"
  | (refused) held os1 s2 os2 sock s3 os3 s4 os4 err r5 where
      "lockSocketPath e (socketPath s) os = (held, os1)" "start_reclaim e s os1 = (s2, os2)"
      "start_bind e s2 os2 = Inr (sock, s3, os3)" "s4 = start_serve sock s3"
      "os4 = unlockSocketPath held os3" "\<not> watchMode s4" "register e s4 = Some err" "r = Some err"
      "stopAndRemoveOwnedSocketLocked e2 s4 os4 = (r5, s', os')"
proof -
  obtain held os1 where l: "lockSocketPath e (socketPath s) os = (held, os1)" by force
  obtain s2 os2 where rc: "start_reclaim e s os1 = (s2, os2)" by force
  show thesis
  proof (cases "start_bind e s2 os2")
    case (Inl err)
    then show ?thesis
      using assms by (intro not_bound [OF l rc Inl]) (auto simp: startLocked_def l rc)
  next
    case (Inr b)
    then obtain sock s3 os3 where b: "start_bind e s2 os2 = Inr (sock, s3, os3)" by (cases b) auto
    define s4 where "s4 = start_serve sock s3"
    define os4 where "os4 = unlockSocketPath held os3"
    show ?thesis
    proof (cases "GetClientConn e (socketPath s4) = None \<and> \<not> watchMode s4 \<and> register e s4 \<noteq> None")
      case True
      then obtain err where err: "register e s4 = Some err" by auto
      obtain r5 s5 os5 where st: "stopAndRemoveOwnedSocketLocked e2 s4 os4 = (r5, s5, os5)"
        by (cases "stopAndRemoveOwnedSocketLocked e2 s4 os4") auto
      have "r = Some err" "s' = s5" "os' = os5"
        using assms True err st
        by (simp_all add: startLocked_def l rc b s4_def [symmetric] os4_def [symmetric])
      then show ?thesis using refused [OF l rc b s4_def os4_def] True err st by simp
    next
      case False
      then have "s' = s4" "os' = os4"
        "r = None \<longleftrightarrow> GetClientConn e (socketPath s4) = None"
        "GetClientConn e (socketPath s4) = None \<longrightarrow> watchMode s4 \<or> register e s4 = None"
        using assms
        by (auto simp: startLocked_def l rc b s4_def [symmetric] os4_def [symmetric] Let_def
            split: option.splits if_splits)
      then show ?thesis by (rule bound [OF l rc b s4_def os4_def])
    qed
  qed
qed

text \<open>The state once the socket is bound and served.\<close>

lemma start_bound_state:
  assumes l: "lockSocketPath e (socketPath s) os = (held, os1)"
    and rc: "start_reclaim e s os1 = (s2, os2)"
    and b: "start_bind e s2 os2 = Inr (sock, s3, os3)"
    and s4: "s4 = start_serve sock s3" and os4: "os4 = unlockSocketPath held os3"
  shows "same_server s s4 \<and> own_listener s4 = Some sock \<and> lis_path sock = socketPath s \<and>
    lis_unlink_on_close sock = (e_capture e = CapNotUnixListener) \<and>
    e_listen e = Inr (lis_ino sock) \<and> other_paths (socketPath s) os os4 \<and>
    paths os4 (socketPath s) = Some (SockNode (lis_ino sock)) \<and>
    unix_rows os4 = unix_rows os @ [(lis_ino sock, socketPath s)] \<and>
    socketOwner s4 = (if e_capture e = CapFstat then socketOwnerKnown else socketOwnerUnknown) \<and>
    socketIno s4 = (if e_capture e = CapFstat then lis_ino sock else 0) \<and>
    rsc_GetServer s4 =
      Some \<lparr>services = (if watchMode s then [RegistrationService] else []) @ [DevicePluginService],
            serving = Some sock, grpc_stopped = False\<rparr>"
proof -
  note R = start_reclaim_state [OF rc]
  note B = start_bind_Inr [OF b]
  have sp: "socketPath s2 = socketPath s" "watchMode s3 = watchMode s"
    using R B by (simp_all add: same_server_def)
  have S: "rsc_GetServer s3 = Some \<lparr>services = [], serving = None, grpc_stopped = False\<rparr>"
    using R B by simp
  note V = start_serve_state [OF S, of sock]
  have "same_server s s4"
    using R B V unfolding s4 by (blast intro: same_server_trans)
  moreover have "other_paths (socketPath s) os1 os3"
    using R B sp by (auto simp: other_paths_def)
  then have "other_paths (socketPath s) os os4"
    unfolding os4 by (rule other_paths_locked [OF l])
  ultimately show ?thesis
    using R B V sp lock_frame [OF l] by (simp add: s4 os4)
qed

interpretation start_op: lifecycle_operation "startLocked e e2" for e e2
proof unfold_locales
  fix s os r s' os'
  assume run: "startLocked e e2 s os = (r, s', os')"
  have "same_server s s' \<and> listener_ok s' \<and> other_paths (socketPath s) os os'"
    using run
  proof (cases rule: startLocked_cases)
    case (not_bound held os1 s2 os2 err)
    note R = start_reclaim_state [OF not_bound(2)]
    then show ?thesis
      using other_paths_locked [OF not_bound(1)] not_bound
      by (simp add: listener_ok_def own_listener_def)
  next
    case (bound held os1 s2 os2 sock s3 os3 s4 os4)
    then show ?thesis
      using start_bound_state [OF bound(1-5)] by (simp add: listener_ok_def same_server_def)
  next
    case (refused held os1 s2 os2 sock s3 os3 s4 os4 err r5)
    note B = start_bound_state [OF refused(1-5)]
    have ok: "listener_ok s4" "socketPath s4 = socketPath s"
      using B by (simp_all add: listener_ok_def same_server_def)
    then show ?thesis
      using B refused(9) stop_remove_op.op_server stop_remove_op.op_listener
        stop_remove_op.op_paths [OF refused(9)]
      by (metis other_paths_trans same_server_trans)
  qed
  then show "same_server s s'" "listener_ok s'" "other_paths (socketPath s) os os'" by auto
qed

interpretation restart_op: lifecycle_operation "Restart e e2" for e e2
proof unfold_locales
  fix s os r s' os'
  assume run: "Restart e e2 s os = (r, s', os')"
  let ?s1 = "rsc_DeleteServer (fst (rsc_Stop s os))" and ?os1 = "snd (rsc_Stop s os)"
  have parts: "s' = s \<and> os' = os \<or> startLocked e e2 ?s1 ?os1 = (r, s', os')"
    using run by (auto simp: Restart_def split: if_splits prod.splits)
  have same: "same_server s ?s1"
    by (rule same_server_trans [of _ "fst (rsc_Stop s os)"]) simp_all
  show "same_server s s'"
    using parts start_op.op_server same by (metis same_server_refl same_server_trans)
  have ok1: "listener_ok ?s1" by (simp add: listener_ok_def)
  show "listener_ok s'" if "listener_ok s"
    using parts start_op.op_listener ok1 that by metis
  show "other_paths (socketPath s) os os'" if ok: "listener_ok s"
    using parts
  proof
    assume st: "startLocked e e2 ?s1 ?os1 = (r, s', os')"
    have "socketPath ?s1 = socketPath s" using same by (simp add: same_server_def)
    then show ?thesis
      using start_op.op_paths [OF st ok1] rsc_Stop_paths [OF ok, of os]
      by (metis other_paths_trans)
  qed simp
qed

text \<open>When the old socket file can be removed and a socket created, the bind succeeds.\<close>

lemma start_binds:
  assumes "start_reclaim e s os = (s', os')" "e_listen e = Inr ino"
    and "paths os (socketPath s) = None \<or> e_remove e = None"
  shows "start_bind e s' os' \<noteq> Inl err"
proof -
  have sp: "socketPath s' = socketPath s"
    using start_reclaim_state [OF assms(1)] by (simp add: same_server_def)
  have "paths os (socketPath s) = None \<Longrightarrow> paths os' (socketPath s) = None"
    using assms(1) by (auto simp: start_reclaim_def cleanupLocked_def os_Remove_def frame_simps)
  then have "paths os' (socketPath s) = None"
    using assms(3) start_reclaim_state [OF assms(1)] by auto
  then show ?thesis
    using assms(2) sp by (simp add: start_bind_def net_Listen_def split: prod.splits)
qed

text \<open>A machine and a kubelet that answer let a start succeed on a path that is free or can be
  reclaimed.\<close>

lemma startLocked_good:
  assumes "paths os (socketPath s) = None \<or> e_remove e = None" "e_listen e = Inr ino"
    and "e_NewClient e = (\<lambda>t. None)" "e_Register e = (\<lambda>r. None)"
    and "startLocked e e2 s os = (r, s', os')"
  shows "r = None"
  using assms(5)
proof (cases rule: startLocked_cases)
  case (not_bound held os1 s2 os2 err)
  then show ?thesis
    using start_binds [OF not_bound(2) assms(2)] assms(1) lock_frame [OF not_bound(1)] by simp
next
  case (bound held os1 s2 os2 sock s3 os3 s4 os4)
  then show ?thesis using assms(3) by (simp add: GetClientConn_def)
next
  case (refused held os1 s2 os2 sock s3 os3 s4 os4 err r5)
  then show ?thesis using assms(3,4) by (simp add: register_def GetClientConn_def)
qed

section \<open>Properties\<close>

lemma startLocked_None:
  assumes "startLocked e e2 s os = (None, s', os')"
  obtains held os1 s2 os2 sock s3 os3 where
    "lockSocketPath e (socketPath s) os = (held, os1)" "start_reclaim e s os1 = (s2, os2)"
    "start_bind e s2 os2 = Inr (sock, s3, os3)" "s' = start_serve sock s3"
    "os' = unlockSocketPath held os3"
  using assms by (cases rule: startLocked_cases) auto

lemma startLocked_None_state:
  assumes "startLocked e e2 s os = (None, s', os')"
  shows "\<exists>l. own_listener s' = Some l \<and> e_listen e = Inr (lis_ino l) \<and> lis_path l = socketPath s \<and>
    lis_unlink_on_close l = (e_capture e = CapNotUnixListener) \<and> same_server s s' \<and>
    rsc_GetServer s' \<noteq> None \<and>
    paths os' (socketPath s) = Some (SockNode (lis_ino l)) \<and>
    unix_rows os' = unix_rows os @ [(lis_ino l, socketPath s)] \<and> other_paths (socketPath s) os os' \<and>
    socketOwner s' = (if e_capture e = CapFstat then socketOwnerKnown else socketOwnerUnknown) \<and>
    socketIno s' = (if e_capture e = CapFstat then lis_ino l else 0)"
proof -
  obtain held os1 s2 os2 sock s3 os3 where p:
    "lockSocketPath e (socketPath s) os = (held, os1)" "start_reclaim e s os1 = (s2, os2)"
    "start_bind e s2 os2 = Inr (sock, s3, os3)" "s' = start_serve sock s3"
    "os' = unlockSocketPath held os3"
    using assms by (rule startLocked_None)
  show ?thesis using start_bound_state [OF p] by (intro exI [of _ sock]) simp
qed

lemma other_paths_upd: "other_paths p os os' \<Longrightarrow> (paths os')(p := None) = (paths os)(p := None)"
  by (auto simp: other_paths_def fun_eq_iff)

lemma sample_startLocked:
  "paths os (socketPath s) = None \<Longrightarrow>
     \<exists>s' os'. startLocked (sample_env i) e2 s os = (None, s', os')"
  using startLocked_good [of os s "sample_env i" i e2]
  by (cases "startLocked (sample_env i) e2 s os") (auto simp: sample_env_def)

lemma sample_start:
  "\<exists>s' os'. Start (sample_env 42) (sample_env 42) (sample_server wm False) sample_os = Returns (None, s', os')"
  using sample_startLocked [of sample_os "sample_server wm False" 42 "sample_env 42"]
  by (simp add: Start_def sample_server_def newResourceServer_def sample_config_def Let_def)



text \<open>What a stop does once the ownership check has been made.\<close>

lemma Stop_parts:
  assumes run: "rsc_GetServer s \<noteq> None"
    and unl: "\<forall>l. own_listener s = Some l \<longrightarrow> \<not> lis_unlink_on_close l"
  shows "\<exists>err s' os'. Stop True e s os = Some (err, s', os') \<and> rsc_GetServer s' = None \<and>
    same_server s s' \<and> socketOwner s' = socketOwnerNone \<and>
    unix_rows os' = (case own_listener s of None \<Rightarrow> unix_rows os
       | Some l \<Rightarrow> filter (\<lambda>r. fst r \<noteq> lis_ino l) (unix_rows os)) \<and>
    (err, paths os') =
      (if \<not> shouldRemoveSocketPathLocked e s os then (None, paths os)
       else if paths os (socketPath s) = None then (None, paths os)
       else case e_remove e of
         Some x \<Rightarrow> (Some x, paths os) | None \<Rightarrow> (None, (paths os)(socketPath s := None)))"
proof -
  obtain err s1 os' where st: "stopAndRemoveOwnedSocketLocked e s os = (err, s1, os')"
    by (cases "stopAndRemoveOwnedSocketLocked e s os") auto
  obtain held os1 os2 os3 where p:
    "lockSocketPath e (socketPath s) os = (held, os1)"
    "s1 = fst (rsc_Stop (clearSocketOwnershipLocked s) os1)" "os2 = snd (rsc_Stop s os1)"
    "stop_unlink e (shouldRemoveSocketPathLocked e s os1) (socketPath s) os2 = (err, os3)"
    "os' = unlockSocketPath held os3"
    using st by (rule stopAndRemove_parts)
  note L = lock_frame [OF p(1)]
  have same: "shouldRemoveSocketPathLocked e s os1 = shouldRemoveSocketPathLocked e s os"
    by (rule shouldRemove_cong [OF L])
  have os2: "paths os2 = paths os" "unix_rows os2 = (case own_listener s of None \<Rightarrow> unix_rows os
       | Some l \<Rightarrow> filter (\<lambda>r. fst r \<noteq> lis_ino l) (unix_rows os))"
    using unl L unfolding p(3) rsc_Stop_os
    by (auto simp: close_listener_def split: option.splits)
  have con: "rsConnector s \<noteq> None" using run by (auto simp: rsc_GetServer_def split: option.splits)
  have run2: "Stop True e s os = Some (err, rsc_DeleteServer s1, os')"
    using run con st by (auto simp: Stop_def stopLocked_def)
  have s1: "same_server s (rsc_DeleteServer s1)" "socketOwner (rsc_DeleteServer s1) = socketOwnerNone"
    using stop_remove_op.op_server [OF st] unfolding p(2)
    by (auto simp: same_server_def rsc_DeleteServer_def rsc_Stop_def frame_simps split: option.splits)
  have "unix_rows os3 = unix_rows os2 \<and> (err, paths os3) =
      (if \<not> shouldRemoveSocketPathLocked e s os then (None, paths os)
       else if paths os (socketPath s) = None then (None, paths os)
       else case e_remove e of
         Some x \<Rightarrow> (Some x, paths os) | None \<Rightarrow> (None, (paths os)(socketPath s := None)))"
    using p(4) os2(1) unfolding same
    by (auto simp: stop_unlink_def os_Remove_def split: if_splits option.splits)
  then show ?thesis using run2 s1 os2(2) unfolding p(5) by auto
qed


lemma sample_socket_path:
  "socketPath (sample_server False False) = ''/var/lib/kubelet/device-plugins/hca_a.sock''"
  "go_Fields (socketPath (sample_server False False)) = [socketPath (sample_server False False)]"
  by code_simp+


text \<open>A server whose path was taken over stops without touching the path: when another
  socket is bound there, or when its own could never be identified, \<^verbatim>\<open>Stop\<close> succeeds, every
  path still refers to what it referred to, and every socket but its own lives on.\<close>

lemma superseded_stop_keeps_path:
  assumes "rsc_GetServer s \<noteq> None" "\<forall>l. own_listener s = Some l \<longrightarrow> \<not> lis_unlink_on_close l"
    and "socketOwner s = socketOwnerUnknown \<or> socketOwner s = socketOwnerKnown \<and>
      (other, socketPath s) \<in> set (unix_rows os) \<and> other \<noteq> socketIno s"
    and "rows_clean (unix_rows os)" "proc_format (e_proc_net_unix e)"
  shows "\<exists>s' os'. Stop True e s os = Some (None, s', os') \<and> paths os' = paths os \<and>
    rsc_GetServer s' = None \<and>
    {r \<in> set (unix_rows os). \<forall>l. own_listener s = Some l \<longrightarrow> fst r \<noteq> lis_ino l} =
      set (unix_rows os')"
proof -
  have keep: "\<not> shouldRemoveSocketPathLocked e s os"
    using assms(3)
  proof
    assume "socketOwner s = socketOwnerKnown \<and> (other, socketPath s) \<in> set (unix_rows os) \<and>
      other \<noteq> socketIno s"
    then show ?thesis
      using shouldRemove_known_iff [OF assms(5,4)] set_inos_of [of other "socketPath s" "unix_rows os"]
      by auto
  qed simp
  then show ?thesis
    using Stop_parts [OF assms(1,2), of e os] by (auto split: option.splits)
qed

text \<open>C25: After a start whose registration the kubelet refused, the server object still counts as
  running but owns nothing, so the next \<^verbatim>\<open>Stop\<close> removes its path without any check: even
  when another instance has meanwhile bound and is serving that path.\<close>

theorem stop_after_refused_start_removes_any_socket:
  assumes "Start e e2 s os = Returns (Some err, s1, os1)" "\<not> watchMode s"
    and "e_remove e = None" "e_listen e = Inr ino" "e_NewClient e (''unix://'' @ socketPath s) = None"
    and "e_capture e \<noteq> CapNotUnixListener" "e_remove e3 = None"
  shows "\<exists>s2 os2. Stop True e3 s1 foreign = Some (None, s2, os2) \<and> paths os2 (socketPath s) = None"
proof -
  have st: "startLocked e e2 s os = (Some err, s1, os1)"
    using assms(1) by (auto simp: Start_def split: if_splits)
  then show ?thesis
  proof (cases rule: startLocked_cases)
    case (not_bound held os0 s2 os2 err')
    then show ?thesis using start_binds [OF not_bound(2) assms(4)] assms(3) by simp
  next
    case (bound held os0 s2 os2 sock s3 os3 s4 os4)
    note B = start_bound_state [OF bound(1-5)]
    then have w: "\<not> watchMode s4" "socketPath s4 = socketPath s"
      using assms(2) by (simp_all add: same_server_def)
    then have "GetClientConn e (socketPath s4) = None"
      using assms(5) by (simp add: GetClientConn_def)
    then show ?thesis using bound(8) by simp
  next
    case (refused held os0 s2 os2 sock s3 os3 s4 os4 err' r5)
    note B = start_bound_state [OF refused(1-5)]
    obtain osa where s1: "s1 = fst (rsc_Stop (clearSocketOwnershipLocked s4) osa)"
      using refused(9) by (rule stopAndRemove_parts)
    have S1: "rsc_GetServer s1 \<noteq> None" "own_listener s1 = None" "socketOwner s1 = socketOwnerNone"
      "socketPath s1 = socketPath s"
      using B unfolding s1
      by (auto simp: rsc_Stop_def rsc_GetServer_def own_listener_def frame_simps same_server_def
          split: option.splits)
    then show ?thesis
      using Stop_parts [of s1 e3 foreign] assms(7) by (auto split: option.splits if_splits)
  qed
qed

lemma stop_after_refused_start_removes_any_socket_witness:
  "\<exists>s1 os1 s2 os2. Start ((sample_env 42)\<lparr>e_Register := (\<lambda>r. Some (ErrExt ''refused''))\<rparr>) (sample_env 0)
       (sample_server False False) sample_os = Returns (Some (ErrExt ''refused''), s1, os1) \<and>
     Stop True (sample_env 0) s1
       \<lparr>paths = [socketPath (sample_server False False) \<mapsto> SockNode 77],
        unix_rows = [(77, socketPath (sample_server False False))], flocks = []\<rparr> = Some (None, s2, os2) \<and>
     paths os2 (socketPath (sample_server False False)) = None"
proof -
  let ?e = "(sample_env 42)\<lparr>e_Register := (\<lambda>r. Some (ErrExt ''refused''))\<rparr>"
  let ?s = "sample_server False False"
  have conn: "rsConnector ?s \<noteq> None" "\<not> watchMode ?s"
    by (simp_all add: sample_server_def newResourceServer_def sample_config_def Let_def)
  obtain r s1 os1 where st: "startLocked ?e (sample_env 0) ?s sample_os = (r, s1, os1)"
    by (cases "startLocked ?e (sample_env 0) ?s sample_os") auto
  have reg: "register ?e t = Some (ErrExt ''refused'')" for t
    by (simp add: register_def GetClientConn_def)
  have "r = Some (ErrExt ''refused'')"
    using st
  proof (cases rule: startLocked_cases)
    case (not_bound held os1 s2 os2 err)
    then show ?thesis using start_binds [OF not_bound(2)] by simp
  next
    case (bound held os1 s2 os2 sock s3 os3 s4 os4)
    have "watchMode s4 = watchMode ?s"
      using start_bound_state [OF bound(1-5)] by (simp add: same_server_def)
    then show ?thesis using bound(9) conn by (simp add: GetClientConn_def reg)
  next
    case (refused held os1 s2 os2 sock s3 os3 s4 os4 err r5)
    then show ?thesis by (simp add: reg)
  qed
  then have "Start ?e (sample_env 0) ?s sample_os = Returns (Some (ErrExt ''refused''), s1, os1)"
    using st conn by (simp add: Start_def)
  then show ?thesis
    using stop_after_refused_start_removes_any_socket [of ?e "sample_env 0" ?s sample_os
        "ErrExt ''refused''" s1 os1 42 "sample_env 0"
        "\<lparr>paths = [socketPath ?s \<mapsto> SockNode 77], unix_rows = [(77, socketPath ?s)], flocks = []\<rparr>"]
      conn by auto
qed

text \<open>A call of a lifecycle method, with what the machine answers during it.\<close>

datatype lifecycle_call =
  CallStart os_env os_env | CallStop os_env | CallRestart os_env os_env | CallCleanup os_env

fun lifecycle_apply :: "lifecycle_call \<Rightarrow> resourceServer \<times> osys \<Rightarrow> resourceServer \<times> osys" where
  "lifecycle_apply (CallStart e e2) (s, os) = snd (startLocked e e2 s os)"
| "lifecycle_apply (CallStop e) (s, os) = snd (stopLocked e s os)"
| "lifecycle_apply (CallRestart e e2) (s, os) = snd (Restart e e2 s os)"
| "lifecycle_apply (CallCleanup e) (s, os) = snd (cleanup e s os)"

definition call_frame :: "resourceServer \<times> osys \<Rightarrow> resourceServer \<times> osys \<Rightarrow> bool" where
  "call_frame a b \<longleftrightarrow> same_server (fst a) (fst b) \<and> listener_ok (fst b) \<and>
     other_paths (socketPath (fst a)) (snd a) (snd b)"

lemma lifecycle_apply_frame:
  assumes "listener_ok (fst a)"
  shows "call_frame a (lifecycle_apply c a)"
proof -
  obtain s os where a: "a = (s, os)" by (cases a)
  have op: "call_frame (s, os) (snd (f s os))" if "lifecycle_operation f" for f
  proof -
    obtain r s' os' where f: "f s os = (r, s', os')" by (cases "f s os") auto
    show ?thesis
      using lifecycle_operation.op_server [OF that f] lifecycle_operation.op_listener [OF that f]
        lifecycle_operation.op_paths [OF that f] assms by (simp add: call_frame_def f a)
  qed
  show ?thesis
    using op start_op.lifecycle_operation_axioms stop_op.lifecycle_operation_axioms
      restart_op.lifecycle_operation_axioms cleanup_op.lifecycle_operation_axioms
    by (cases c) (simp_all add: a)
qed

lemma lifecycle_fold_frame:
  "listener_ok (fst a) \<Longrightarrow> call_frame a (fold lifecycle_apply cs a)"
proof (induction cs arbitrary: a)
  case Nil
  then show ?case by (simp add: call_frame_def other_paths_def)
next
  case (Cons c cs)
  have one: "call_frame a (lifecycle_apply c a)" by (rule lifecycle_apply_frame [OF Cons.prems])
  then have "call_frame (lifecycle_apply c a) (fold lifecycle_apply cs (lifecycle_apply c a))"
    by (intro Cons.IH) (simp add: call_frame_def)
  then show ?case
    using one by (auto simp: call_frame_def intro: same_server_trans)
      (auto simp: same_server_def other_paths_def)
qed

text \<open>C24: A resource server only ever acts on its own path: after any sequence of starts,
  stops, restarts and clean-ups, whatever failed on the way, every other path refers to what it
  referred to, no directory lock is left behind, and the server's name, mode and devices are
  what they were.\<close>

theorem lifecycle_touches_own_path_only:
  assumes "own_listener s = None" "fold lifecycle_apply calls (s, os) = (s', os')" "q \<noteq> socketPath s"
  shows "paths os' q = paths os q \<and> flocks os' = flocks os \<and> socketPath s' = socketPath s \<and>
    resourceName s' = resourceName s \<and> watchMode s' = watchMode s \<and> device_list s' = device_list s"
proof -
  have "listener_ok (fst (s, os))" using assms(1) by (simp add: listener_ok_def)
  then have "call_frame (s, os) (s', os')" using lifecycle_fold_frame [of "(s, os)" calls] assms(2) by simp
  then show ?thesis
    using assms(3) by (simp add: call_frame_def other_paths_def same_server_def device_list_def)
qed

lemma lifecycle_touches_own_path_only_witness:
  "\<exists>s' os'. fold lifecycle_apply [CallStart (sample_env 42) (sample_env 0), CallRestart (sample_env 43)
       (sample_env 0), CallStop (sample_env 0)] (sample_server False False, sample_os) = (s', os') \<and>
     flocks os' = []"
proof -
  let ?calls = "[CallStart (sample_env 42) (sample_env 0), CallRestart (sample_env 43) (sample_env 0),
    CallStop (sample_env 0)]"
  obtain s' os' where f: "fold lifecycle_apply ?calls (sample_server False False, sample_os) = (s', os')"
    by (cases "fold lifecycle_apply ?calls (sample_server False False, sample_os)")
  have "own_listener (sample_server False False) = None"
    by (simp add: sample_server_def newResourceServer_def sample_config_def Let_def own_listener_def
        rsc_GetServer_def)
  then show ?thesis
    using lifecycle_touches_own_path_only [OF _ f, of "[]"] sample_socket_path(1) f by simp
qed

end
