(* ===== verification/SocketRace.thy ===== *)
theory SocketRace
  imports Lifecycle
begin

text \<open>
  Several plugin instances (processes) that start and stop on the same socket path, for
  example the outgoing and the replacement pod of a rolling update.  Every instance runs
  \<^verbatim>\<open>startLocked\<close> and \<^verbatim>\<open>stopAndRemoveOwnedSocketLocked\<close> one statement group at a
  time, on its own server state and on the shared machine; the scheduler, the kubelet
  (which may wipe the directory at any time) and crashes are free.

  \<open>istep\<close> is one step of one instance; its label says what it does to the path lock and
  which sockfs inode it creates.  \<open>race_step\<close> interleaves the instances: the lock is
  granted when nobody holds it, an inode is never used twice.  Taking the lock may fail, and
  then the code goes on without it; \<open>degraded\<close> records that some instance has done so.  The
  exclusion and what rests on it hold in the runs that are not degraded, and the last theorem
  shows that they do not in the others.  \<^verbatim>\<open>net.Listen("unix", ..)\<close> returns a
  \<^verbatim>\<open>*net.UnixListener\<close>, as Go documents.
\<close>

section \<open>One instance\<close>

datatype pc =
    Quiet | Off
  | StWait | StIn | StReclaimed | StBound listener | StFail | StServe listener
  | SpWait | SpIn | SpChecked bool socket_owner | SpStopped bool socket_owner | SpUnlock

definition crit :: "pc \<Rightarrow> bool" where
  "crit k \<longleftrightarrow>
     (case k of
        StIn \<Rightarrow> True | StReclaimed \<Rightarrow> True | StBound _ \<Rightarrow> True | StFail \<Rightarrow> True
      | SpIn \<Rightarrow> True | SpChecked _ _ \<Rightarrow> True | SpStopped _ _ \<Rightarrow> True | SpUnlock \<Rightarrow> True
      | _ \<Rightarrow> False)"

datatype lock_action = NoLock | Acquire | Release | Fallback

definition kill_listener :: "listener option \<Rightarrow> osys \<Rightarrow> osys" where
  "kill_listener l os =
     (case l of
        None \<Rightarrow> os
      | Some x \<Rightarrow> os\<lparr>unix_rows := filter (\<lambda>r. fst r \<noteq> lis_ino x) (unix_rows os)\<rparr>)"

text \<open>The listener an instance has open: the one being set up, or the one it serves.\<close>

definition listener_of :: "resourceServer \<Rightarrow> pc \<Rightarrow> listener option" where
  "listener_of s k = (case k of StBound l \<Rightarrow> Some l | StServe l \<Rightarrow> Some l | _ \<Rightarrow> own_listener s)"

type_synonym inst = "resourceServer \<times> pc \<times> osys"

inductive istep :: "inst \<Rightarrow> lock_action \<Rightarrow> 64 word option \<Rightarrow> inst \<Rightarrow> bool" where
  call_start: "rsc_GetServer s = None \<Longrightarrow>
     istep (s, Quiet, os) NoLock None (s, StWait, os)"
| call_restart: "rsc_GetServer s \<noteq> None \<Longrightarrow> rsc_Stop s os = (s1, os1) \<Longrightarrow>
     istep (s, Quiet, os) NoLock None (rsc_DeleteServer s1, StWait, os1)"
| lock_start: "istep (s, StWait, os) Acquire None (s, StIn, os)"
| unlocked_start: "istep (s, StWait, os) Fallback None (s, StIn, os)"
| reclaim: "start_reclaim e s os = (s1, os1) \<Longrightarrow>
     istep (s, StIn, os) NoLock None (s1, StReclaimed, os1)"
| bind_ok: "start_bind e s os = Inr (sock, s1, os1) \<Longrightarrow> e_capture e \<noteq> CapNotUnixListener \<Longrightarrow>
     istep (s, StReclaimed, os) NoLock (Some (lis_ino sock)) (s1, StBound sock, os1)"
| bind_fail: "start_bind e s os = Inl err \<Longrightarrow>
     istep (s, StReclaimed, os) NoLock None (s, StFail, os)"
| unlock_bound: "istep (s, StBound sock, os) Release None (s, StServe sock, os)"
| unlock_failed: "istep (s, StFail, os) Release None (s, Quiet, os)"
| serve: "istep (s, StServe sock, os) NoLock None (start_serve sock s, Quiet, os)"
| call_stop: "rsc_GetServer s \<noteq> None \<Longrightarrow>
     istep (s, Quiet, os) NoLock None (s, SpWait, os)"
| lock_stop: "istep (s, SpWait, os) Acquire None (s, SpIn, os)"
| unlocked_stop: "istep (s, SpWait, os) Fallback None (s, SpIn, os)"
| check: "proc_format (e_proc_net_unix e) \<Longrightarrow> stop_check e s os = (rm, s1) \<Longrightarrow>
     istep (s, SpIn, os) NoLock None (s1, SpChecked rm (socketOwner s), os)"
| grpc: "rsc_Stop s os = (s1, os1) \<Longrightarrow>
     istep (s, SpChecked rm own, os) NoLock None (s1, SpStopped rm own, os1)"
| unlink: "stop_unlink e rm (socketPath s) os = (err, os1) \<Longrightarrow>
     istep (s, SpStopped rm own, os) NoLock None (s, SpUnlock, os1)"
| unlock_stop: "s1 = s \<or> s1 = rsc_DeleteServer s \<Longrightarrow>
     istep (s, SpUnlock, os) Release None (s1, Quiet, os)"
| notify_failed: "k \<noteq> Off \<Longrightarrow> own_listener s \<noteq> None \<Longrightarrow> rsc_Stop s os = (s1, os1) \<Longrightarrow>
     istep (s, k, os) NoLock None (s1, k, os1)"
| crash_out: "k \<noteq> Off \<Longrightarrow> \<not> crit k \<Longrightarrow>
     istep (s, k, os) NoLock None (rsc_DeleteServer s, Off, kill_listener (listener_of s k) os)"
| crash_in: "crit k \<Longrightarrow>
     istep (s, k, os) Release None (rsc_DeleteServer s, Off, kill_listener (listener_of s k) os)"

section \<open>The instances together\<close>

record race =
  inst_srv :: "nat \<Rightarrow> resourceServer"
  inst_pc :: "nat \<Rightarrow> pc"
  mach :: osys
  holder :: "nat option"
  used :: "64 word set"
  degraded :: bool

definition lock_after :: "lock_action \<Rightarrow> nat \<Rightarrow> nat option \<Rightarrow> nat option" where
  "lock_after act i h =
     (case act of
        NoLock \<Rightarrow> h | Fallback \<Rightarrow> h | Acquire \<Rightarrow> Some i
      | Release \<Rightarrow> if h = Some i then None else h)"

definition race_update ::
  "nat \<Rightarrow> inst \<Rightarrow> lock_action \<Rightarrow> 64 word option \<Rightarrow> race \<Rightarrow> race" where
  "race_update i x act fresh c =
     c\<lparr>inst_srv := (inst_srv c)(i := fst x), inst_pc := (inst_pc c)(i := fst (snd x)),
       mach := snd (snd x), holder := lock_after act i (holder c),
       used := used c \<union> set_option fresh, degraded := degraded c \<or> act = Fallback\<rparr>"

inductive race_step :: "go_string \<Rightarrow> race \<Rightarrow> race \<Rightarrow> bool" for p where
  instance_step: "istep (inst_srv c i, inst_pc c i, mach c) act fresh x \<Longrightarrow>
     (act = Acquire \<Longrightarrow> holder c = None) \<Longrightarrow>
     (\<And>k. fresh = Some k \<Longrightarrow> k \<notin> used c) \<Longrightarrow>
     race_step p c (race_update i x act fresh c)"
| wipe: "race_step p c (c\<lparr>mach := (mach c)\<lparr>paths := (paths (mach c))(p := None)\<rparr>\<rparr>)"

definition race_init :: "go_string \<Rightarrow> race \<Rightarrow> bool" where
  "race_init p c \<longleftrightarrow>
     go_Fields p = [p] \<and> holder c = None \<and> \<not> degraded c \<and> rows_clean (unix_rows (mach c)) \<and>
     fst ` set (unix_rows (mach c)) \<subseteq> used c \<and>
     (\<forall>i. inst_pc c i = Quiet \<and> socketPath (inst_srv c i) = p \<and>
        socketOwner (inst_srv c i) = socketOwnerNone \<and> rsConnector (inst_srv c i) = Some None)"

inductive race_reach :: "go_string \<Rightarrow> race \<Rightarrow> bool" for p where
  init: "race_init p c \<Longrightarrow> race_reach p c"
| step: "race_reach p c \<Longrightarrow> race_step p c c' \<Longrightarrow> race_reach p c'"

section \<open>The invariant of one instance\<close>

definition own_ino :: "resourceServer \<Rightarrow> pc \<Rightarrow> 64 word \<Rightarrow> bool" where
  "own_ino s k ino \<longleftrightarrow> (\<exists>l. listener_of s k = Some l \<and> lis_ino l = ino)"

definition setting_up :: "pc \<Rightarrow> bool" where
  "setting_up k \<longleftrightarrow>
     (case k of StReclaimed \<Rightarrow> True | StFail \<Rightarrow> True | StBound _ \<Rightarrow> True | StServe _ \<Rightarrow> True
      | _ \<Rightarrow> False)"

definition stopping :: "pc \<Rightarrow> bool" where
  "stopping k \<longleftrightarrow>
     (case k of SpChecked _ _ \<Rightarrow> True | SpStopped _ _ \<Rightarrow> True | SpUnlock \<Rightarrow> True | _ \<Rightarrow> False)"

definition fresh_server :: "resourceServer \<Rightarrow> bool" where
  "fresh_server s \<longleftrightarrow>
     rsc_GetServer s = Some \<lparr>services = [], serving = None, grpc_stopped = False\<rparr>"

definition inst_inv ::
  "go_string \<Rightarrow> resourceServer \<Rightarrow> pc \<Rightarrow> unix_row list \<Rightarrow> 64 word set \<Rightarrow> bool" where
  "inst_inv p s k rows us \<longleftrightarrow>
     socketPath s = p \<and>
     (\<forall>l. listener_of s k = Some l \<longrightarrow> \<not> lis_unlink_on_close l) \<and>
     (setting_up k \<longrightarrow> fresh_server s) \<and>
     (stopping k \<longrightarrow> socketOwner s = socketOwnerNone) \<and>
     (socketOwner s = socketOwnerKnown \<longrightarrow>
        socketIno s \<in> us \<and>
        (\<forall>q. (socketIno s, q) \<in> set rows \<longrightarrow> own_ino s k (socketIno s))) \<and>
     (\<forall>own. k = SpChecked True own \<and> own \<noteq> socketOwnerNone \<longrightarrow>
        (\<forall>i. (i, p) \<in> set rows \<longrightarrow> own_ino s k i)) \<and>
     (\<forall>own. k = SpStopped True own \<and> own \<noteq> socketOwnerNone \<longrightarrow> (\<forall>i. (i, p) \<notin> set rows))"

lemma fresh_own_listener: "fresh_server s \<Longrightarrow> own_listener s = None"
  by (simp add: fresh_server_def own_listener_def)

lemma inst_inv_shrink:
  assumes inv: "inst_inv p s k rows us" and sub: "set rows' \<subseteq> set rows" "us \<subseteq> us'"
  shows "inst_inv p s k rows' us'"
proof -
  have "r \<in> set rows" if "r \<in> set rows'" for r using that sub by blast
  moreover have "i \<in> us'" if "i \<in> us" for i using that sub by blast
  ultimately show ?thesis
    using inv unfolding inst_inv_def by (simp; blast)
qed

lemma inst_inv_foreign_bind:
  assumes "inst_inv p s k rows us" "\<not> crit k" "ino \<notin> us"
  shows "inst_inv p s k (rows @ [(ino, p)]) (insert ino us)"
  using assms unfolding inst_inv_def by (auto simp: crit_def)

text \<open>What a step does to the lock and to the rows.\<close>

lemma rsc_Stop_rows:
  "set (unix_rows (snd (rsc_Stop s os))) =
     {r \<in> set (unix_rows os). \<forall>l. own_listener s = Some l \<longrightarrow> fst r \<noteq> lis_ino l}"
  by (auto simp: rsc_Stop_os close_listener_def split: option.splits)

lemma kill_listener_rows:
  "set (unix_rows (kill_listener l os)) =
     {r \<in> set (unix_rows os). \<forall>x. l = Some x \<longrightarrow> fst r \<noteq> lis_ino x}"
  by (auto simp: kill_listener_def split: option.splits)

lemma istep_lock:
  "istep (s, k, os) act fresh (s', k', os') \<Longrightarrow>
     (act = NoLock \<longrightarrow> crit k' = crit k) \<and> (act = Acquire \<or> act = Fallback \<longrightarrow> \<not> crit k \<and> crit k') \<and>
     (act = Release \<longrightarrow> crit k \<and> \<not> crit k')"
  by (cases rule: istep.cases) (auto simp: crit_def)

lemma rsc_Stop_shrinks:
  "rsc_Stop s os = (s1, os1) \<Longrightarrow> set (unix_rows os1) \<subseteq> set (unix_rows os)"
  using rsc_Stop_rows [of s os] by auto

lemma istep_rows:
  assumes "istep (s, k, os) act fresh (s', k', os')"
  shows "case fresh of
        None \<Rightarrow> set (unix_rows os') \<subseteq> set (unix_rows os)
      | Some ino \<Rightarrow> unix_rows os' = unix_rows os @ [(ino, socketPath s)] \<and> crit k"
  using assms
proof (cases rule: istep.cases)
  case (bind_ok e sock)
  then show ?thesis using start_bind_Inr [OF bind_ok(5)] by (simp add: crit_def)
next
  case (reclaim e)
  then show ?thesis using start_reclaim_state [OF reclaim(5)] by simp
qed (auto simp: kill_listener_rows dest: rsc_Stop_shrinks stop_unlink_rows)

section \<open>The acting instance keeps its invariant\<close>

lemma listener_of_idle [simp]:
  "\<not> setting_up k \<Longrightarrow> listener_of s k = own_listener s"
  by (cases k) (simp_all add: setting_up_def listener_of_def)

lemma rsc_Stop_fields:
  "rsc_Stop s os = (s1, os1) \<Longrightarrow>
     socketPath s1 = socketPath s \<and> own_listener s1 = None \<and> socketOwner s1 = socketOwner s \<and>
     socketIno s1 = socketIno s"
  by (auto simp: rsc_Stop_def own_listener_def rsc_GetServer_def split: option.splits)

lemma rsc_Delete_fields [simp]:
  "socketPath (rsc_DeleteServer s) = socketPath s"
  "socketOwner (rsc_DeleteServer s) = socketOwner s" "socketIno (rsc_DeleteServer s) = socketIno s"
  by (simp_all add: rsc_DeleteServer_def)

lemma inst_inv_idle:
  "\<not> setting_up k \<Longrightarrow> \<not> crit k \<Longrightarrow>
     inst_inv p s k rows us \<longleftrightarrow>
       socketPath s = p \<and> (\<forall>l. own_listener s = Some l \<longrightarrow> \<not> lis_unlink_on_close l) \<and>
       (socketOwner s = socketOwnerKnown \<longrightarrow> socketIno s \<in> us \<and>
          (\<forall>q. (socketIno s, q) \<in> set rows \<longrightarrow>
             (\<exists>l. own_listener s = Some l \<and> lis_ino l = socketIno s)))"
  by (cases k) (auto simp: inst_inv_def own_ino_def crit_def stopping_def)

text \<open>Stopping the gRPC server closes the listener, and with it the row an owner has.\<close>

lemma inst_inv_grpc_stop:
  assumes inv: "inst_inv p s k (unix_rows os) us" and k: "\<not> setting_up k"
    and st: "rsc_Stop s os = (s1, os1)"
  shows "inst_inv p s1 k (unix_rows os1) us"
proof -
  have rows: "set (unix_rows os1) =
      {r \<in> set (unix_rows os). \<forall>l. own_listener s = Some l \<longrightarrow> fst r \<noteq> lis_ino l}"
    using rsc_Stop_rows [of s os] st by simp
  show ?thesis
    using inv k rsc_Stop_fields [OF st]
    unfolding inst_inv_def own_ino_def by (auto simp: rows) metis+
qed

lemma inst_inv_delete:
  assumes inv: "inst_inv p s k rows us" and k: "\<not> setting_up k" and own: "own_listener s = None"
    and k': "k' = Quiet \<or> k' = StWait \<or> k' = Off"
  shows "inst_inv p (rsc_DeleteServer s) k' rows us"
  using inv k own k' unfolding inst_inv_def own_ino_def
  by (auto simp: setting_up_def stopping_def)

lemma inst_inv_crash:
  assumes inv: "inst_inv p s k (unix_rows os) us"
  shows "inst_inv p (rsc_DeleteServer s) Off (unix_rows (kill_listener (listener_of s k) os)) us"
  using inv unfolding inst_inv_def own_ino_def
  by (auto simp: kill_listener_rows setting_up_def stopping_def)

lemma istep_keeps_inv:
  assumes inv: "inst_inv p s k (unix_rows os) us" and clean: "rows_clean (unix_rows os)"
    and step: "istep (s, k, os) act fresh (s', k', os')"
    and new: "\<And>ino. fresh = Some ino \<Longrightarrow> ino \<notin> us" and us: "fst ` set (unix_rows os) \<subseteq> us"
  shows "inst_inv p s' k' (unix_rows os') (us \<union> set_option fresh)"
  using step
proof (cases rule: istep.cases)
  case call_start
  then show ?thesis using inv by (simp add: inst_inv_idle setting_up_def stopping_def crit_def)
next
  case (call_restart s1)
  have "inst_inv p s1 Quiet (unix_rows os') us"
    using inst_inv_grpc_stop [OF _ _ call_restart(7)] inv call_restart by (simp add: setting_up_def stopping_def)
  then show ?thesis
    using inst_inv_delete [of p s1 Quiet "unix_rows os'" us StWait] call_restart
      rsc_Stop_fields [OF call_restart(7)] by (simp add: setting_up_def stopping_def)
next
  case lock_start
  then show ?thesis using inv by (simp add: inst_inv_def own_ino_def setting_up_def stopping_def)
next
  case unlocked_start
  then show ?thesis using inv by (simp add: inst_inv_def own_ino_def setting_up_def stopping_def)
next
  case (reclaim e)
  note R = start_reclaim_state [OF reclaim(5)]
  then show ?thesis
    using inv reclaim
    by (simp add: inst_inv_def fresh_server_def same_server_def listener_of_def own_listener_def)
next
  case (bind_ok e sock)
  note B = start_bind_Inr [OF bind_ok(5)]
  then show ?thesis
    using inv bind_ok
    by (auto simp: inst_inv_def fresh_server_def same_server_def listener_of_def own_ino_def
        setting_up_def stopping_def)
next
  case (serve sock)
  have f: "rsc_GetServer s = Some \<lparr>services = [], serving = None, grpc_stopped = False\<rparr>"
    using inv serve by (simp add: inst_inv_def setting_up_def stopping_def fresh_server_def)
  show ?thesis
    using inv serve start_serve_state [OF f, of sock]
    by (simp add: inst_inv_def setting_up_def stopping_def same_server_def own_ino_def listener_of_def)
next
  case (check e rm)
  have s1: "s' = clearSocketOwnershipLocked s" "rm = shouldRemoveSocketPathLocked e s os"
    and pf: "proc_format (e_proc_net_unix e)"
    using check by (simp_all add: stop_check_def)
  have "own_ino s k i" if "rm" "socketOwner s \<noteq> socketOwnerNone" "(i, p) \<in> set (unix_rows os)" for i
  proof -
    have known: "socketOwner s = socketOwnerKnown"
      using that(1,2) s1(2) by (cases "socketOwner s") simp_all
    then have "inos_of p (unix_rows os) = [socketIno s]"
      using shouldRemove_known_iff [OF pf clean known] that(1) s1(2) inv
      by (simp add: inst_inv_def)
    then have "i = socketIno s" using that(3) set_inos_of by (metis empty_iff empty_set set_ConsD)
    then show ?thesis using inv known that(3) by (auto simp: inst_inv_def)
  qed
  then show ?thesis
    using inv check s1
    by (auto simp: inst_inv_def own_ino_def setting_up_def stopping_def frame_simps listener_of_def)
next
  case (grpc rm own)
  have "inst_inv p s' (SpChecked rm own) (unix_rows os') us"
    using inst_inv_grpc_stop [OF _ _ grpc(5)] inv grpc by (simp add: setting_up_def stopping_def)
  then show ?thesis
    using grpc rsc_Stop_fields [OF grpc(5)] by (auto simp: inst_inv_def own_ino_def setting_up_def stopping_def)
next
  case (unlink e rm err own)
  have "unix_rows os' = unix_rows os" using unlink stop_unlink_rows by blast
  then show ?thesis using inv unlink by (simp add: inst_inv_def own_ino_def setting_up_def stopping_def)
next
  case unlock_stop
  then show ?thesis
    using inv by (auto simp: inst_inv_def own_ino_def setting_up_def stopping_def)
next
  case notify_failed
  have "\<not> setting_up k"
    using inv notify_failed fresh_own_listener by (auto simp: inst_inv_def)
  then show ?thesis using inst_inv_grpc_stop [OF inv _ notify_failed(6)] notify_failed by simp
next
  case crash_out
  then show ?thesis using inst_inv_crash [OF inv] by simp
next
  case crash_in
  then show ?thesis using inst_inv_crash [OF inv] by simp
qed (use inv in \<open>auto simp: inst_inv_def own_ino_def setting_up_def stopping_def listener_of_def fresh_own_listener\<close>)

section \<open>The invariant of the race\<close>

definition race_inv :: "go_string \<Rightarrow> race \<Rightarrow> bool" where
  "race_inv p c \<longleftrightarrow>
     go_Fields p = [p] \<and> rows_clean (unix_rows (mach c)) \<and>
     fst ` set (unix_rows (mach c)) \<subseteq> used c \<and>
     (\<forall>i. crit (inst_pc c i) \<longleftrightarrow> holder c = Some i) \<and>
     (\<forall>i. inst_inv p (inst_srv c i) (inst_pc c i) (unix_rows (mach c)) (used c))"

lemma race_init_inv: "race_init p c \<Longrightarrow> race_inv p c"
  by (auto simp: race_init_def race_inv_def inst_inv_idle setting_up_def crit_def own_listener_def
      rsc_GetServer_def)

lemma race_instance_inv:
  assumes inv: "race_inv p c"
    and step: "istep (inst_srv c i, inst_pc c i, mach c) act fresh (s', k', os')"
    and acq: "act = Acquire \<Longrightarrow> holder c = None" and locked: "act \<noteq> Fallback"
    and new: "\<And>ino. fresh = Some ino \<Longrightarrow> ino \<notin> used c"
  shows "race_inv p (race_update i (s', k', os') act fresh c)"
proof -
  let ?c = "race_update i (s', k', os') act fresh c"
  have clean: "rows_clean (unix_rows (mach c))" and p: "go_Fields p = [p]"
    and used: "fst ` set (unix_rows (mach c)) \<subseteq> used c"
    and lock: "crit (inst_pc c j) \<longleftrightarrow> holder c = Some j"
    and I: "inst_inv p (inst_srv c j) (inst_pc c j) (unix_rows (mach c)) (used c)" for j
    using inv by (simp_all add: race_inv_def)
  have path: "socketPath (inst_srv c i) = p" using I [of i] by (simp add: inst_inv_def)
  note rows = istep_rows [OF step]
  have rows': "rows_clean (unix_rows os') \<and> fst ` set (unix_rows os') \<subseteq> used c \<union> set_option fresh"
    using rows clean used p path by (cases fresh) (auto simp: rows_clean_def)
  have lock': "crit (inst_pc ?c j) \<longleftrightarrow> holder ?c = Some j" for j
    using istep_lock [OF step] lock [of i] lock [of j] acq locked
    by (cases act) (auto simp: race_update_def lock_after_def)
  have "inst_inv p (inst_srv ?c j) (inst_pc ?c j) (unix_rows os') (used c \<union> set_option fresh)" for j
  proof (cases "j = i")
    case True
    then show ?thesis
      using istep_keeps_inv [OF I clean step new used] by (simp add: race_update_def)
  next
    case other: False
    then have same: "inst_srv ?c j = inst_srv c j" "inst_pc ?c j = inst_pc c j"
      by (simp_all add: race_update_def)
    show ?thesis
    proof (cases fresh)
      case None
      then show ?thesis unfolding same using inst_inv_shrink [OF I, of _ "used c"] rows by simp
    next
      case (Some ino)
      then have "crit (inst_pc c i)" using rows by simp
      then have "\<not> crit (inst_pc c j)" using lock [of i] lock [of j] other by auto
      then show ?thesis
        unfolding same using inst_inv_foreign_bind [OF I, of j ino] new rows Some path by simp
    qed
  qed
  then show ?thesis
    using rows' lock' p by (simp add: race_inv_def) (simp add: race_update_def)
qed

lemma race_step_inv:
  assumes "race_inv p c" "race_step p c c'" "\<not> degraded c'"
  shows "race_inv p c'"
  using assms(2,1,3)
proof cases
  case (instance_step i act fresh x)
  have "act \<noteq> Fallback" using instance_step(1) assms(3) by (auto simp: race_update_def)
  then show ?thesis
    using instance_step race_instance_inv [OF assms(1), of i act fresh] by (cases x) auto
next
  case wipe
  then show ?thesis using assms(1) by (simp add: race_inv_def)
qed

lemma race_step_degraded: "race_step p c c' \<Longrightarrow> degraded c \<Longrightarrow> degraded c'"
  by (cases rule: race_step.cases) (auto simp: race_update_def)

lemma race_reach_inv: "race_reach p c \<Longrightarrow> \<not> degraded c \<Longrightarrow> race_inv p c"
  by (induction rule: race_reach.induct) (auto intro: race_init_inv race_step_inv dest: race_step_degraded)

text \<open>Degraded or not, only an instance between lock and unlock holds the lock.\<close>

lemma holder_crit: "race_reach p c \<Longrightarrow> holder c = Some j \<Longrightarrow> crit (inst_pc c j)"
proof (induction arbitrary: j rule: race_reach.induct)
  case (init c)
  then show ?case by (simp add: race_init_def)
next
  case (step c c')
  from step.hyps(2) step.prems step.IH show ?case
  proof cases
    case (instance_step i act fresh x)
    obtain s' k' os' where x: "x = (s', k', os')" by (cases x)
    have lk: "(act = NoLock \<longrightarrow> crit k' = crit (inst_pc c i)) \<and>
        (act = Acquire \<or> act = Fallback \<longrightarrow> \<not> crit (inst_pc c i) \<and> crit k')"
      using istep_lock instance_step(2) unfolding x by blast
    show ?thesis
      using lk step.prems step.IH [of j] unfolding instance_step(1) x
      by (cases act) (auto simp: race_update_def lock_after_def split: if_splits)
  qed auto
qed

lemma inst_inv_unlink_safe:
  assumes "inst_inv p s (SpStopped rm own) rows us" "own \<noteq> socketOwnerNone" "(k, p) \<in> set rows"
  shows "\<not> rm"
  using assms by (auto simp: inst_inv_def)

lemma stop_unlink_idle: "\<not> rm \<Longrightarrow> stop_unlink e rm p os = (None, os)"
  by (simp add: stop_unlink_def)

section \<open>The sequential operations are runs of one instance\<close>

inductive irun :: "inst \<Rightarrow> (lock_action \<times> 64 word option) list \<Rightarrow> inst \<Rightarrow> bool" where
  irun_nil: "irun x [] x"
| irun_cons: "istep x act fresh y \<Longrightarrow> irun y tr z \<Longrightarrow> irun x ((act, fresh) # tr) z"

lemma irun_append: "irun x tr y \<Longrightarrow> irun y tr' z \<Longrightarrow> irun x (tr @ tr') z"
  by (induction rule: irun.induct) (auto intro: irun_cons)

lemma irun_one: "istep x act fresh y \<Longrightarrow> irun x [(act, fresh)] y"
  by (rule irun_cons [OF _ irun_nil])

definition fresh_inos :: "(lock_action \<times> 64 word option) list \<Rightarrow> 64 word list" where
  "fresh_inos tr = List.map_filter snd tr"

lemma fresh_inos_simps [simp]:
  "fresh_inos [] = []" "fresh_inos ((act, None) # tr) = fresh_inos tr"
  "fresh_inos ((act, Some k) # tr) = k # fresh_inos tr"
  "fresh_inos (tr @ tr') = fresh_inos tr @ fresh_inos tr'"
  by (simp_all add: fresh_inos_def map_filter_simps) (simp add: List.map_filter_def)

text \<open>The operations inside the critical section do not look at the directory locks.\<close>

definition with_flocks :: "go_string list \<Rightarrow> osys \<Rightarrow> osys" where
  "with_flocks f os = os\<lparr>flocks := f\<rparr>"

lemma with_flocks_fields [simp]:
  "paths (with_flocks f os) = paths os" "unix_rows (with_flocks f os) = unix_rows os"
  "with_flocks f (with_flocks g os) = with_flocks f os" "with_flocks (flocks os) os = os"
  by (simp_all add: with_flocks_def)

lemma shouldRemove_flocks [simp]:
  "shouldRemoveSocketPathLocked e s (with_flocks f os) = shouldRemoveSocketPathLocked e s os"
  by (rule shouldRemove_cong) simp_all

lemma rsc_Stop_flocks:
  "rsc_Stop s os = (s1, os1) \<Longrightarrow>
     rsc_Stop s (with_flocks f os) = (s1, with_flocks f os1) \<and> flocks os1 = flocks os"
  by (auto simp: rsc_Stop_def close_listener_def with_flocks_def split: option.splits)

lemma stop_unlink_flocks:
  "stop_unlink e rm p os = (err, os1) \<Longrightarrow>
     stop_unlink e rm p (with_flocks f os) = (err, with_flocks f os1) \<and> flocks os1 = flocks os"
  by (auto simp: stop_unlink_def os_Remove_def with_flocks_def
      split: if_splits option.splits)

lemma start_reclaim_flocks:
  "start_reclaim e s os = (s1, os1) \<Longrightarrow>
     start_reclaim e s (with_flocks f os) = (s1, with_flocks f os1) \<and> flocks os1 = flocks os"
  by (auto simp: start_reclaim_def cleanupLocked_def os_Remove_def with_flocks_def frame_simps
      split: if_splits option.splits remove_answer.splits prod.splits)

lemma start_bind_flocks:
  "start_bind e s (with_flocks f os) =
     map_sum id (\<lambda>(l, s1, os1). (l, s1, with_flocks f os1)) (start_bind e s os)"
  by (auto simp: start_bind_def net_Listen_def with_flocks_def split: sum.splits prod.splits)

lemma start_bind_keeps_flocks: "start_bind e s os = Inr (l, s1, os1) \<Longrightarrow> flocks os1 = flocks os"
  by (auto dest: start_bind_Inr)

lemma lock_with_flocks:
  assumes "lockSocketPath e p os = (held, os1)"
  obtains f where "os1 = with_flocks f os"
    "\<forall>x. flocks x = flocks os \<longrightarrow> unlockSocketPath held (with_flocks f x) = x"
proof -
  have "os1 = with_flocks (flocks os1) os"
    using lock_frame [OF assms] by (simp add: with_flocks_def)
  moreover have "unlockSocketPath held (with_flocks (flocks os1) x) = x" if "flocks x = flocks os" for x
    using assms that
    by (auto simp: lockSocketPath_def unlockSocketPath_def with_flocks_def Let_def
        split: lock_answer.splits)
  ultimately show thesis using that by blast
qed

text \<open>The stop sequence, from its lock to its unlock.\<close>

lemma stop_sequence_irun:
  assumes run: "stopAndRemoveOwnedSocketLocked e s os = (r, s', os')"
    and proc: "proc_format (e_proc_net_unix e)"
  shows "irun (s, SpWait, os) [(Acquire, None), (NoLock, None), (NoLock, None), (NoLock, None)]
    (s', SpUnlock, os')"
proof -
  obtain held os1 os2 os3 where p:
    "lockSocketPath e (socketPath s) os = (held, os1)"
    "s' = fst (rsc_Stop (clearSocketOwnershipLocked s) os1)" "os2 = snd (rsc_Stop s os1)"
    "stop_unlink e (shouldRemoveSocketPathLocked e s os1) (socketPath s) os2 = (r, os3)"
    "os' = unlockSocketPath held os3"
    using run by (rule stopAndRemove_parts)
  obtain f where f: "os1 = with_flocks f os"
    "\<forall>x. flocks x = flocks os \<longrightarrow> unlockSocketPath held (with_flocks f x) = x"
    using p(1) by (rule lock_with_flocks)
  let ?s1 = "clearSocketOwnershipLocked s" and ?rm = "shouldRemoveSocketPathLocked e s os"
  obtain s2 osa where st: "rsc_Stop ?s1 os = (s2, osa)" by force
  have same: "snd (rsc_Stop ?s1 x) = snd (rsc_Stop s x)" for x by (simp add: rsc_Stop_os)
  have s2: "s2 = s'" "os2 = with_flocks f osa"
    using rsc_Stop_flocks [OF st, of f] p(2,3) same [of os1] by (simp_all add: f(1))
  obtain err osb where ul: "stop_unlink e ?rm (socketPath s) osa = (err, osb)" by force
  have "os3 = with_flocks f osb" "flocks osb = flocks os"
    using stop_unlink_flocks [OF ul, of f] rsc_Stop_flocks [OF st, of f] p(4)
    by (simp_all add: s2 f(1))
  then have os': "os' = osb" using p(5) f(2) by simp
  have path: "socketPath s2 = socketPath s"
    using rsc_Stop_fields [OF st] by (simp add: frame_simps)
  have chk: "stop_check e s os = (?rm, ?s1)" by (simp add: stop_check_def)
  have ul': "stop_unlink e ?rm (socketPath s2) osa = (err, osb)" using ul path by simp
  note steps = irun_cons [OF lock_stop] irun_cons [OF check [OF proc chk]]
    irun_cons [OF grpc [OF st]] irun_cons [OF unlink [OF ul'] irun_nil]
  have "irun (s, SpWait, os) [(Acquire, None), (NoLock, None), (NoLock, None), (NoLock, None)]
    (s2, SpUnlock, osb)"
    by (intro steps(1-3)) (rule steps(4))
  then show ?thesis unfolding os' s2(1) [symmetric] .
qed

lemma stopLocked_irun:
  assumes run: "stopLocked e s os = (r, s', os')" and proc: "proc_format (e_proc_net_unix e)"
  shows "\<exists>tr. irun (s, Quiet, os) tr (s', Quiet, os') \<and> fresh_inos tr = [] \<and>
    Fallback \<notin> fst ` set tr"
proof (cases "rsConnector s = None \<or> rsc_GetServer s = None")
  case True
  then show ?thesis using run irun_nil by (auto simp: stopLocked_def intro!: exI [of _ "[]"])
next
  case False
  then obtain s1 where st: "stopAndRemoveOwnedSocketLocked e s os = (r, s1, os')"
    and s': "s' = rsc_DeleteServer s1"
    using run by (auto simp: stopLocked_def split: prod.splits)
  have "istep (s, Quiet, os) NoLock None (s, SpWait, os)" using False by (intro call_stop) simp
  note first = irun_one [OF this]
  have "istep (s1, SpUnlock, os') Release None (s', Quiet, os')" by (rule unlock_stop) (simp add: s')
  note last = irun_one [OF this]
  show ?thesis
    using irun_append [OF first irun_append [OF stop_sequence_irun [OF st proc] last]]
    by (intro exI conjI) auto
qed

lemma start_phases_irun:
  assumes free: "rsc_GetServer s = None"
    and l: "lockSocketPath e (socketPath s) os = (held, os1)"
    and rc: "start_reclaim e s os1 = (s2, os2)"
  obtains os2' where "irun (s, Quiet, os) [(NoLock, None), (Acquire, None), (NoLock, None)]
      (s2, StReclaimed, os2')" "unlockSocketPath held os2 = os2'"
    "\<And>err. start_bind e s2 os2 = Inl err \<Longrightarrow> start_bind e s2 os2' = Inl err"
    "\<And>sock s3 os3. start_bind e s2 os2 = Inr (sock, s3, os3) \<Longrightarrow>
       start_bind e s2 os2' = Inr (sock, s3, unlockSocketPath held os3)"
proof -
  obtain f where f: "os1 = with_flocks f os"
    "\<forall>x. flocks x = flocks os \<longrightarrow> unlockSocketPath held (with_flocks f x) = x"
    using l by (rule lock_with_flocks)
  obtain sa osa where ra: "start_reclaim e s os = (sa, osa)" by force
  have sa: "sa = s2" "os2 = with_flocks f osa" "flocks osa = flocks os"
    using start_reclaim_flocks [OF ra, of f] rc by (simp_all add: f(1))
  have "irun (s, Quiet, os) [(NoLock, None), (Acquire, None), (NoLock, None)] (s2, StReclaimed, osa)"
    using call_start [OF free] lock_start reclaim ra unfolding sa(1)
    by (blast intro: irun_cons irun_nil)
  moreover have "unlockSocketPath held os2 = osa" using f(2) sa by simp
  moreover have "start_bind e s2 osa = Inl err" if "start_bind e s2 os2 = Inl err" for err
    using that start_bind_flocks [of e s2 f osa] sa(2) by (cases "start_bind e s2 osa") simp_all
  moreover have "start_bind e s2 osa = Inr (sock, s3, unlockSocketPath held os3)"
    if "start_bind e s2 os2 = Inr (sock, s3, os3)" for sock s3 os3
  proof -
    have "\<exists>y. start_bind e s2 osa = Inr (sock, s3, y) \<and> os3 = with_flocks f y"
      using that start_bind_flocks [of e s2 f osa] unfolding sa(2)
      by (cases "start_bind e s2 osa") auto
    then obtain y where y: "start_bind e s2 osa = Inr (sock, s3, y)" "os3 = with_flocks f y"
      by blast
    then have "unlockSocketPath held os3 = y"
      using f(2) sa(3) start_bind_keeps_flocks [OF y(1)] by simp
    then show ?thesis using y(1) by simp
  qed
  ultimately show thesis by (rule that)
qed

lemma startLocked_irun:
  assumes run: "startLocked e e2 s os = (r, s', os')" and free: "rsc_GetServer s = None"
    and proc: "proc_format (e_proc_net_unix e2)" and unix: "e_capture e \<noteq> CapNotUnixListener"
  shows "\<exists>tr. irun (s, Quiet, os) tr (s', Quiet, os') \<and> Fallback \<notin> fst ` set tr \<and>
    (fresh_inos tr = [] \<or> (\<exists>ino. e_listen e = Inr ino \<and> fresh_inos tr = [ino]))"
  using run
proof (cases rule: startLocked_cases)
  case (not_bound held os1 s2 os2 err)
  obtain os2' where P: "irun (s, Quiet, os) [(NoLock, None), (Acquire, None), (NoLock, None)]
      (s2, StReclaimed, os2')" "unlockSocketPath held os2 = os2'" "start_bind e s2 os2' = Inl err"
    using start_phases_irun [OF free not_bound(1,2)] not_bound(3) by metis
  have "irun (s2, StReclaimed, os2') ([(NoLock, None)] @ [(Release, None)]) (s2, Quiet, os2')"
    by (rule irun_append [OF irun_one [OF bind_fail [OF P(3)]] irun_one [OF unlock_failed]])
  note all = irun_append [OF P(1) this]
  show ?thesis using all P(2) not_bound by (intro exI conjI) auto
next
  case (bound held os1 s2 os2 sock s3 os3 s4 os4)
  obtain os2' where P: "irun (s, Quiet, os) [(NoLock, None), (Acquire, None), (NoLock, None)]
      (s2, StReclaimed, os2')" "start_bind e s2 os2' = Inr (sock, s3, os4)"
    using start_phases_irun [OF free bound(1,2)] bound(3,5) by metis
  note all = irun_append [OF P(1) irun_append [OF irun_one [OF bind_ok [OF P(2) unix]]
        irun_append [OF irun_one [OF unlock_bound] irun_one [OF serve]]]]
  have "e_listen e = Inr (lis_ino sock)" using start_bind_Inr [OF P(2)] by simp
  then show ?thesis using all bound by (intro exI conjI) auto
next
  case (refused held os1 s2 os2 sock s3 os3 s4 os4 err r5)
  obtain os2' where P: "irun (s, Quiet, os) [(NoLock, None), (Acquire, None), (NoLock, None)]
      (s2, StReclaimed, os2')" "start_bind e s2 os2' = Inr (sock, s3, os4)"
    using start_phases_irun [OF free refused(1,2)] refused(3,5) by metis
  have ino: "e_listen e = Inr (lis_ino sock)" using start_bind_Inr [OF P(2)] by simp
  have "rsc_GetServer s4 \<noteq> None" using start_bound_state [OF refused(1-5)] by simp
  then have stop: "istep (s4, Quiet, os4) NoLock None (s4, SpWait, os4)" by (rule call_stop)
  have leave: "istep (s', SpUnlock, os') Release None (s', Quiet, os')" by (rule unlock_stop) simp
  have serving: "irun (s3, StServe sock, os4) [(NoLock, None)] (s4, Quiet, os4)"
    unfolding refused(4) by (rule irun_one [OF serve])
  note all = irun_append [OF P(1) irun_append [OF irun_one [OF bind_ok [OF P(2) unix]]
        irun_append [OF irun_one [OF unlock_bound] irun_append [OF serving
        irun_append [OF irun_one [OF stop] irun_append [OF stop_sequence_irun [OF refused(9) proc]
        irun_one [OF leave]]]]]]]
  show ?thesis using all ino by (intro exI conjI) auto
qed

text \<open>A run of one instance while the others are outside the critical section is a run of the
  race.\<close>

definition at :: "nat \<Rightarrow> race \<Rightarrow> inst" where
  "at i c = (inst_srv c i, inst_pc c i, mach c)"

definition others_out :: "nat \<Rightarrow> race \<Rightarrow> bool" where
  "others_out i c \<longleftrightarrow> (\<forall>j. j \<noteq> i \<longrightarrow> \<not> crit (inst_pc c j))"

definition same_others :: "nat \<Rightarrow> race \<Rightarrow> race \<Rightarrow> bool" where
  "same_others i c c' \<longleftrightarrow>
     (\<forall>j. j \<noteq> i \<longrightarrow> inst_srv c' j = inst_srv c j \<and> inst_pc c' j = inst_pc c j)"

lemma at_race_update [simp]: "at i (race_update i x act fresh c) = x"
  by (cases x) (simp add: at_def race_update_def)

lemma same_others_update [simp]: "same_others i c (race_update i x act fresh c)"
  by (simp add: same_others_def race_update_def)

lemma same_others_out: "same_others i c c' \<Longrightarrow> others_out i c \<Longrightarrow> others_out i c'"
  by (simp add: same_others_def others_out_def)

lemma race_step_at:
  assumes reach: "race_reach p c" and out: "others_out i c \<or> act \<noteq> Acquire" and step: "istep (at i c) act fresh y"
    and new: "set_option fresh \<inter> used c = {}"
  shows "race_reach p (race_update i y act fresh c)"
proof (rule race_reach.step [OF reach instance_step])
  show "istep (inst_srv c i, inst_pc c i, mach c) act fresh y" using step by (simp add: at_def)
  show "holder c = None" if "act = Acquire"
  proof -
    have "\<not> crit (inst_pc c i)" using istep_lock [of "inst_srv c i" "inst_pc c i" "mach c"] step that
      by (cases y) (auto simp: at_def)
    then have "\<forall>j. \<not> crit (inst_pc c j)" using out that by (auto simp: others_out_def)
    then show ?thesis using holder_crit [OF reach] by (cases "holder c") auto
  qed
  show "k \<notin> used c" if "fresh = Some k" for k using new that by auto
qed

lemma irun_race:
  "irun x tr y \<Longrightarrow> race_reach p c \<Longrightarrow> at i c = x \<Longrightarrow> others_out i c \<or> Acquire \<notin> fst ` set tr \<Longrightarrow>
     distinct (fresh_inos tr) \<Longrightarrow> set (fresh_inos tr) \<inter> used c = {} \<Longrightarrow>
     \<exists>c'. race_reach p c' \<and> at i c' = y \<and> same_others i c c' \<and>
       (degraded c' \<longleftrightarrow> degraded c \<or> Fallback \<in> fst ` set tr) \<and> used c' = used c \<union> set (fresh_inos tr) \<and>
       (Acquire \<notin> fst ` set tr \<and> holder c \<noteq> Some i \<longrightarrow> holder c' = holder c)"
proof (induction arbitrary: c rule: irun.induct)
  case (irun_nil x)
  then show ?case by (auto simp: same_others_def)
next
  case (irun_cons x act fresh y tr z)
  let ?c = "race_update i y act fresh c"
  have new: "set_option fresh \<inter> used c = {}" using irun_cons.prems(5) by (cases fresh) auto
  have out: "others_out i c \<or> act \<noteq> Acquire" using irun_cons.prems(3) by auto
  have so: "same_others i c ?c" by (rule same_others_update)
  have reach: "race_reach p ?c"
    using race_step_at [OF irun_cons.prems(1) out _ new] irun_cons.hyps(1) irun_cons.prems(2) by simp
  have "set (fresh_inos tr) \<inter> used ?c = {}"
    using irun_cons.prems(4,5) by (cases fresh) (auto simp: race_update_def)
  moreover have "distinct (fresh_inos tr)" using irun_cons.prems(4) by (cases fresh) auto
  moreover have "others_out i ?c \<or> Acquire \<notin> fst ` set tr"
    using irun_cons.prems(3) same_others_out [OF so] by auto
  ultimately obtain c' where c': "race_reach p c'" "at i c' = z" "same_others i ?c c'"
    "degraded c' \<longleftrightarrow> degraded ?c \<or> Fallback \<in> fst ` set tr" "used c' = used ?c \<union> set (fresh_inos tr)"
    "Acquire \<notin> fst ` set tr \<and> holder ?c \<noteq> Some i \<longrightarrow> holder c' = holder ?c"
    using irun_cons.IH [OF reach] by auto
  then have "same_others i c c'" by (auto simp: same_others_def race_update_def)
  moreover have "degraded c' \<longleftrightarrow> degraded c \<or> Fallback \<in> fst ` set ((act, fresh) # tr)"
    using c'(4) by (auto simp: race_update_def)
  moreover have "used c' = used c \<union> set (fresh_inos ((act, fresh) # tr))"
    using c'(5) by (cases fresh) (auto simp: race_update_def)
  moreover have "holder c' = holder c"
    if "Acquire \<notin> fst ` set ((act, fresh) # tr)" "holder c \<noteq> Some i"
    using c'(6) that by (cases act) (auto simp: race_update_def lock_after_def)
  ultimately show ?case using c'(1,2) by blast
qed

lemma start_race:
  assumes "race_reach p c" "others_out i c" "at i c = (s, Quiet, os)"
    and "rsc_GetServer s = None" "proc_format (e_proc_net_unix e2)" "e_capture e \<noteq> CapNotUnixListener"
    and "\<forall>ino. e_listen e = Inr ino \<longrightarrow> ino \<notin> used c" "startLocked e e2 s os = (r, s', os')"
  shows "\<exists>c'. race_reach p c' \<and> at i c' = (s', Quiet, os') \<and> same_others i c c' \<and>
    degraded c' = degraded c \<and> (\<forall>ino. e_listen e = Inr ino \<longrightarrow> used c' \<subseteq> insert ino (used c))"
proof -
  obtain tr where tr: "irun (s, Quiet, os) tr (s', Quiet, os')" "Fallback \<notin> fst ` set tr"
    "fresh_inos tr = [] \<or> (\<exists>ino. e_listen e = Inr ino \<and> fresh_inos tr = [ino])"
    using startLocked_irun [OF assms(8,4-6)] by blast
  have "distinct (fresh_inos tr)" "set (fresh_inos tr) \<inter> used c = {}" using tr(3) assms(7) by auto
  then show ?thesis using irun_race [OF tr(1) assms(1,3) disjI1 [OF assms(2)]] tr(2,3) by auto
qed

lemma stop_race:
  assumes "race_reach p c" "others_out i c" "at i c = (s, Quiet, os)"
    and "proc_format (e_proc_net_unix e)" "stopLocked e s os = (r, s', os')"
  shows "\<exists>c'. race_reach p c' \<and> at i c' = (s', Quiet, os') \<and> same_others i c c' \<and>
    degraded c' = degraded c"
proof -
  obtain tr where tr: "irun (s, Quiet, os) tr (s', Quiet, os')" "fresh_inos tr = []"
    "Fallback \<notin> fst ` set tr"
    using stopLocked_irun [OF assms(5,4)] by blast
  then show ?thesis using irun_race [OF tr(1) assms(1,3) disjI1 [OF assms(2)]] by auto
qed

section \<open>Properties\<close>

text \<open>C1: No instance removes the path of a live socket when it stops: with any number of
  instances starting, restarting, stopping and crashing on one path, and the kubelet wiping the
  directory at any moment, as long as no instance had to go on without the lock, an instance
  that reaches its unlink with a recorded or unidentified socket leaves the machine as it is
  whenever the kernel still lists a socket on the path.\<close>

theorem stop_never_unlinks_a_live_socket:
  assumes "race_reach p c" "\<not> degraded c" "inst_pc c i = SpStopped removePath owner"
    and "owner \<noteq> socketOwnerNone" "(ino, p) \<in> set (unix_rows (mach c))"
  shows "stop_unlink e removePath (socketPath (inst_srv c i)) (mach c) = (None, mach c)"
proof -
  have "inst_inv p (inst_srv c i) (SpStopped removePath owner) (unix_rows (mach c)) (used c)"
    using race_reach_inv [OF assms(1,2)] assms(3) by (metis race_inv_def)
  then show ?thesis using inst_inv_unlink_safe assms(4,5) stop_unlink_idle by blast
qed

definition sample_race :: race where
  "sample_race =
     \<lparr>inst_srv = (\<lambda>i. sample_server False False), inst_pc = (\<lambda>i. Quiet),
      mach = \<lparr>paths = Map.empty, unix_rows = [(41, socketPath (sample_server False False))],
              flocks = []\<rparr>,
      holder = None, used = {41}, degraded = False\<rparr>"

lemma sample_server_idle:
  "rsConnector (sample_server wm cdi) = Some None" "socketOwner (sample_server wm cdi) = socketOwnerNone"
  "rsc_GetServer (sample_server wm cdi) = None" "watchMode (sample_server wm cdi) = wm"
  by (simp_all add: sample_server_def newResourceServer_def sample_config_def Let_def rsc_GetServer_def)

lemma sample_race_reach: "race_reach (socketPath (sample_server False False)) sample_race"
  using sample_socket_path(2)
  by (intro race_reach.init)
     (simp add: race_init_def sample_race_def sample_server_idle rows_clean_def)

text \<open>Instance 0 has started on the path of a foreign socket whose name was wiped.\<close>

lemma sample_started:
  "\<exists>c s os. race_reach (socketPath (sample_server False False)) c \<and> \<not> degraded c \<and>
     others_out 0 c \<and> at 0 c = (s, Quiet, os) \<and> rsc_GetServer s \<noteq> None \<and> socketOwner s = socketOwnerKnown \<and>
     own_listener s \<noteq> None \<and> (\<forall>l. own_listener s = Some l \<longrightarrow> lis_ino l = 42) \<and>
     (41, socketPath (sample_server False False)) \<in> set (unix_rows os)"
proof -
  let ?s = "sample_server False False" and ?os = "mach sample_race"
  let ?e = "sample_env 42"
  obtain s' os' where st: "startLocked ?e ?e ?s ?os = (None, s', os')"
    using sample_startLocked [of ?os ?s 42 ?e] by (auto simp: sample_race_def)
  obtain l where S: "own_listener s' = Some l" "lis_ino l = 42" "rsc_GetServer s' \<noteq> None"
    "socketOwner s' = socketOwnerKnown" "unix_rows os' = unix_rows ?os @ [(42, socketPath ?s)]"
    using startLocked_None_state [of ?e ?e ?s ?os s' os'] st by auto
  have out: "others_out 0 sample_race" by (simp add: others_out_def sample_race_def crit_def)
  have "at 0 sample_race = (?s, Quiet, ?os)" by (simp add: at_def sample_race_def)
  then obtain c' where "race_reach (socketPath ?s) c'" "at 0 c' = (s', Quiet, os')"
    "same_others 0 sample_race c'" "\<not> degraded c'"
    using start_race [OF sample_race_reach out _ _ _ _ _ st] sample_server_idle
    by (auto simp: sample_race_def)
  then show ?thesis using S same_others_out [OF _ out] by (auto simp: sample_race_def)
qed

lemma stop_never_unlinks_a_live_socket_witness:
  "\<exists>c removePath os. race_reach (socketPath (sample_server False False)) c \<and>
     inst_pc c 0 = SpStopped removePath socketOwnerKnown \<and>
     stop_unlink (sample_env 0) removePath (socketPath (inst_srv c 0)) (mach c) = (None, mach c)"
proof -
  let ?p = "socketPath (sample_server False False)" and ?e = "sample_env 0"
  obtain c s os where c: "race_reach ?p c" "others_out 0 c" "at 0 c = (s, Quiet, os)"
    "rsc_GetServer s \<noteq> None" "socketOwner s = socketOwnerKnown" "own_listener s \<noteq> None"
    "\<forall>l. own_listener s = Some l \<longrightarrow> lis_ino l = 42" "(41, ?p) \<in> set (unix_rows os)"
    "\<not> degraded c"
    using sample_started by blast
  let ?rm = "fst (stop_check ?e s os)" and ?s1 = "snd (stop_check ?e s os)"
  obtain s2 os2 where g: "rsc_Stop ?s1 os = (s2, os2)" by force
  have "irun (s, Quiet, os) ([(NoLock, None)] @ [(Acquire, None)] @ [(NoLock, None)] @ [(NoLock, None)])
    (s2, SpStopped ?rm (socketOwner s), os2)"
    by (rule irun_append [OF irun_one [OF call_stop [OF c(4)]]
        irun_append [OF irun_one [OF lock_stop] irun_append [OF irun_one [OF check [of ?e]]
        irun_one [OF grpc [OF g]]]]]) simp_all
  from irun_race [OF this c(1,3) disjI1 [OF c(2)]]
  obtain c' where c': "race_reach ?p c'" "at 0 c' = (s2, SpStopped ?rm (socketOwner s), os2)"
    "\<not> degraded c'"
    using c(9) by auto
  have own: "own_listener ?s1 = own_listener s" by (simp add: stop_check_def)
  have "(41, ?p) \<in> set (unix_rows os2)"
    using rsc_Stop_rows [of ?s1 os] c(7,8) unfolding g snd_conv own by auto
  then have live: "(41, ?p) \<in> set (unix_rows (mach c'))" using c'(2) by (simp add: at_def)
  have pc: "inst_pc c' 0 = SpStopped ?rm socketOwnerKnown" using c'(2) c(5) by (simp add: at_def)
  show ?thesis
    using stop_never_unlinks_a_live_socket [OF c'(1,3) pc _ live] c'(1) pc by blast
qed

text \<open>The path lock excludes: at most one instance is anywhere between taking the lock and
  releasing it, in a start or in a stop, and it is the one that holds it, as long as no instance
  had to go on without the lock.\<close>

lemma path_lock_excludes:
  assumes "race_reach p c" "\<not> degraded c" "crit (inst_pc c i)"
  shows "holder c = Some i \<and> {j. crit (inst_pc c j)} = {i}"
  using race_reach_inv [OF assms(1,2)] assms(3) by (auto simp: race_inv_def)

text \<open>The sequential start is what one instance of the race does when no other is between
  lock and unlock: from any reachable state, the whole of \<^verbatim>\<open>startLocked\<close>, failures included,
  is a run of the race that ends in the server state and the machine the function returns and
  moves no other instance.\<close>

lemma start_is_a_run_of_the_race:
  assumes "race_reach p c" "inst_pc c i = Quiet" "rsc_GetServer (inst_srv c i) = None"
    and "\<forall>j. j \<noteq> i \<longrightarrow> \<not> crit (inst_pc c j)"
    and "proc_format (e_proc_net_unix e2)" "e_capture e \<noteq> CapNotUnixListener"
    and "\<forall>ino. e_listen e = Inr ino \<longrightarrow> ino \<notin> used c"
  shows "\<exists>c'. race_reach p c' \<and> inst_pc c' i = Quiet \<and>
    (inst_srv c' i, mach c') = snd (startLocked e e2 (inst_srv c i) (mach c)) \<and>
    degraded c' = degraded c \<and>
    (\<forall>j. j \<noteq> i \<longrightarrow> inst_srv c' j = inst_srv c j \<and> inst_pc c' j = inst_pc c j)"
proof -
  obtain r s' os' where st: "startLocked e e2 (inst_srv c i) (mach c) = (r, s', os')"
    by (cases "startLocked e e2 (inst_srv c i) (mach c)") auto
  have at: "others_out i c" "at i c = (inst_srv c i, Quiet, mach c)"
    using assms(2,4) by (simp_all add: at_def others_out_def)
  obtain c' where "race_reach p c'" "at i c' = (s', Quiet, os')" "same_others i c c'"
    "degraded c' = degraded c"
    using start_race [OF assms(1) at assms(3,5,6,7) st] by blast
  then show ?thesis using st by (intro exI [of _ c']) (auto simp: at_def same_others_def)
qed

text \<open>Likewise the sequential stop: \<^verbatim>\<open>stopLocked\<close> of an instance, alone at the lock, is a
  run of the race with the same effect.\<close>

lemma stop_is_a_run_of_the_race:
  assumes "race_reach p c" "inst_pc c i = Quiet"
    and "\<forall>j. j \<noteq> i \<longrightarrow> \<not> crit (inst_pc c j)" "proc_format (e_proc_net_unix e)"
  shows "\<exists>c'. race_reach p c' \<and> inst_pc c' i = Quiet \<and>
    (inst_srv c' i, mach c') = snd (stopLocked e (inst_srv c i) (mach c)) \<and>
    degraded c' = degraded c \<and>
    (\<forall>j. j \<noteq> i \<longrightarrow> inst_srv c' j = inst_srv c j \<and> inst_pc c' j = inst_pc c j)"
proof -
  obtain r s' os' where st: "stopLocked e (inst_srv c i) (mach c) = (r, s', os')"
    by (cases "stopLocked e (inst_srv c i) (mach c)") auto
  have at: "others_out i c" "at i c = (inst_srv c i, Quiet, mach c)"
    using assms(2,3) by (simp_all add: at_def others_out_def)
  obtain c' where "race_reach p c'" "at i c' = (s', Quiet, os')" "same_others i c c'"
    "degraded c' = degraded c"
    using stop_race [OF assms(1) at assms(4) st] by blast
  then show ?thesis using st by (intro exI [of _ c']) (auto simp: at_def same_others_def)
qed

text \<open>C19: The sequential lifecycle is what one instance of the race does when no other is between
  lock and unlock: from any reachable state, the whole of \<^verbatim>\<open>startLocked\<close> of an instance that is
  not running, failures included, and the whole of \<^verbatim>\<open>stopLocked\<close> of any instance are runs of
  the race that end in the server state and the machine the function returns and move no other
  instance.\<close>

theorem lifecycle_is_a_run_of_the_race:
  assumes "race_reach p c" "inst_pc c i = Quiet" "\<forall>j. j \<noteq> i \<longrightarrow> \<not> crit (inst_pc c j)"
    and "proc_format (e_proc_net_unix e2)"
  shows "(rsc_GetServer (inst_srv c i) = None \<and> e_capture e \<noteq> CapNotUnixListener \<and>
      (\<forall>ino. e_listen e = Inr ino \<longrightarrow> ino \<notin> used c) \<longrightarrow>
      (\<exists>c'. race_reach p c' \<and> inst_pc c' i = Quiet \<and>
        (inst_srv c' i, mach c') = snd (startLocked e e2 (inst_srv c i) (mach c)) \<and>
        degraded c' = degraded c \<and>
        (\<forall>j. j \<noteq> i \<longrightarrow> inst_srv c' j = inst_srv c j \<and> inst_pc c' j = inst_pc c j))) \<and>
    (\<exists>c'. race_reach p c' \<and> inst_pc c' i = Quiet \<and>
      (inst_srv c' i, mach c') = snd (stopLocked e2 (inst_srv c i) (mach c)) \<and>
      degraded c' = degraded c \<and>
      (\<forall>j. j \<noteq> i \<longrightarrow> inst_srv c' j = inst_srv c j \<and> inst_pc c' j = inst_pc c j))"
  using start_is_a_run_of_the_race [OF assms(1,2) _ assms(3,4)]
    stop_is_a_run_of_the_race [OF assms] by blast

lemma lifecycle_is_a_run_of_the_race_witness:
  "(\<exists>c'. race_reach (socketPath (sample_server False False)) c' \<and>
    (inst_srv c' 0, mach c') =
      snd (startLocked (sample_env 42) (sample_env 0) (sample_server False False) (mach sample_race))) \<and>
   (\<exists>c c'. race_reach (socketPath (sample_server False False)) c \<and> rsc_GetServer (inst_srv c 0) \<noteq> None \<and>
    race_reach (socketPath (sample_server False False)) c' \<and>
    (inst_srv c' 0, mach c') = snd (stopLocked (sample_env 0) (inst_srv c 0) (mach c)))"
proof -
  obtain c s os where c: "race_reach (socketPath (sample_server False False)) c" "others_out 0 c"
    "at 0 c = (s, Quiet, os)" "rsc_GetServer s \<noteq> None"
    using sample_started by auto
  have "\<exists>c'. race_reach (socketPath (sample_server False False)) c' \<and>
      (inst_srv c' 0, mach c') = snd (stopLocked (sample_env 0) (inst_srv c 0) (mach c))"
    using conjunct2 [OF lifecycle_is_a_run_of_the_race [OF c(1), of 0 "sample_env 0"]] c(2,3)
    by (auto simp: at_def others_out_def)
  moreover have "\<exists>c'. race_reach (socketPath (sample_server False False)) c' \<and>
      (inst_srv c' 0, mach c') =
        snd (startLocked (sample_env 42) (sample_env 0) (sample_server False False) (mach sample_race))"
    using lifecycle_is_a_run_of_the_race [OF sample_race_reach, of 0 "sample_env 0" "sample_env 42"]
      sample_server_idle
    by (auto simp: sample_race_def crit_def)
  ultimately show ?thesis using c by (auto simp: at_def)
qed

text \<open>An outgoing instance at its unlink, with the lock, its own socket closed.\<close>

lemma sample_outgoing:
  obtains c where "race_reach (socketPath (sample_server False False)) c" "holder c = Some 0"
    "used c \<subseteq> {42}" "inst_pc c 0 = SpStopped True socketOwnerKnown" "unix_rows (mach c) = []"
    "at 1 c = (sample_server False False, Quiet, mach c)"
    "socketPath (inst_srv c 0) = socketPath (sample_server False False)"
proof -
  let ?s = "sample_server False False" and ?e = "sample_env 42"
  let ?p = "socketPath ?s"
  let ?os = "\<lparr>paths = Map.empty, unix_rows = [], flocks = []\<rparr> :: osys"
  let ?c0 = "sample_race\<lparr>mach := ?os, used := {}\<rparr>"
  have reach0: "race_reach ?p ?c0"
    using sample_socket_path(2)
    by (intro race_reach.init) (simp add: race_init_def sample_race_def sample_server_idle rows_clean_def)
  obtain s1 os1 where st: "startLocked ?e ?e ?s ?os = (None, s1, os1)"
    using sample_startLocked [of ?os ?s 42 ?e] by auto
  obtain l where L: "own_listener s1 = Some l" "lis_ino l = 42" "\<not> lis_unlink_on_close l"
    "rsc_GetServer s1 \<noteq> None" "socketOwner s1 = socketOwnerKnown" "socketIno s1 = 42"
    "unix_rows os1 = [(42, ?p)]" "paths os1 ?p \<noteq> None" "socketPath s1 = ?p"
    using startLocked_None_state [of ?e ?e ?s ?os s1 os1] st by (auto simp: same_server_def)
  have out: "others_out 0 ?c0" by (simp add: others_out_def sample_race_def crit_def)
  have at0: "at 0 ?c0 = (?s, Quiet, ?os)" by (simp add: at_def sample_race_def)
  obtain c1 where c1: "race_reach ?p c1" "at 0 c1 = (s1, Quiet, os1)" "same_others 0 ?c0 c1"
    "\<not> degraded c1" "used c1 \<subseteq> {42}"
    using start_race [OF reach0 out at0 _ _ _ _ st] sample_server_idle by (auto simp: sample_race_def)
  have rm: "stop_check ?e s1 os1 = (True, clearSocketOwnershipLocked s1)"
    using shouldRemove_known_iff [of ?e os1 s1] L sample_socket_path(2)
    by (simp add: stop_check_def rows_clean_def)
  obtain s2 os2 where g: "rsc_Stop (clearSocketOwnershipLocked s1) os1 = (s2, os2)" by force
  have "os2 = close_listener l os1"
    using rsc_Stop_os [of "clearSocketOwnershipLocked s1" os1] L(1) g by simp
  then have os2: "unix_rows os2 = []" using L(2,7) by (simp add: close_listener_def)
  have "irun (s1, Quiet, os1) ([(NoLock, None)] @ [(Acquire, None)] @ [(NoLock, None)] @ [(NoLock, None)])
    (s2, SpStopped True (socketOwner s1), os2)"
    by (rule irun_append [OF irun_one [OF call_stop [OF L(4)]]
        irun_append [OF irun_one [OF lock_stop] irun_append [OF irun_one [OF check [OF _ rm]]
        irun_one [OF grpc [OF g]]]]]) simp
  from irun_race [OF this c1(1,2) disjI1 [OF same_others_out [OF c1(3) out]]]
  obtain c2 where c2: "race_reach ?p c2" "at 0 c2 = (s2, SpStopped True socketOwnerKnown, os2)"
    "same_others 0 c1 c2" "\<not> degraded c2" "used c2 = used c1"
    using c1(4) L(5) by auto
  have pc: "inst_pc c2 0 = SpStopped True socketOwnerKnown" "mach c2 = os2"
    using c2(2) by (simp_all add: at_def)
  have "crit (inst_pc c2 0)" using pc(1) by (simp add: crit_def)
  then have holder: "holder c2 = Some 0"
    using race_reach_inv [OF c2(1,4)] unfolding race_inv_def by blast
  have one: "at 1 c2 = (?s, Quiet, mach c2)"
    using c1(3) c2(3) by (simp add: at_def same_others_def sample_race_def)
  have "unix_rows (mach c2) = []" "used c2 \<subseteq> {42}" using pc(2) os2 c2(5) c1(5) by simp_all
  moreover have "socketPath (inst_srv c2 0) = ?p"
    using c2(2) rsc_Stop_fields [OF g] L(9) by (simp add: at_def frame_simps)
  ultimately show thesis using that [OF c2(1) holder _ pc(1) _ one] by blast
qed

text \<open>C29: Without the lock the exclusion is lost: when a replacement cannot take the lock and goes
  on without it, as the code does, the outgoing instance can pass its ownership check, have its
  socket closed, and then remove the path that the replacement has bound in between; the
  replacement goes on listening on a socket nobody can reach.\<close>

theorem unlocked_start_loses_the_socket:
  "\<exists>p c removePath e.
     race_reach p c \<and> degraded c \<and> holder c = Some 0 \<and>
     inst_pc c 0 = SpStopped removePath socketOwnerKnown \<and>
     inst_pc c 1 = Quiet \<and> own_listener (inst_srv c 1) \<noteq> None \<and>
     map snd (unix_rows (mach c)) = [p] \<and> paths (mach c) p \<noteq> None \<and>
     paths (snd (stop_unlink e removePath (socketPath (inst_srv c 0)) (mach c))) p = None"
proof -
  let ?s = "sample_server False False" and ?f = "sample_env 43"
  let ?p = "socketPath ?s"
  obtain c where c: "race_reach ?p c" "holder c = Some 0" "used c \<subseteq> {42}"
    "inst_pc c 0 = SpStopped True socketOwnerKnown" "unix_rows (mach c) = []"
    "at 1 c = (?s, Quiet, mach c)" "socketPath (inst_srv c 0) = ?p"
    by (rule sample_outgoing)
  obtain sa osa where ra: "start_reclaim ?f ?s (mach c) = (sa, osa)" by force
  have A: "paths osa ?p = None" "unix_rows osa = []" "socketPath sa = ?p"
    "rsc_GetServer sa = Some \<lparr>services = [], serving = None, grpc_stopped = False\<rparr>"
    using start_reclaim_state [OF ra] c(5) by (simp_all add: same_server_def)
  obtain sock sb osb where b: "start_bind ?f sa osa = Inr (sock, sb, osb)"
    using A(1,3) by (simp add: start_bind_def net_Listen_def split_beta)
  have B: "lis_ino sock = 43" "unix_rows osb = [(43, ?p)]" "paths osb ?p \<noteq> None"
    "rsc_GetServer sb = rsc_GetServer sa"
    using start_bind_Inr [OF b] A by auto
  have serving: "own_listener (start_serve sock sb) = Some sock"
    using start_serve_state [of sb sock] B(4) A(4) by simp
  have unix: "e_capture ?f \<noteq> CapNotUnixListener" by simp
  have new: "(43 :: 64 word) \<notin> used c" using c(3) by auto
  have "irun (?s, Quiet, mach c) ([(NoLock, None)] @ [(Fallback, None)] @ [(NoLock, None)] @
      [(NoLock, Some (lis_ino sock))] @ [(Release, None)] @ [(NoLock, None)])
    (start_serve sock sb, Quiet, osb)"
    by (rule irun_append [OF irun_one [OF call_start [OF sample_server_idle(3)]]
        irun_append [OF irun_one [OF unlocked_start] irun_append [OF irun_one [OF reclaim [OF ra]]
        irun_append [OF irun_one [OF bind_ok [OF b unix]]
        irun_append [OF irun_one [OF unlock_bound] irun_one [OF serve]]]]]])
  from irun_race [OF this c(1,6)]
  obtain c' where c': "race_reach ?p c'" "at 1 c' = (start_serve sock sb, Quiet, osb)"
    "same_others 1 c c'" "degraded c'" "holder c' = Some 0"
    using c(2) B(1) new by auto
  have at: "inst_srv c' 1 = start_serve sock sb" "inst_pc c' 1 = Quiet" "mach c' = osb"
    "inst_pc c' 0 = SpStopped True socketOwnerKnown" "inst_srv c' 0 = inst_srv c 0"
    using c'(2,3) c(4) by (simp_all add: at_def same_others_def)
  have path: "socketPath (inst_srv c' 0) = ?p" using at(5) c(7) by simp
  have "paths (snd (stop_unlink ?f True ?p osb)) ?p = None"
    using B(3) by (auto simp: stop_unlink_def os_Remove_def)
  then show ?thesis using c' at path serving B(2,3) by (intro exI conjI) auto
qed

end
