(* ===== verification/ServeRace.thy ===== *)
theory ServeRace
  imports Lifecycle
begin

text \<open>
  \<^verbatim>\<open>resourcesServerPort.Serve\<close> starts a goroutine that reads \<^verbatim>\<open>rsc.server\<close> only when it
  runs, outside \<^verbatim>\<open>lifecycleMu\<close>.  \<open>Lifecycle\<close> and the other theories let it take effect at
  once; here it is a move of its own, which may come late.  The state adds to a resource server
  and its machine the listeners whose goroutine has not run yet (\<open>sv_pending\<close>), the listeners the
  current gRPC server serves beside the one of its record (\<open>sv_also\<close>), and where the lifecycle
  call stands that holds \<^verbatim>\<open>lifecycleMu\<close> (\<open>sv_pc\<close>).  A move that is not possible where the
  program stands leaves the state as it is.

  Shown: whenever every goroutine runs before the next lifecycle call, even after a refused
  registration, the outcome is the one of the sequential operations; a goroutine panics only
  when \<^verbatim>\<open>Stop\<close> or \<^verbatim>\<open>Restart\<close> deletes the server before it has run; and a restart that
  overtakes it makes the next stop leave the socket path behind.
\<close>

section \<open>The two halves of a start\<close>

definition start_services :: "resourceServer \<Rightarrow> resourceServer" where
  "start_services s =
     rsc_RegisterService DevicePluginService
       (if watchMode s then rsc_RegisterService RegistrationService s else s)"

text \<open>Up to the call of \<^verbatim>\<open>Serve\<close>: the listener that call is given, or none if the bind
  failed.\<close>

definition start_open ::
  "os_env \<Rightarrow> resourceServer \<Rightarrow> osys \<Rightarrow> listener option \<times> resourceServer \<times> osys" where
  "start_open e s os =
     (let (held, os1) = lockSocketPath e (socketPath s) os;
          (s2, os2) = start_reclaim e s os1
      in case start_bind e s2 os2 of
           Inl err \<Rightarrow> (None, s2, unlockSocketPath held os2)
         | Inr (sock, s3, os3) \<Rightarrow> (Some sock, start_services s3, unlockSocketPath held os3))"

text \<open>The stop sequence when the gRPC server serves \<open>also\<close> beside the listener of its record:
  \<^verbatim>\<open>grpc.Server.Stop\<close> closes them all.\<close>

definition grpc_Stop_all ::
  "listener list \<Rightarrow> resourceServer \<Rightarrow> osys \<Rightarrow> resourceServer \<times> osys" where
  "grpc_Stop_all also s os =
     (let (s1, os1) = rsc_Stop s os in (s1, fold close_listener also os1))"

definition stop_all_listeners ::
  "os_env \<Rightarrow> listener list \<Rightarrow> resourceServer \<Rightarrow> osys \<Rightarrow> resourceServer \<times> osys" where
  "stop_all_listeners e also s os =
     (let (held, os1) = lockSocketPath e (socketPath s) os;
          (removePath, s1) = stop_check e s os1;
          (s2, os2) = grpc_Stop_all also s1 os1;
          (err, os3) = stop_unlink e removePath (socketPath s) os2
      in (s2, unlockSocketPath held os3))"

text \<open>After the call of \<^verbatim>\<open>Serve\<close>: the connection test and the registration.\<close>

definition start_refused :: "os_env \<Rightarrow> resourceServer \<Rightarrow> bool" where
  "start_refused e s \<longleftrightarrow>
     GetClientConn e (socketPath s) = None \<and> \<not> watchMode s \<and> register e s \<noteq> None"

section \<open>The moves\<close>

datatype sv_place = SvIdle | SvDropped | SvStarting

record serve_state =
  sv_srv :: resourceServer
  sv_mach :: osys
  sv_pending :: "listener list"
  sv_also :: "listener list"
  sv_pc :: sv_place

datatype serve_move =
  SvBind os_env
| SvRebind os_env
| SvRegister os_env os_env
| SvStop os_env
| SvDrop
| SvCleanup os_env
| SvServe nat

definition sv_open :: "os_env \<Rightarrow> serve_state \<Rightarrow> serve_state" where
  "sv_open e st =
     (case start_open e (sv_srv st) (sv_mach st) of
        (None, s, os) \<Rightarrow> st\<lparr>sv_srv := s, sv_mach := os, sv_also := [], sv_pc := SvIdle\<rparr>
      | (Some sock, s, os) \<Rightarrow>
          st\<lparr>sv_srv := s, sv_mach := os, sv_pending := sv_pending st @ [sock], sv_also := [],
             sv_pc := SvStarting\<rparr>)"

text \<open>The body of the goroutine.  A \<^verbatim>\<open>grpc.Server\<close> that was stopped closes the listener it is
  given; calling \<^verbatim>\<open>Serve\<close> of the nil server panics.\<close>

definition sv_serve :: "listener \<Rightarrow> serve_state \<Rightarrow> serve_state outcome" where
  "sv_serve l st =
     (case rsc_GetServer (sv_srv st) of
        None \<Rightarrow> Panics
      | Some g \<Rightarrow>
          if grpc_stopped g then Returns (st\<lparr>sv_mach := close_listener l (sv_mach st)\<rparr>)
          else if serving g = None then Returns (st\<lparr>sv_srv := rsc_Serve l (sv_srv st)\<rparr>)
          else Returns (st\<lparr>sv_also := sv_also st @ [l]\<rparr>))"

definition remove_at :: "nat \<Rightarrow> 'a list \<Rightarrow> 'a list" where
  "remove_at k xs = take k xs @ drop (Suc k) xs"

fun sv_move :: "serve_move \<Rightarrow> serve_state \<Rightarrow> serve_state outcome" where
  "sv_move (SvBind e) st =
     Returns (if sv_pc st = SvIdle then sv_open e st else st)"
| "sv_move (SvRebind e) st =
     Returns (if sv_pc st = SvDropped then sv_open e st else st)"
| "sv_move (SvRegister e e2) st =
     Returns
       (if sv_pc st \<noteq> SvStarting then st
        else if start_refused e (sv_srv st) then
          (let (s, os) = stop_all_listeners e2 (sv_also st) (sv_srv st) (sv_mach st)
           in st\<lparr>sv_srv := s, sv_mach := os, sv_also := [], sv_pc := SvIdle\<rparr>)
        else st\<lparr>sv_pc := SvIdle\<rparr>)"
| "sv_move (SvStop e) st =
     Returns
       (if sv_pc st \<noteq> SvIdle \<or> rsc_GetServer (sv_srv st) = None then st
        else
          (let (s, os) = stop_all_listeners e (sv_also st) (sv_srv st) (sv_mach st)
           in st\<lparr>sv_srv := rsc_DeleteServer s, sv_mach := os, sv_also := []\<rparr>))"
| "sv_move SvDrop st =
     Returns
       (if sv_pc st \<noteq> SvIdle \<or> rsc_GetServer (sv_srv st) = None then st
        else
          (let (s, os) = grpc_Stop_all (sv_also st) (sv_srv st) (sv_mach st)
           in st\<lparr>sv_srv := rsc_DeleteServer s, sv_mach := os, sv_also := [],
                 sv_pc := SvDropped\<rparr>))"
| "sv_move (SvCleanup e) st =
     Returns
       (if sv_pc st \<noteq> SvIdle then st
        else (let (_, s, os) = cleanup e (sv_srv st) (sv_mach st)
              in st\<lparr>sv_srv := s, sv_mach := os\<rparr>))"
| "sv_move (SvServe k) st =
     (if k < length (sv_pending st)
      then sv_serve (sv_pending st ! k) (st\<lparr>sv_pending := remove_at k (sv_pending st)\<rparr>)
      else Returns st)"

fun serve_run :: "serve_move list \<Rightarrow> serve_state \<Rightarrow> serve_state outcome" where
  "serve_run [] st = Returns st"
| "serve_run (m # ms) st =
     (case sv_move m st of Panics \<Rightarrow> Panics | Returns st' \<Rightarrow> serve_run ms st')"

definition at_rest :: "resourceServer \<times> osys \<Rightarrow> serve_state" where
  "at_rest c = \<lparr>sv_srv = fst c, sv_mach = snd c, sv_pending = [], sv_also = [], sv_pc = SvIdle\<rparr>"

section \<open>Prompt schedules\<close>

lemma start_serve_split: "start_serve sock s = rsc_Serve sock (start_services s)"
  by (simp add: start_serve_def start_services_def Let_def)

lemma stop_all_nil:
  "stop_all_listeners e [] s os = snd (stopAndRemoveOwnedSocketLocked e s os)"
  by (simp add: stop_all_listeners_def stopAndRemoveOwnedSocketLocked_def grpc_Stop_all_def
      split: prod.split)

lemma start_services_server:
  assumes "rsc_GetServer s = Some \<lparr>services = [], serving = None, grpc_stopped = False\<rparr>"
  shows "\<exists>sv. rsc_GetServer (start_services s) =
    Some \<lparr>services = sv, serving = None, grpc_stopped = False\<rparr>"
  using assms
  by (auto simp: start_services_def rsc_RegisterService_def rsc_GetServer_def split: option.splits)

text \<open>What a server shows to the registration does not depend on what it serves.\<close>

lemma start_refused_Serve: "start_refused e (rsc_Serve l s) = start_refused e s"
  by (auto simp: start_refused_def rsc_Serve_def register_def split: option.splits)

lemma startLocked_halves:
  "snd (startLocked e e2 s os) =
     (case start_open e s os of
        (None, s2, os2) \<Rightarrow> (s2, os2)
      | (Some sock, s3, os3) \<Rightarrow>
          if start_refused e (rsc_Serve sock s3)
          then snd (stopAndRemoveOwnedSocketLocked e2 (rsc_Serve sock s3) os3)
          else (rsc_Serve sock s3, os3))"
  by (auto simp: startLocked_def start_open_def start_refused_def start_serve_split Let_def
      split: prod.splits sum.splits option.splits)

lemma start_open_server:
  assumes "start_open e s os = (Some sock, s3, os3)"
  shows "\<exists>sv. rsc_GetServer s3 = Some \<lparr>services = sv, serving = None, grpc_stopped = False\<rparr>"
proof -
  obtain held os1 where l: "lockSocketPath e (socketPath s) os = (held, os1)" by force
  obtain s2 os2 where rc: "start_reclaim e s os1 = (s2, os2)" by force
  obtain s4 os4 where b: "start_bind e s2 os2 = Inr (sock, s4, os4)" "s3 = start_services s4"
    using assms by (auto simp: start_open_def l rc split: sum.splits)
  show ?thesis
    using start_reclaim_state [OF rc] start_bind_Inr [OF b(1)] start_services_server [of s4] b(2)
    by simp
qed

lemma close_unlink_commute:
  "stop_unlink e b p (close_listener l os) = (err', os2) \<Longrightarrow>
   stop_unlink e b p os = (err, os1) \<Longrightarrow> close_listener l os1 = os2"
  by (auto simp: stop_unlink_def os_Remove_def close_listener_def fun_upd_twist
      split: if_splits option.splits)

lemma unlock_close:
  "unlockSocketPath held (close_listener l os) = close_listener l (unlockSocketPath held os)"
  by (cases held) (simp_all add: unlockSocketPath_def close_listener_def)

text \<open>A goroutine that runs only after the refused start has stopped the server: the server closes
  the listener then, and the machine is as if it had been closed by the stop.\<close>

lemma refused_start_serves_late:
  assumes g: "rsc_GetServer s = Some \<lparr>services = sv, serving = None, grpc_stopped = False\<rparr>"
    and late: "snd (stopAndRemoveOwnedSocketLocked e s os) = (s1, os1)"
  shows "snd (stopAndRemoveOwnedSocketLocked e (rsc_Serve l s) os) = (s1, close_listener l os1) \<and>
    (\<exists>g1. rsc_GetServer s1 = Some g1 \<and> grpc_stopped g1)"
proof -
  obtain r where late': "stopAndRemoveOwnedSocketLocked e s os = (r, s1, os1)"
    using late by (cases "stopAndRemoveOwnedSocketLocked e s os") auto
  obtain r' s1' os1' where prompt:
    "stopAndRemoveOwnedSocketLocked e (rsc_Serve l s) os = (r', s1', os1')"
    by (cases "stopAndRemoveOwnedSocketLocked e (rsc_Serve l s) os") auto
  have serve: "rsc_Serve l s = s\<lparr>rsConnector := Some (Some
      \<lparr>services = sv, serving = Some l, grpc_stopped = False\<rparr>)\<rparr>"
    using g by (simp add: rsc_Serve_def)
  obtain held osl where L: "lockSocketPath e (socketPath s) os = (held, osl)" by force
  have check: "shouldRemoveSocketPathLocked e (rsc_Serve l s) osl = shouldRemoveSocketPathLocked e s osl"
    by (simp add: serve shouldRemoveSocketPathLocked_def split: socket_owner.split)
  obtain a3 where A: "s1 = fst (rsc_Stop (clearSocketOwnershipLocked s) osl)"
    "stop_unlink e (shouldRemoveSocketPathLocked e s osl) (socketPath s) osl = (r, a3)"
    "os1 = unlockSocketPath held a3"
  proof (rule stopAndRemove_parts [OF late'])
    fix held' osl' os2 os3
    assume "lockSocketPath e (socketPath s) os = (held', osl')"
      "s1 = fst (rsc_Stop (clearSocketOwnershipLocked s) osl')" "os2 = snd (rsc_Stop s osl')"
      "stop_unlink e (shouldRemoveSocketPathLocked e s osl') (socketPath s) os2 = (r, os3)"
      "os1 = unlockSocketPath held' os3"
    then show thesis using that [of os3] L g by (simp add: rsc_Stop_os own_listener_def)
  qed
  obtain b3 where B: "s1' = fst (rsc_Stop (clearSocketOwnershipLocked (rsc_Serve l s)) osl)"
    "stop_unlink e (shouldRemoveSocketPathLocked e s osl) (socketPath s) (close_listener l osl)
       = (r', b3)" "os1' = unlockSocketPath held b3"
  proof (rule stopAndRemove_parts [OF prompt])
    fix held' osl' os2 os3
    assume "lockSocketPath e (socketPath (rsc_Serve l s)) os = (held', osl')"
      "s1' = fst (rsc_Stop (clearSocketOwnershipLocked (rsc_Serve l s)) osl')"
      "os2 = snd (rsc_Stop (rsc_Serve l s) osl')"
      "stop_unlink e (shouldRemoveSocketPathLocked e (rsc_Serve l s) osl')
         (socketPath (rsc_Serve l s)) os2 = (r', os3)"
      "os1' = unlockSocketPath held' os3"
    moreover have "own_listener (rsc_Serve l s) = Some l"
      using g by (intro own_listener_Serve) simp
    moreover have "socketPath (rsc_Serve l s) = socketPath s" by (simp add: serve)
    ultimately show thesis using that [of os3] L check by (simp add: rsc_Stop_os)
  qed
  have "close_listener l a3 = b3" by (rule close_unlink_commute [OF B(2) A(2)])
  then have "os1' = close_listener l os1" by (simp add: A(3) B(3) flip: unlock_close)
  moreover have "s1' = s1" "\<exists>g1. rsc_GetServer s1 = Some g1 \<and> grpc_stopped g1"
    using g by (simp_all add: A(1) B(1) serve rsc_Stop_def rsc_GetServer_def
        clearSocketOwnershipLocked_def split: option.splits)
  ultimately show ?thesis using prompt by simp
qed

lemma sv_open_then:
  assumes "start_open e s os = (Some sock, s3, os3)"
  shows "sv_open e (at_rest (s, os)\<lparr>sv_pc := pc\<rparr>) =
    \<lparr>sv_srv = s3, sv_mach = os3, sv_pending = [sock], sv_also = [], sv_pc = SvStarting\<rparr>"
  using assms by (simp add: sv_open_def at_rest_def)

lemma sv_open_failed:
  assumes "start_open e s os = (None, s2, os2)"
  shows "sv_open e (at_rest (s, os)\<lparr>sv_pc := pc\<rparr>) = at_rest (s2, os2)"
  using assms by (simp add: sv_open_def at_rest_def)

text \<open>The rest of a start, with the goroutine before or after the registration.\<close>

definition start_rest :: "bool \<Rightarrow> os_env \<Rightarrow> os_env \<Rightarrow> serve_move list" where
  "start_rest late e e2 =
     (if late then [SvRegister e e2, SvServe 0] else [SvServe 0, SvRegister e e2])"

lemma start_rest_sequential:
  "serve_run (start_rest late e e2) (sv_open e (at_rest (s, os)\<lparr>sv_pc := pc\<rparr>)) =
     Returns (at_rest (snd (startLocked e e2 s os)))"
proof (cases "start_open e s os")
  case (fields sock s3 os3)
  show ?thesis
  proof (cases sock)
    case None
    then show ?thesis
      using fields sv_open_failed [of e s os s3 os3 pc] startLocked_halves [of e e2 s os]
      by (simp add: start_rest_def at_rest_def)
  next
    case (Some l)
    then have op: "start_open e s os = (Some l, s3, os3)" using fields by simp
    obtain sv where g: "rsc_GetServer s3 = Some \<lparr>services = sv, serving = None, grpc_stopped = False\<rparr>"
      using start_open_server [OF op] by blast
    obtain s5 os5 where late: "snd (stopAndRemoveOwnedSocketLocked e2 s3 os3) = (s5, os5)" by force
    note R = refused_start_serves_late [OF g late, of l]
    show ?thesis
      unfolding sv_open_then [OF op] startLocked_halves op
      using R late
      by (auto simp: start_rest_def remove_at_def sv_serve_def g start_refused_Serve stop_all_nil
          at_rest_def)
  qed
qed

fun call_moves :: "lifecycle_call \<times> bool \<Rightarrow> serve_move list" where
  "call_moves (CallStart e e2, late) = SvBind e # start_rest late e e2"
| "call_moves (CallRestart e e2, late) = SvDrop # SvRebind e # start_rest late e e2"
| "call_moves (CallStop e, late) = [SvStop e]"
| "call_moves (CallCleanup e, late) = [SvCleanup e]"

lemma serve_run_append:
  "serve_run (xs @ ys) st = (case serve_run xs st of Panics \<Rightarrow> Panics | Returns st' \<Rightarrow> serve_run ys st')"
  by (induction xs arbitrary: st) (auto split: outcome.splits)

lemma call_moves_sequential:
  "serve_run (call_moves (c, late)) (at_rest a) = Returns (at_rest (lifecycle_apply c a))"
proof (cases a)
  case (Pair s os)
  show ?thesis
  proof (cases c)
    case (CallStart e e2)
    then show ?thesis
      using start_rest_sequential [of late e e2 SvIdle s os] by (simp add: Pair at_rest_def)
  next
    case (CallStop e)
    then show ?thesis
      by (auto simp: Pair at_rest_def stop_all_nil stopLocked_def rsc_GetServer_def
          split: prod.splits option.splits)
  next
    case (CallRestart e e2)
    show ?thesis
    proof (cases "rsc_GetServer s = None")
      case True
      have "serve_run (start_rest late e e2) (at_rest (s, os)) = Returns (at_rest (s, os))"
        by (simp add: start_rest_def at_rest_def)
      then show ?thesis using True by (simp add: CallRestart Pair Restart_def at_rest_def)
    next
      case False
      then have con: "rsConnector s \<noteq> None" by (auto simp: rsc_GetServer_def split: option.splits)
      obtain s1 os1 where st: "rsc_Stop s os = (s1, os1)" by force
      show ?thesis
        using start_rest_sequential [of late e e2 SvDropped "rsc_DeleteServer s1" os1] False con st
        by (auto simp: CallRestart Pair Restart_def at_rest_def grpc_Stop_all_def)
    qed
  next
    case (CallCleanup e)
    then show ?thesis by (simp add: Pair at_rest_def split: prod.split)
  qed
qed

section \<open>Late goroutines\<close>

definition server_awaits :: "serve_state \<Rightarrow> bool" where
  "server_awaits st \<longleftrightarrow> sv_pending st \<noteq> [] \<longrightarrow> rsc_GetServer (sv_srv st) \<noteq> None"

text \<open>The move that deletes a server some goroutine is still to serve on.\<close>

definition overtakes :: "serve_move \<Rightarrow> serve_state \<Rightarrow> bool" where
  "overtakes m st \<longleftrightarrow>
     sv_pending st \<noteq> [] \<and> sv_pc st = SvIdle \<and> (m = SvDrop \<or> (\<exists>e. m = SvStop e))"

lemma start_open_keeps_server:
  "start_open e s os = (sock, s', os') \<Longrightarrow> rsc_GetServer s' \<noteq> None"
proof (cases sock)
  case (Some l)
  then show "start_open e s os = (sock, s', os') \<Longrightarrow> ?thesis"
    using start_open_server [of e s os l s' os'] by auto
next
  case None
  obtain held os1 where l: "lockSocketPath e (socketPath s) os = (held, os1)" by force
  obtain s2 os2 where rc: "start_reclaim e s os1 = (s2, os2)" by force
  assume "start_open e s os = (sock, s', os')"
  then have "s' = s2" using None by (auto simp: start_open_def l rc split: sum.splits)
  then show ?thesis using start_reclaim_state [OF rc] by simp
qed

lemma GetServer_Stop [simp]:
  "rsc_GetServer (fst (rsc_Stop s os)) = None \<longleftrightarrow> rsc_GetServer s = None"
  by (auto simp: rsc_Stop_def rsc_GetServer_def split: option.splits)

lemma stop_all_keeps_server:
  "rsc_GetServer (fst (stop_all_listeners e also s os)) = None \<longleftrightarrow> rsc_GetServer s = None"
proof -
  obtain held os1 where l: "lockSocketPath e (socketPath s) os = (held, os1)" by force
  have "fst (stop_all_listeners e also s os) = fst (rsc_Stop (clearSocketOwnershipLocked s) os1)"
    by (simp add: stop_all_listeners_def l stop_check_def grpc_Stop_all_def split: prod.split)
  then show ?thesis by simp
qed

lemma cleanup_keeps_server:
  "cleanup e s os = (r, s', os') \<Longrightarrow> rsc_GetServer s' = rsc_GetServer s"
  by (auto simp: cleanup_def cleanupLocked_def split: if_splits remove_answer.splits)

lemma sv_move_awaits:
  assumes "sv_move m st = Returns st'" "server_awaits st" "\<not> overtakes m st"
  shows "server_awaits st'"
proof (cases m)
  case (SvBind e)
  then show ?thesis
    using assms(1,2) start_open_keeps_server [of e "sv_srv st" "sv_mach st"]
    by (auto simp: server_awaits_def sv_open_def split: if_splits prod.splits option.splits)
next
  case (SvRebind e)
  then show ?thesis
    using assms(1,2) start_open_keeps_server [of e "sv_srv st" "sv_mach st"]
    by (auto simp: server_awaits_def sv_open_def split: if_splits prod.splits option.splits)
next
  case (SvRegister e e2)
  obtain s1 os1 where st: "stop_all_listeners e2 (sv_also st) (sv_srv st) (sv_mach st) = (s1, os1)"
    by force
  then show ?thesis
    using SvRegister assms(1,2) stop_all_keeps_server [of e2 "sv_also st" "sv_srv st" "sv_mach st"]
    by (auto simp: server_awaits_def split: if_splits)
next
  case (SvStop e)
  then show ?thesis using assms by (auto simp: server_awaits_def overtakes_def Let_def split: if_splits prod.splits)
next
  case SvDrop
  then show ?thesis using assms by (auto simp: server_awaits_def overtakes_def Let_def split: if_splits prod.splits)
next
  case (SvCleanup e)
  then show ?thesis
    using assms(1,2) cleanup_keeps_server [of e "sv_srv st" "sv_mach st"]
    by (auto simp: server_awaits_def split: if_splits prod.splits)
next
  case (SvServe k)
  then show ?thesis
    using assms(1,2)
    by (auto simp: server_awaits_def sv_serve_def rsc_Serve_def rsc_GetServer_def
        split: if_splits option.splits)
qed

lemma sv_move_no_panic:
  assumes "server_awaits st" shows "sv_move m st \<noteq> Panics"
  using assms by (cases m) (auto simp: server_awaits_def sv_serve_def split: option.splits)

lemma run_panics_overtaken:
  assumes "serve_run moves st = Panics" "server_awaits st"
  shows "\<exists>pre m post st'. moves = pre @ m # post \<and> serve_run pre st = Returns st' \<and> overtakes m st'"
  using assms
proof (induction moves arbitrary: st)
  case (Cons m ms)
  obtain st1 where m: "sv_move m st = Returns st1"
    using sv_move_no_panic [OF Cons.prems(2), of m] by (cases "sv_move m st") auto
  show ?case
  proof (cases "overtakes m st")
    case True
    then show ?thesis by (intro exI [of _ "[]"] exI [of _ m] exI [of _ ms] exI [of _ st]) simp
  next
    case False
    have "serve_run ms st1 = Panics" using Cons.prems(1) m by simp
    then obtain pre m' post st' where
      "ms = pre @ m' # post" "serve_run pre st1 = Returns st'" "overtakes m' st'"
      using Cons.IH sv_move_awaits [OF m Cons.prems(2) False] by blast
    then show ?thesis
      using m by (intro exI [of _ "m # pre"] exI [of _ m'] exI [of _ post] exI [of _ st']) simp
  qed
qed simp

section \<open>Properties\<close>

text \<open>C26: Starting to serve in a goroutine is harmless as long as the goroutine runs before the
  next lifecycle call: for every sequence of starts, stops, restarts and clean-ups, with each
  goroutine running before or after the registration of its start, successful or refused,
  nothing panics and server and machine end where the operations in which \<^verbatim>\<open>Serve\<close> takes effect
  at once leave them.\<close>

theorem prompt_serve_is_sequential:
  "serve_run (concat (map call_moves calls)) (at_rest (s, os)) =
     Returns (at_rest (fold lifecycle_apply (map fst calls) (s, os)))"
proof (induction calls arbitrary: s os)
  case (Cons c calls)
  obtain s1 os1 where c: "lifecycle_apply (fst c) (s, os) = (s1, os1)" by force
  then show ?case
    using call_moves_sequential [of "fst c" "snd c" "(s, os)"] Cons.IH [of s1 os1]
    by (simp add: serve_run_append)
qed simp

text \<open>A start whose goroutine has not run, then a stop, then the goroutine.\<close>

lemma stopped_before_serve:
  assumes "start_open e s os = (Some l, s1, os1)"
  shows "serve_run [SvBind e, SvRegister e e2, SvStop e3, SvServe 0] (at_rest (s, os)) = Panics"
proof -
  let ?st = "\<lparr>sv_srv = s1, sv_mach = os1, sv_pending = [l], sv_also = [], sv_pc = SvStarting\<rparr>"
  have b: "sv_move (SvBind e) (at_rest (s, os)) = Returns ?st"
    using sv_open_then [OF assms, of SvIdle] by (simp add: at_rest_def)
  have up: "rsc_GetServer s1 \<noteq> None" using start_open_keeps_server [OF assms] .
  obtain s2 os2 where r: "sv_move (SvRegister e e2) ?st = Returns \<lparr>sv_srv = s2, sv_mach = os2,
      sv_pending = [l], sv_also = [], sv_pc = SvIdle\<rparr>" "rsc_GetServer s2 \<noteq> None"
  proof (cases "start_refused e s1")
    case True
    obtain s2 os2 where st: "stop_all_listeners e2 [] s1 os1 = (s2, os2)" by force
    show thesis
      by (rule that [of s2 os2]) (use True st up stop_all_keeps_server [of e2 "[]" s1 os1] in simp_all)
  next
    case False
    then show thesis using up by (intro that [of s1 os1]) simp_all
  qed
  obtain s3 os3 where "stop_all_listeners e3 [] s2 os2 = (s3, os3)" by force
  then show ?thesis using b r by (simp add: sv_serve_def remove_at_def)
qed

text \<open>C27: The goroutine panics, and takes the plugin down, only when a stop or a restart has deleted
  the gRPC server while some start's goroutine had not run yet; no other order of lifecycle calls
  and goroutines does, whatever fails in them.\<close>

theorem serve_panics_only_when_overtaken:
  assumes "serve_run moves (at_rest (s, os)) = Panics"
  shows "\<exists>pre m post st. moves = pre @ m # post \<and> serve_run pre (at_rest (s, os)) = Returns st \<and>
    sv_pending st \<noteq> [] \<and> sv_pc st = SvIdle \<and> (m = SvDrop \<or> (\<exists>e. m = SvStop e))"
  using run_panics_overtaken [OF assms] by (simp add: server_awaits_def at_rest_def overtakes_def)

lemma sample_open:
  "\<exists>l s1 os1. start_open (sample_env 42) (sample_server False False) sample_os = (Some l, s1, os1)"
proof -
  obtain s1 os1 where
    "startLocked (sample_env 42) (sample_env 0) (sample_server False False) sample_os = (None, s1, os1)"
    using sample_startLocked [of sample_os "sample_server False False" 42 "sample_env 0"] by auto
  then show ?thesis
    by (rule startLocked_None) (simp add: start_open_def)
qed

lemma serve_panics_only_when_overtaken_witness:
  "\<exists>pre m post. [SvBind (sample_env 42), SvRegister (sample_env 42) (sample_env 0),
      SvStop (sample_env 0), SvServe 0] = pre @ m # post \<and> (m = SvDrop \<or> (\<exists>e. m = SvStop e))"
proof -
  obtain l s1 os1 where
    "start_open (sample_env 42) (sample_server False False) sample_os = (Some l, s1, os1)"
    using sample_open by blast
  then show ?thesis
    using serve_panics_only_when_overtaken [OF stopped_before_serve, of "sample_env 42"
        "sample_server False False" sample_os l s1 os1 "sample_env 0" "sample_env 0"] by blast
qed

text \<open>A start that succeeds, in two halves.\<close>

lemma startLocked_None_halves:
  assumes "startLocked e e2 s os = (None, s', os')"
  obtains l s3 where "start_open e s os = (Some l, s3, os')" "s' = rsc_Serve l s3"
    "\<not> start_refused e s3"
proof -
  obtain held os1 s2 os2 sock s3 os3 where p:
    "lockSocketPath e (socketPath s) os = (held, os1)" "start_reclaim e s os1 = (s2, os2)"
    "start_bind e s2 os2 = Inr (sock, s3, os3)" "s' = start_serve sock s3"
    "os' = unlockSocketPath held os3"
    using assms by (rule startLocked_None)
  have "\<not> start_refused e (start_serve sock s3)"
    using assms p by (auto simp: startLocked_def start_refused_def Let_def split: option.splits prod.splits if_splits)
  then show thesis
    using p that [of sock "start_services s3"]
    by (simp add: start_open_def start_serve_split start_refused_Serve)
qed

lemma restart_overtakes:
  assumes "startLocked e e2 s os = (None, sa, osa)" "e_capture e = CapFstat"
    and "e_listen e' = Inr ino" "e_remove e' = None" "e_NewClient e' = (\<lambda>t. None)"
    and "e_Register e' = (\<lambda>r. None)" "e_capture e' = CapFstat"
  shows "\<exists>l1 l2 s5 osb. serve_run [SvBind e, SvRegister e e2, SvDrop, SvRebind e', SvRegister e' e2'] (at_rest (s, os)) =
      Returns \<lparr>sv_srv = s5, sv_mach = osb, sv_pending = [l1, l2], sv_also = [], sv_pc = SvIdle\<rparr> \<and>
    (\<exists>sv. rsc_GetServer s5 = Some \<lparr>services = sv, serving = None, grpc_stopped = False\<rparr>) \<and>
    socketPath s5 = socketPath s \<and> socketOwner s5 = socketOwnerKnown \<and> socketIno s5 = ino \<and>
    \<not> lis_unlink_on_close l1 \<and> \<not> lis_unlink_on_close l2 \<and> lis_ino l2 = ino \<and>
    paths osb (socketPath s) = Some (SockNode ino) \<and>
    unix_rows osb = unix_rows os @ [(lis_ino l1, socketPath s), (ino, socketPath s)]"
proof -
  obtain l1 s3 where o1: "start_open e s os = (Some l1, s3, osa)" "sa = rsc_Serve l1 s3"
    "\<not> start_refused e s3"
    using assms(1) by (rule startLocked_None_halves)
  obtain sv where g1: "rsc_GetServer s3 = Some \<lparr>services = sv, serving = None, grpc_stopped = False\<rparr>"
    using start_open_server [OF o1(1)] by blast
  have l1: "own_listener sa = Some l1" using g1 o1(2) own_listener_Serve [of s3 l1] by simp
  note A = startLocked_None_state [OF assms(1)]
  obtain s3' where drop: "rsc_Stop s3 osa = (s3', osa)" using g1 by (simp add: rsc_Stop_def)
  let ?s4 = "rsc_DeleteServer s3'"
  have same3: "same_server s s3"
    using A o1(2) by (auto simp: same_server_def rsc_Serve_def g1)
  then have path4: "socketPath ?s4 = socketPath s"
    using same_server_updates(6) [of s3 osa] drop by (simp add: same_server_def rsc_DeleteServer_def)
  obtain r s5' osb where st2: "startLocked e' e2' ?s4 osa = (r, s5', osb)"
    by (cases "startLocked e' e2' ?s4 osa") auto
  have "r = None" by (rule startLocked_good [OF _ assms(3,5,6) st2]) (simp add: assms(4))
  then have st2: "startLocked e' e2' ?s4 osa = (None, s5', osb)" using st2 by simp
  obtain l2 s5 where o2: "start_open e' ?s4 osa = (Some l2, s5, osb)" "s5' = rsc_Serve l2 s5"
    "\<not> start_refused e' s5"
    using st2 by (rule startLocked_None_halves)
  obtain sv5 where g5: "rsc_GetServer s5 = Some \<lparr>services = sv5, serving = None, grpc_stopped = False\<rparr>"
    using start_open_server [OF o2(1)] by blast
  have l2: "own_listener s5' = Some l2" using g5 o2(2) own_listener_Serve [of s5 l2] by simp
  note B = startLocked_None_state [OF st2]
  have s5: "socketPath s5 = socketPath s5'" "socketOwner s5 = socketOwner s5'" "socketIno s5 = socketIno s5'"
    by (simp_all add: o2(2) rsc_Serve_def g5)
  have run: "serve_run [SvBind e, SvRegister e e2, SvDrop, SvRebind e', SvRegister e' e2'] (at_rest (s, os)) =
      Returns \<lparr>sv_srv = s5, sv_mach = osb, sv_pending = [l1, l2], sv_also = [], sv_pc = SvIdle\<rparr>"
    using o1(1,3) o2(1,3) g1 drop by (simp add: at_rest_def sv_open_def grpc_Stop_all_def)
  have A': "\<not> lis_unlink_on_close l1" "unix_rows osa = unix_rows os @ [(lis_ino l1, socketPath s)]"
    using A l1 assms(2) by simp_all
  have B': "lis_ino l2 = ino" "\<not> lis_unlink_on_close l2" "socketPath s5' = socketPath s"
    "paths osb (socketPath s) = Some (SockNode ino)" "socketOwner s5' = socketOwnerKnown"
    "socketIno s5' = ino" "unix_rows osb = unix_rows osa @ [(ino, socketPath s)]"
    using B l2 assms(3,7) path4 by (simp_all add: same_server_def)
  show ?thesis
    by (rule exI [of _ l1], rule exI [of _ l2], rule exI [of _ s5], rule exI [of _ osb])
      (simp only: run s5 g5 A' B' append_assoc append_Cons append_Nil simp_thms option.inject
        grpcServer.ext_inject)
qed

text \<open>C28: A restart that overtakes the goroutine of the start before it leaks the path: both
  listeners end up on the new gRPC server, the kernel lists two sockets on the path, the
  ownership check of the next stop fails, and the socket file stays behind with nobody
  listening on it.\<close>

theorem late_serve_strands_socket:
  assumes "startLocked e e2 s os = (None, sa, osa)" "e_capture e = CapFstat"
    and "e_listen e' = Inr ino" "e_remove e' = None" "e_NewClient e' = (\<lambda>t. None)"
    and "e_Register e' = (\<lambda>r. None)" "e_capture e' = CapFstat"
    and "rows_clean (unix_rows os)" "go_Fields (socketPath s) = [socketPath s]"
    and "proc_format (e_proc_net_unix e3)"
  shows "\<exists>st. serve_run [SvBind e, SvRegister e e2, SvDrop, SvRebind e', SvRegister e' e2',
      SvServe 0, SvServe 0, SvStop e3] (at_rest (s, os)) = Returns st \<and>
    sv_pending st = [] \<and> rsc_GetServer (sv_srv st) = None \<and>
    paths (sv_mach st) (socketPath s) = Some (SockNode ino) \<and> ino \<notin> fst ` set (unix_rows (sv_mach st))"
proof -
  obtain l1 l2 s5 osb sv where R: "serve_run [SvBind e, SvRegister e e2, SvDrop, SvRebind e', SvRegister e' e2'] (at_rest (s, os)) =
      Returns \<lparr>sv_srv = s5, sv_mach = osb, sv_pending = [l1, l2], sv_also = [], sv_pc = SvIdle\<rparr>"
    "rsc_GetServer s5 = Some \<lparr>services = sv, serving = None, grpc_stopped = False\<rparr>"
    "socketPath s5 = socketPath s" "socketOwner s5 = socketOwnerKnown" "socketIno s5 = ino"
    "\<not> lis_unlink_on_close l1" "\<not> lis_unlink_on_close l2" "lis_ino l2 = ino"
    "paths osb (socketPath s) = Some (SockNode ino)"
    "unix_rows osb = unix_rows os @ [(lis_ino l1, socketPath s), (ino, socketPath s)]"
    using restart_overtakes [OF assms(1-7), of e2'] by blast
  let ?s6 = "rsc_Serve l1 s5"
  have g6: "rsc_GetServer ?s6 = Some \<lparr>services = sv, serving = Some l1, grpc_stopped = False\<rparr>"
    using R(2) by (simp add: rsc_Serve_def rsc_GetServer_def)
  have s6: "socketPath ?s6 = socketPath s" "socketOwner ?s6 = socketOwnerKnown"
    using R(2-4) by (simp_all add: rsc_Serve_def)
  obtain held os1 where L: "lockSocketPath e3 (socketPath s) osb = (held, os1)" by force
  have clean: "rows_clean (unix_rows os1)"
    using assms(8,9) R(10) lock_frame [OF L] by (auto simp: rows_clean_def)
  have keep: "\<not> shouldRemoveSocketPathLocked e3 ?s6 os1"
    using shouldRemove_known_iff [OF assms(10) clean s6(2)] s6(1) R(10) lock_frame [OF L] by simp
  let ?os2 = "close_listener l2 (close_listener l1 os1)"
  have stop: "stop_all_listeners e3 [l2] ?s6 osb =
      (fst (rsc_Stop (clearSocketOwnershipLocked ?s6) os1), unlockSocketPath held ?os2)"
    using g6 s6 keep L
    by (simp add: stop_all_listeners_def stop_check_def grpc_Stop_all_def rsc_Stop_os
        own_listener_def stop_unlink_def prod_eq_iff split_beta)
  have "serve_run [SvServe 0, SvServe 0, SvStop e3]
      \<lparr>sv_srv = s5, sv_mach = osb, sv_pending = [l1, l2], sv_also = [], sv_pc = SvIdle\<rparr> =
    Returns \<lparr>sv_srv = rsc_DeleteServer (fst (rsc_Stop (clearSocketOwnershipLocked ?s6) os1)),
      sv_mach = unlockSocketPath held ?os2, sv_pending = [], sv_also = [], sv_pc = SvIdle\<rparr>"
    using g6 R(2) stop by (simp add: sv_serve_def remove_at_def)
  then have run: "serve_run [SvBind e, SvRegister e e2, SvDrop, SvRebind e', SvRegister e' e2',
      SvServe 0, SvServe 0, SvStop e3] (at_rest (s, os)) =
    Returns \<lparr>sv_srv = rsc_DeleteServer (fst (rsc_Stop (clearSocketOwnershipLocked ?s6) os1)),
      sv_mach = unlockSocketPath held ?os2, sv_pending = [], sv_also = [], sv_pc = SvIdle\<rparr>"
    using serve_run_append [of "[SvBind e, SvRegister e e2, SvDrop, SvRebind e', SvRegister e' e2']"
        "[SvServe 0, SvServe 0, SvStop e3]" "at_rest (s, os)"]
    by (simp only: R(1) append.simps outcome.case)
  have path: "paths (unlockSocketPath held ?os2) (socketPath s) = Some (SockNode ino)"
    using R(6,7,9) lock_frame [OF L] by (simp add: close_listener_def)
  have gone: "ino \<notin> fst ` set (unix_rows (unlockSocketPath held ?os2))"
    using R(8) by (auto simp: close_listener_def)
  show ?thesis using run path gone by simp
qed

lemma late_serve_strands_socket_witness:
  "\<exists>st. serve_run [SvBind (sample_env 42), SvRegister (sample_env 42) (sample_env 0), SvDrop,
      SvRebind (sample_env 43), SvRegister (sample_env 43) (sample_env 0), SvServe 0, SvServe 0,
      SvStop (sample_env 0)] (at_rest (sample_server False False, sample_os)) = Returns st \<and>
    paths (sv_mach st) (socketPath (sample_server False False)) = Some (SockNode 43)"
proof -
  obtain sa osa where st:
    "startLocked (sample_env 42) (sample_env 0) (sample_server False False) sample_os = (None, sa, osa)"
    using sample_startLocked [of sample_os "sample_server False False" 42 "sample_env 0"] by auto
  have "rows_clean (unix_rows sample_os)" by (simp add: rows_clean_def)
  moreover have "e_NewClient (sample_env 43) = (\<lambda>t. None)" "e_Register (sample_env 43) = (\<lambda>r. None)"
    by (simp_all add: sample_env_def)
  ultimately obtain st' where "serve_run [SvBind (sample_env 42), SvRegister (sample_env 42)
      (sample_env 0), SvDrop, SvRebind (sample_env 43), SvRegister (sample_env 43) (sample_env 0),
      SvServe 0, SvServe 0, SvStop (sample_env 0)]
      (at_rest (sample_server False False, sample_os)) = Returns st'"
    "paths (sv_mach st') (socketPath (sample_server False False)) = Some (SockNode 43)"
    using late_serve_strands_socket [OF st sample_env_fields(5) sample_env_fields(4)
        sample_env_fields(3) _ _ sample_env_fields(5) _ sample_socket_path(2) sample_env_fields(8)]
    by metis
  then show ?thesis by (intro exI [of _ st'] conjI)
qed

end
