(* ===== verification/DeviceSelectors.thy ===== *)
theory DeviceSelectors
  imports Types
begin

text \<open>
  \<^verbatim>\<open>pkg/resources/device_selectors.go\<close> (the five selectors), \<^verbatim>\<open>IsEmptySelector\<close> of
  \<^verbatim>\<open>pkg/utils/utils.go\<close> and \<^verbatim>\<open>GetFilteredDevices\<close> of
  \<^verbatim>\<open>pkg/resources/resources_manager.go\<close>.  The locale \<open>device_selector\<close> is the contract of
  the \<^verbatim>\<open>DeviceSelector\<close> interface: \<^verbatim>\<open>Filter\<close> keeps, in order, the devices whose key is
  among the wanted values.  It is interpreted on each of the five selectors, and the
  filtering pipeline is proved from it.
\<close>

section \<open>The selectors\<close>

fun contains :: "go_string list \<Rightarrow> go_string \<Rightarrow> bool" where
  "contains [] needle = False"
| "contains (s # list) needle = (if s = needle then True else contains list needle)"

fun vendorSelector_Filter :: "go_string list \<Rightarrow> pciNetDevice list \<Rightarrow> pciNetDevice list" where
  "vendorSelector_Filter vendors [] = []"
| "vendorSelector_Filter vendors (dev # inDevices) =
     (let devVendor = GetVendor dev in
      if contains vendors devVendor then dev # vendorSelector_Filter vendors inDevices
      else vendorSelector_Filter vendors inDevices)"

fun deviceIDSelector_Filter :: "go_string list \<Rightarrow> pciNetDevice list \<Rightarrow> pciNetDevice list" where
  "deviceIDSelector_Filter devices [] = []"
| "deviceIDSelector_Filter devices (dev # inDevices) =
     (let devCode = GetDeviceID dev in
      if contains devices devCode then dev # deviceIDSelector_Filter devices inDevices
      else deviceIDSelector_Filter devices inDevices)"

fun ifNameSelector_Filter :: "go_string list \<Rightarrow> pciNetDevice list \<Rightarrow> pciNetDevice list" where
  "ifNameSelector_Filter ifNames [] = []"
| "ifNameSelector_Filter ifNames (dev # inDevices) =
     (if contains ifNames (GetIfName dev) then dev # ifNameSelector_Filter ifNames inDevices
      else ifNameSelector_Filter ifNames inDevices)"

fun driverSelector_Filter :: "go_string list \<Rightarrow> pciNetDevice list \<Rightarrow> pciNetDevice list" where
  "driverSelector_Filter drivers [] = []"
| "driverSelector_Filter drivers (dev # inDevices) =
     (let devDriver = GetDriver dev in
      if contains drivers devDriver then dev # driverSelector_Filter drivers inDevices
      else driverSelector_Filter drivers inDevices)"

fun linkTypeSelector_Filter :: "go_string list \<Rightarrow> pciNetDevice list \<Rightarrow> pciNetDevice list" where
  "linkTypeSelector_Filter linkTypes [] = []"
| "linkTypeSelector_Filter linkTypes (dev # inDevices) =
     (let lt = GetLinkType dev in
      if contains linkTypes lt then dev # linkTypeSelector_Filter linkTypes inDevices
      else linkTypeSelector_Filter linkTypes inDevices)"

lemma contains_iff [simp]: "contains list needle \<longleftrightarrow> needle \<in> set list"
  by (induction list) auto

section \<open>The DeviceSelector contract\<close>

locale device_selector =
  fixes Filter :: "go_string list \<Rightarrow> pciNetDevice list \<Rightarrow> pciNetDevice list"
    and key :: "pciNetDevice \<Rightarrow> go_string"
  assumes Filter_Nil: "Filter wanted [] = []"
    and Filter_keep: "key d \<in> set wanted \<Longrightarrow> Filter wanted (d # ds) = d # Filter wanted ds"
    and Filter_drop: "key d \<notin> set wanted \<Longrightarrow> Filter wanted (d # ds) = Filter wanted ds"
begin

lemma Filter_eq: "Filter wanted ds = filter (\<lambda>d. key d \<in> set wanted) ds"
  by (induction ds) (auto simp: Filter_Nil Filter_keep Filter_drop)

lemma Filter_subseq: "subseq (Filter wanted ds) ds"
  by (simp add: Filter_eq)

lemma Filter_append: "Filter wanted (ds @ es) = Filter wanted ds @ Filter wanted es"
  by (simp add: Filter_eq)

lemma Filter_idem: "Filter wanted (Filter wanted ds) = Filter wanted ds"
  by (simp add: Filter_eq)

lemma Filter_refines:
  assumes "set wanted \<subseteq> set wanted'"
  shows "Filter wanted (Filter wanted' ds) = Filter wanted ds"
  using assms by (auto simp: Filter_eq intro: filter_cong)

end

text \<open>Two selectors over different keys can be applied in either order.\<close>

locale selector_pair =
  a: device_selector Filter key + b: device_selector Filter' key'
  for Filter key Filter' key'
begin

lemma Filter_commute: "Filter ws (Filter' ws' ds) = Filter' ws' (Filter ws ds)"
  by (simp add: a.Filter_eq b.Filter_eq conj_commute)

end

interpretation vendor_sel: device_selector vendorSelector_Filter GetVendor
  by unfold_locales (auto simp: Let_def)

interpretation deviceID_sel: device_selector deviceIDSelector_Filter GetDeviceID
  by unfold_locales (auto simp: Let_def)

interpretation ifName_sel: device_selector ifNameSelector_Filter GetIfName
  by unfold_locales auto

interpretation driver_sel: device_selector driverSelector_Filter GetDriver
  by unfold_locales (auto simp: Let_def)

interpretation linkType_sel: device_selector linkTypeSelector_Filter GetLinkType
  by unfold_locales (auto simp: Let_def)

interpretation ifName_driver:
  selector_pair ifNameSelector_Filter GetIfName driverSelector_Filter GetDriver
  by unfold_locales

lemmas selector_Filter_eq = vendor_sel.Filter_eq deviceID_sel.Filter_eq ifName_sel.Filter_eq
  driver_sel.Filter_eq linkType_sel.Filter_eq

section \<open>IsEmptySelector and GetFilteredDevices\<close>

text \<open>
  The source walks the fields of the struct by reflection; \<open>selector_fields\<close> lists them in
  declaration order.
\<close>

definition selector_fields :: "Selectors \<Rightarrow> go_string list list" where
  "selector_fields s = [Vendors s, DeviceIDs s, Drivers s, IfNames s, LinkTypes s]"

fun all_fields_empty :: "go_string list list \<Rightarrow> bool" where
  "all_fields_empty [] = True"
| "all_fields_empty (v # vs) = (if length v > 0 then False else all_fields_empty vs)"

definition IsEmptySelector :: "Selectors \<Rightarrow> bool" where
  "IsEmptySelector s = all_fields_empty (selector_fields s)"

definition GetFilteredDevices :: "pciNetDevice list \<Rightarrow> Selectors \<Rightarrow> pciNetDevice list" where
  "GetFilteredDevices devices s =
     (let d0 = devices;
          d1 = (if length (Vendors s) > 0 then vendorSelector_Filter (Vendors s) d0 else d0);
          d2 = (if length (DeviceIDs s) > 0 then deviceIDSelector_Filter (DeviceIDs s) d1 else d1);
          d3 = (if length (Drivers s) > 0 then driverSelector_Filter (Drivers s) d2 else d2);
          d4 = (if length (IfNames s) > 0 then ifNameSelector_Filter (IfNames s) d3 else d3);
          d5 = (if length (LinkTypes s) > 0 then linkTypeSelector_Filter (LinkTypes s) d4 else d4)
      in d5)"

text \<open>
  The documented matching process: a selector that is not given is ignored; the values of one
  selector are alternatives; all given selectors must match.
\<close>

definition selector_matches :: "Selectors \<Rightarrow> pciNetDevice \<Rightarrow> bool" where
  "selector_matches s d \<longleftrightarrow>
     list_all (\<lambda>(wanted, value). wanted = [] \<or> value \<in> set wanted)
       [(Vendors s, GetVendor d), (DeviceIDs s, GetDeviceID d), (Drivers s, GetDriver d),
        (IfNames s, GetIfName d), (LinkTypes s, GetLinkType d)]"

lemma optional_Filter:
  "(if length ws > 0 then filter (\<lambda>d. k d \<in> set ws) ds else ds) =
     filter (\<lambda>d. ws = [] \<or> k d \<in> set ws) ds"
  by auto

lemma all_fields_empty_iff [simp]: "all_fields_empty vs \<longleftrightarrow> (\<forall>v \<in> set vs. v = [])"
  by (induction vs) auto

lemma IsEmptySelector_iff:
  "IsEmptySelector s \<longleftrightarrow>
     Vendors s = [] \<and> DeviceIDs s = [] \<and> Drivers s = [] \<and> IfNames s = [] \<and> LinkTypes s = []"
  by (simp add: IsEmptySelector_def selector_fields_def)

lemma GetFilteredDevices_filter:
  "GetFilteredDevices ds s = filter (selector_matches s) ds"
  unfolding GetFilteredDevices_def Let_def selector_Filter_eq optional_Filter filter_filter
  by (rule filter_cong) (auto simp: selector_matches_def)

lemma GetFilteredDevices_subset: "set (GetFilteredDevices ds s) \<subseteq> set ds"
  by (simp add: GetFilteredDevices_filter)

lemma IsEmptySelector_matches: "IsEmptySelector s \<Longrightarrow> selector_matches s d"
  by (simp add: IsEmptySelector_iff selector_matches_def)

section \<open>Properties\<close>

text \<open>C34: \<^verbatim>\<open>GetFilteredDevices\<close> keeps, in order, exactly the devices that match every selector
  list that is not empty: the lists are alternatives inside a field and conditions across
  fields, whatever order the code applies the filters in.\<close>

theorem device_pool_is_selection:
  "GetFilteredDevices devices selector =
     filter (\<lambda>d. (Vendors selector = [] \<or> GetVendor d \<in> set (Vendors selector)) \<and>
                 (DeviceIDs selector = [] \<or> GetDeviceID d \<in> set (DeviceIDs selector)) \<and>
                 (Drivers selector = [] \<or> GetDriver d \<in> set (Drivers selector)) \<and>
                 (IfNames selector = [] \<or> GetIfName d \<in> set (IfNames selector)) \<and>
                 (LinkTypes selector = [] \<or> GetLinkType d \<in> set (LinkTypes selector))) devices"
  unfolding GetFilteredDevices_filter by (rule filter_cong) (simp_all add: selector_matches_def)

end
