(* ===== verification/HostDevices.thy ===== *)
theory HostDevices
  imports Types
begin

text \<open>
  How a PCI device of the host becomes a \<^verbatim>\<open>PciNetDevice\<close>: \<^verbatim>\<open>pkg/utils/utils.go\<close>,
  \<^verbatim>\<open>pkg/resources/rdma_device_spec.go\<close>, \<^verbatim>\<open>pkg/resources/netlink_manager.go\<close> and
  \<^verbatim>\<open>pkg/resources/pci_net_device.go\<close>.

  What the kernel, netlink and the \<^verbatim>\<open>rdmamap\<close> library answer is the record \<open>host\<close>, an
  argument of every definition that asks; nothing is assumed about it.
\<close>

section \<open>The host as the code sees it\<close>

datatype file_mode = Symlink | NotSymlink

record link =
  link_name :: go_string
  EncapType :: go_string

record host =
  os_Lstat :: "go_string \<Rightarrow> file_mode result"
  os_ReadDir :: "go_string \<Rightarrow> go_string list result"
  os_Readlink :: "go_string \<Rightarrow> go_string result"
  nl_LinkByName :: "go_string \<Rightarrow> link result"
  nl_LinkSetUp :: "link \<Rightarrow> goerr option"
  rdmamap_DevicesForPcidev :: "go_string \<Rightarrow> go_string list"
  rdmamap_CharDevices :: "go_string \<Rightarrow> go_string list"

record ghwDevice =
  ghw_Address :: go_string
  ghw_ClassID :: go_string
  ghw_VendorID :: go_string
  ghw_VendorName :: go_string
  ghw_ProductID :: go_string
  ghw_ProductName :: go_string

definition netlinkManager_LinkByName :: "host \<Rightarrow> go_string \<Rightarrow> link result" where
  "netlinkManager_LinkByName h name = nl_LinkByName h name"

definition netlinkManager_LinkSetUp :: "host \<Rightarrow> link \<Rightarrow> goerr option" where
  "netlinkManager_LinkSetUp h l = nl_LinkSetUp h l"

section \<open>utils\<close>

definition sysNetDevices :: go_string where
  "sysNetDevices = ''/sys/class/net''"

definition SysBusPci :: go_string where
  "SysBusPci = ''/sys/bus/pci/devices''"

text \<open>\<^verbatim>\<open>pciInfo[9:]\<close> panics when the link target has fewer than nine bytes.\<close>

definition GetPciAddress :: "host \<Rightarrow> go_string \<Rightarrow> go_string result outcome" where
  "GetPciAddress h name =
     (let ifaceDir = path_Join [sysNetDevices, name, ''device''] in
      case os_Lstat h ifaceDir of
        Inl e \<Rightarrow> Returns (Inl (ErrLstatLink name))
      | Inr mode \<Rightarrow>
          if mode \<noteq> Symlink then Returns (Inl (ErrNoSymlink name))
          else case os_Readlink h ifaceDir of
            Inl e \<Rightarrow> Returns (Inl (ErrReadLink name))
          | Inr pciInfo \<Rightarrow>
              if length pciInfo < 9 then Panics else Returns (Inr (drop 9 pciInfo)))"

fun collect_char_devices :: "host \<Rightarrow> go_string list \<Rightarrow> go_string list" where
  "collect_char_devices h [] = []"
| "collect_char_devices h (resource # rs) =
     rdmamap_CharDevices h resource @ collect_char_devices h rs"

definition GetRdmaDevices :: "host \<Rightarrow> go_string \<Rightarrow> go_string list" where
  "GetRdmaDevices h pciAddr = collect_char_devices h (rdmamap_DevicesForPcidev h pciAddr)"

definition GetNetNames :: "host \<Rightarrow> go_string \<Rightarrow> go_string list result" where
  "GetNetNames h pciAddr =
     (let netDir = path_Join [SysBusPci, pciAddr, ''net''] in
      case os_Lstat h netDir of
        Inl e \<Rightarrow> Inl (ErrNoNetDir pciAddr)
      | Inr _ \<Rightarrow>
          (case os_ReadDir h netDir of
             Inl e \<Rightarrow> Inl (ErrReadNetDir netDir)
           | Inr names \<Rightarrow> Inr names))"

definition GetPCIDevDriver :: "host \<Rightarrow> go_string \<Rightarrow> go_string result" where
  "GetPCIDevDriver h pciAddr =
     (let driverLink = path_Join [SysBusPci, pciAddr, ''driver''] in
      case os_Readlink h driverLink of
        Inl e \<Rightarrow> Inl (ErrDriver pciAddr)
      | Inr driverInfo \<Rightarrow> Inr (path_Base driverInfo))"

section \<open>RDMA device specification\<close>

definition requiredRdmaDevices :: "go_string list" where
  "requiredRdmaDevices = [''rdma_cm'', ''umad'', ''uverbs'']"

fun specs_of :: "go_string list \<Rightarrow> DeviceSpec list" where
  "specs_of [] = []"
| "specs_of (device # ds) =
     \<lparr>HostPath = device, ContainerPath = device, Permissions = ''rwm''\<rparr> # specs_of ds"

definition rdmaDeviceSpec_Get :: "host \<Rightarrow> go_string \<Rightarrow> DeviceSpec list" where
  "rdmaDeviceSpec_Get h pciAddr = specs_of (GetRdmaDevices h pciAddr)"

fun containsRdmaDev :: "DeviceSpec list \<Rightarrow> go_string \<Rightarrow> bool" where
  "containsRdmaDev [] rdmaDev = False"
| "containsRdmaDev (devSpec # devSpecs) rdmaDev =
     (let devSpecName = snd (path_Split (HostPath devSpec)) in
      if go_Contains devSpecName rdmaDev then True else containsRdmaDev devSpecs rdmaDev)"

text \<open>The argument \<open>rdmaDevs\<close> is the receiver's field; \<open>None\<close> is the nil error.\<close>

fun VerifyRdmaSpec :: "go_string list \<Rightarrow> DeviceSpec list \<Rightarrow> goerr option" where
  "VerifyRdmaSpec [] rdmaDevSpecs = None"
| "VerifyRdmaSpec (rdmaDev # rdmaDevs) rdmaDevSpecs =
     (if \<not> containsRdmaDev rdmaDevSpecs rdmaDev then Some (ErrRdmaDevMissing rdmaDev)
      else VerifyRdmaSpec rdmaDevs rdmaDevSpecs)"

section \<open>NewPciNetDevice\<close>

definition NewPciNetDevice :: "host \<Rightarrow> go_string list \<Rightarrow> ghwDevice \<Rightarrow> pciNetDevice result" where
  "NewPciNetDevice h rdmaDevs dev =
     (let pciAddr = ghw_Address dev;
          netDevs = (case GetNetNames h pciAddr of Inl _ \<Rightarrow> [] | Inr ns \<Rightarrow> ns);
          name = (case netDevs of [] \<Rightarrow> [] | n # _ \<Rightarrow> n)
      in case GetPCIDevDriver h pciAddr of
           Inl e \<Rightarrow> Inl e
         | Inr drv \<Rightarrow>
             (case (if name \<noteq> []
                    then (case netlinkManager_LinkByName h name of
                            Inl e \<Rightarrow> Inl e | Inr l \<Rightarrow> Inr (EncapType l))
                    else Inr []) of
                Inl e \<Rightarrow> Inl e
              | Inr lt \<Rightarrow>
                  (let spec = rdmaDeviceSpec_Get h pciAddr in
                   case VerifyRdmaSpec rdmaDevs spec of
                     Some e \<Rightarrow> Inl (ErrRdmaSpecMissing pciAddr e)
                   | None \<Rightarrow>
                       Inr \<lparr>pciAddress = pciAddr, ifName = name, vendor = ghw_VendorID dev,
                            deviceID = ghw_ProductID dev, driver = drv, linkType = lt,
                            rdmaSpec = spec\<rparr>)))"

section \<open>What the definitions compute\<close>

definition has_rdma_device :: "DeviceSpec list \<Rightarrow> go_string \<Rightarrow> bool" where
  "has_rdma_device specs r \<longleftrightarrow>
     list_ex (\<lambda>s. sublist r (snd (path_Split (HostPath s)))) specs"

lemma containsRdmaDev_iff: "containsRdmaDev specs r \<longleftrightarrow> has_rdma_device specs r"
  by (induction specs) (auto simp: has_rdma_device_def go_Contains_sublist Let_def)

lemma VerifyRdmaSpec_None_iff:
  "VerifyRdmaSpec rs specs = None \<longleftrightarrow> (\<forall>r \<in> set rs. has_rdma_device specs r)"
  by (induction rs) (auto simp: containsRdmaDev_iff)

lemma VerifyRdmaSpec_first_missing:
  "VerifyRdmaSpec rs specs = Some e \<Longrightarrow>
     \<exists>as r bs. rs = as @ r # bs \<and> e = ErrRdmaDevMissing r \<and> \<not> has_rdma_device specs r \<and>
       (\<forall>a \<in> set as. has_rdma_device specs a)"
proof (induction rs)
  case Nil
  then show ?case by simp
next
  case (Cons r rs)
  show ?case
  proof (cases "has_rdma_device specs r")
    case False
    then have "r # rs = [] @ r # rs \<and> e = ErrRdmaDevMissing r \<and> \<not> has_rdma_device specs r \<and>
        (\<forall>a \<in> set []. has_rdma_device specs a)"
      using Cons.prems by (simp add: containsRdmaDev_iff)
    then show ?thesis by blast
  next
    case True
    then have "VerifyRdmaSpec rs specs = Some e"
      using Cons.prems by (simp add: containsRdmaDev_iff)
    then obtain as q bs where "rs = as @ q # bs" "e = ErrRdmaDevMissing q"
      "\<not> has_rdma_device specs q" "\<forall>a \<in> set as. has_rdma_device specs a"
      using Cons.IH by blast
    then have "r # rs = (r # as) @ q # bs \<and> e = ErrRdmaDevMissing q \<and>
        \<not> has_rdma_device specs q \<and> (\<forall>a \<in> set (r # as). has_rdma_device specs a)"
      using True by simp
    then show ?thesis by blast
  qed
qed

lemma specs_of_map:
  "specs_of ds = map (\<lambda>d. \<lparr>HostPath = d, ContainerPath = d, Permissions = ''rwm''\<rparr>) ds"
  by (induction ds) auto

lemma collect_char_devices_concat:
  "collect_char_devices h rs = concat (map (rdmamap_CharDevices h) rs)"
  by (induction rs) auto

text \<open>The first network name of a device, the empty string when it has none.\<close>

definition first_net_name :: "host \<Rightarrow> go_string \<Rightarrow> go_string" where
  "first_net_name h addr =
     (case GetNetNames h addr of Inr (n # _) \<Rightarrow> n | _ \<Rightarrow> [])"

lemma first_net_name_eq:
  "(case (case GetNetNames h addr of Inl _ \<Rightarrow> [] | Inr ns \<Rightarrow> ns) of [] \<Rightarrow> [] | n # _ \<Rightarrow> n) =
     first_net_name h addr"
  by (auto simp: first_net_name_def split: sum.splits list.splits)

lemma NewPciNetDevice_eq:
  "NewPciNetDevice h rdmaDevs dev =
     (let addr = ghw_Address dev; name = first_net_name h addr; spec = rdmaDeviceSpec_Get h addr
      in case GetPCIDevDriver h addr of
           Inl e \<Rightarrow> Inl e
         | Inr drv \<Rightarrow>
             (case (if name \<noteq> []
                    then (case nl_LinkByName h name of Inl e \<Rightarrow> Inl e | Inr l \<Rightarrow> Inr (EncapType l))
                    else Inr []) of
                Inl e \<Rightarrow> Inl e
              | Inr lt \<Rightarrow>
                  (case VerifyRdmaSpec rdmaDevs spec of
                     Some e \<Rightarrow> Inl (ErrRdmaSpecMissing addr e)
                   | None \<Rightarrow>
                       Inr \<lparr>pciAddress = addr, ifName = name, vendor = ghw_VendorID dev,
                            deviceID = ghw_ProductID dev, driver = drv, linkType = lt,
                            rdmaSpec = spec\<rparr>)))"
  unfolding NewPciNetDevice_def Let_def first_net_name_eq netlinkManager_LinkByName_def by (rule refl)

lemma NewPciNetDevice_Inr:
  assumes "NewPciNetDevice h rs dev = Inr d"
  shows "pciAddress d = ghw_Address dev \<and> vendor d = ghw_VendorID dev \<and>
    deviceID d = ghw_ProductID dev \<and> ifName d = first_net_name h (ghw_Address dev) \<and>
    GetPCIDevDriver h (ghw_Address dev) = Inr (driver d) \<and>
    (ifName d = [] \<longrightarrow> linkType d = []) \<and>
    (ifName d \<noteq> [] \<longrightarrow>
       (\<exists>l. nl_LinkByName h (ifName d) = Inr l \<and> linkType d = EncapType l)) \<and>
    rdmaSpec d = rdmaDeviceSpec_Get h (ghw_Address dev) \<and>
    (\<forall>r \<in> set rs. has_rdma_device (rdmaSpec d) r)"
  using assms
  by (auto simp: NewPciNetDevice_eq Let_def VerifyRdmaSpec_None_iff
      split: sum.splits option.splits if_splits)

lemma NewPciNetDevice_ok_iff:
  "is_ok (NewPciNetDevice h rs dev) \<longleftrightarrow>
     is_ok (GetPCIDevDriver h (ghw_Address dev)) \<and>
     (first_net_name h (ghw_Address dev) \<noteq> [] \<longrightarrow>
        is_ok (nl_LinkByName h (first_net_name h (ghw_Address dev)))) \<and>
     (\<forall>r \<in> set rs. has_rdma_device (rdmaDeviceSpec_Get h (ghw_Address dev)) r)"
  by (auto simp: NewPciNetDevice_eq Let_def VerifyRdmaSpec_None_iff [symmetric]
      split: sum.splits option.splits if_splits)

lemma rdmaDeviceSpec_Get_shape:
  "s \<in> set (rdmaDeviceSpec_Get h addr) \<Longrightarrow>
     HostPath s = ContainerPath s \<and> Permissions s = ''rwm''"
  by (auto simp: rdmaDeviceSpec_Get_def specs_of_map)

section \<open>Properties\<close>

text \<open>A host with one RDMA device, for the witnesses.\<close>

definition sample_host :: host where
  "sample_host =
     \<lparr>os_Lstat = (\<lambda>p. Inr Symlink), os_ReadDir = (\<lambda>p. Inr [''eth0'']),
      os_Readlink = (\<lambda>p. Inr ''../../../0000:03:00.0''),
      nl_LinkByName = (\<lambda>n. Inr \<lparr>link_name = n, EncapType = ''ether''\<rparr>),
      nl_LinkSetUp = (\<lambda>l. None), rdmamap_DevicesForPcidev = (\<lambda>a. [''mlx5_0'']),
      rdmamap_CharDevices = (\<lambda>r. [''/dev/infiniband/issm0'', ''/dev/infiniband/umad0'',
        ''/dev/infiniband/uverbs0'', ''/dev/infiniband/rdma_cm''])\<rparr>"

definition sample_ghw :: ghwDevice where
  "sample_ghw =
     \<lparr>ghw_Address = ''0000:03:00.0'', ghw_ClassID = ''02'', ghw_VendorID = ''15b3'',
      ghw_VendorName = ''Mellanox Technologies'', ghw_ProductID = ''1017'',
      ghw_ProductName = ''MT27800 Family [ConnectX-5]''\<rparr>"

definition sample_specs :: "DeviceSpec list" where
  "sample_specs = specs_of [''/dev/infiniband/issm0'', ''/dev/infiniband/umad0'',
     ''/dev/infiniband/uverbs0'', ''/dev/infiniband/rdma_cm'']"

definition sample_device :: pciNetDevice where
  "sample_device =
     \<lparr>pciAddress = ''0000:03:00.0'', ifName = ''eth0'', vendor = ''15b3'', deviceID = ''1017'',
      driver = ''0000:03:00.0'', linkType = ''ether'', rdmaSpec = sample_specs\<rparr>"

lemma sample_device_built: "NewPciNetDevice sample_host requiredRdmaDevices sample_ghw = Inr sample_device"
  by (simp add: NewPciNetDevice_def sample_host_def sample_device_def sample_ghw_def
      sample_specs_def requiredRdmaDevices_def GetNetNames_def GetPCIDevDriver_def
      netlinkManager_LinkByName_def rdmaDeviceSpec_Get_def GetRdmaDevices_def path_Split_def
      path_Base_def)

text \<open>C33: A device that \<^verbatim>\<open>NewPciNetDevice\<close> accepts carries the identity the PCI database and
  sysfs give it, exposes exactly the character devices of its RDMA resources, read-write and
  under their own paths, and has every required RDMA character device among them.\<close>

theorem accepted_device_is_complete:
  assumes "NewPciNetDevice h requiredRdmaDevices dev = Inr d"
  shows "GetPciAddr d = ghw_Address dev \<and> GetVendor d = ghw_VendorID dev \<and>
    GetDeviceID d = ghw_ProductID dev \<and> GetIfName d = first_net_name h (ghw_Address dev) \<and>
    GetPCIDevDriver h (ghw_Address dev) = Inr (GetDriver d) \<and>
    map HostPath (GetRdmaSpec d) =
      concat (map (rdmamap_CharDevices h) (rdmamap_DevicesForPcidev h (ghw_Address dev))) \<and>
    (\<forall>s \<in> set (GetRdmaSpec d). ContainerPath s = HostPath s \<and> Permissions s = ''rwm'') \<and>
    (\<forall>r \<in> set requiredRdmaDevices. \<exists>s \<in> set (GetRdmaSpec d).
       sublist r (snd (path_Split (HostPath s))))"
proof -
  note D = NewPciNetDevice_Inr [OF assms]
  have spec: "GetRdmaSpec d = specs_of
      (concat (map (rdmamap_CharDevices h) (rdmamap_DevicesForPcidev h (ghw_Address dev))))"
    using D by (simp add: getters rdmaDeviceSpec_Get_def GetRdmaDevices_def collect_char_devices_concat)
  have need: "\<forall>r \<in> set requiredRdmaDevices. has_rdma_device (GetRdmaSpec d) r"
    using D unfolding getters by blast
  have ids: "GetPciAddr d = ghw_Address dev" "GetVendor d = ghw_VendorID dev"
    "GetDeviceID d = ghw_ProductID dev" "GetIfName d = first_net_name h (ghw_Address dev)"
    "GetPCIDevDriver h (ghw_Address dev) = Inr (GetDriver d)"
    using D unfolding getters by blast+
  show ?thesis
    using need unfolding ids
    by (simp add: spec specs_of_map comp_def has_rdma_device_def list_ex_iff)
qed

lemma accepted_device_is_complete_witness:
  "GetPciAddr sample_device = ghw_Address sample_ghw \<and>
    (\<exists>s \<in> set (GetRdmaSpec sample_device). sublist ''uverbs'' (snd (path_Split (HostPath s))))"
proof -
  have "''uverbs'' \<in> set requiredRdmaDevices" by (simp add: requiredRdmaDevices_def)
  then show ?thesis
    using accepted_device_is_complete [OF sample_device_built] by blast
qed

text \<open>\<^verbatim>\<open>GetPciAddress\<close> returns the address after the nine bytes that sysfs puts before it,
  and panics exactly when the link of an existing interface is shorter than that.\<close>

lemma pci_address_of_link:
  assumes "os_Lstat h (path_Join [sysNetDevices, name, ''device'']) = Inr Symlink"
    and "os_Readlink h (path_Join [sysNetDevices, name, ''device'']) = Inr (up @ addr)"
    and "length up = 9"
  shows "GetPciAddress h name = Returns (Inr addr) \<and>
    (\<forall>h'. os_Lstat h' = os_Lstat h \<and>
       os_Readlink h' (path_Join [sysNetDevices, name, ''device'']) = Inr short \<longrightarrow>
       (GetPciAddress h' name = Panics \<longleftrightarrow> length short < 9))"
  using assms by (simp add: GetPciAddress_def)

lemma pci_address_of_link_witness:
  "GetPciAddress sample_host ''eth0'' = Returns (Inr ''0000:03:00.0'')"
  using pci_address_of_link [of sample_host "''eth0''" "''../../../''" "''0000:03:00.0''"]
  by (simp add: sample_host_def)

end
