(* ===== verification/Config.thy ===== *)
theory Config
  imports DeviceSelectors HostDevices ServerState
begin

text \<open>
  The state of the resource manager and the configuration half of
  \<^verbatim>\<open>pkg/resources/resources_manager.go\<close>: \<^verbatim>\<open>NewResourceManager\<close>, \<^verbatim>\<open>ReadConfig\<close>,
  \<^verbatim>\<open>ValidateConfigs\<close>, \<^verbatim>\<open>validResourceName\<close> and \<^verbatim>\<open>ValidateRdmaSystemMode\<close>.

  Reading a file, the JSON decoder, the stat of a directory and the netlink query are
  arguments.  \<^verbatim>\<open>PeriodicUpdateInterval\<close> is a \<^verbatim>\<open>time.Duration\<close>: signed nanoseconds in 64
  bits, with the wrap-around of Go's multiplication.  \<^verbatim>\<open>ValidateConfigs\<close> changes the
  configurations it has checked in place, also when it fails later.
\<close>

section \<open>The manager\<close>

record resourceManager =
  configFile :: go_string
  defaultResourcePrefix :: go_string
  kubeletRootDir :: go_string
  rmWatchMode :: bool
  configList :: "UserConfig list"
  resourceServers :: "resourceServer list"
  deviceList :: "ghwDevice list"
  rds :: "go_string list"
  PeriodicUpdateInterval :: "64 word"
  rmUseCdi :: bool

definition DefaultConfigFilePath :: go_string where
  "DefaultConfigFilePath = ''/k8s-rdma-shared-dev-plugin/config.json''"

definition rdmaHcaResourcePrefix :: go_string where
  "rdmaHcaResourcePrefix = ''rdma''"

definition nanoseconds_per_second :: "64 word" where
  "nanoseconds_per_second = 1000000000"

definition defaultPeriodicUpdateInterval :: "64 word" where
  "defaultPeriodicUpdateInterval = 60 * nanoseconds_per_second"

definition rdmaExclusive :: go_string where
  "rdmaExclusive = ''exclusive''"

text \<open>The argument is what \<^verbatim>\<open>os.Stat\<close> answers.\<close>

definition detectPluginWatchMode :: "(go_string \<Rightarrow> goerr option) \<Rightarrow> go_string \<Rightarrow> bool" where
  "detectPluginWatchMode os_Stat sockDir = (if os_Stat sockDir \<noteq> None then False else True)"

definition NewResourceManager ::
  "(go_string \<Rightarrow> goerr option) \<Rightarrow> go_string \<Rightarrow> go_string \<Rightarrow> bool \<Rightarrow> resourceManager" where
  "NewResourceManager os_Stat file root cdi =
     \<lparr>configFile = file, defaultResourcePrefix = rdmaHcaResourcePrefix, kubeletRootDir = root,
      rmWatchMode = detectPluginWatchMode os_Stat (getActiveSockDir root),
      configList = [], resourceServers = [], deviceList = [], rds = requiredRdmaDevices,
      PeriodicUpdateInterval = 0, rmUseCdi = cdi\<rparr>"

section \<open>ReadConfig\<close>

definition ReadConfig ::
  "(go_string \<Rightarrow> go_string result) \<Rightarrow> (go_string \<Rightarrow> UserConfigList result) \<Rightarrow> resourceManager \<Rightarrow>
   goerr option \<times> resourceManager"
where
  "ReadConfig os_ReadFile json_Unmarshal rm =
     (case os_ReadFile (configFile rm) of
        Inl e \<Rightarrow> (Some e, rm)
      | Inr raw \<Rightarrow>
          (case json_Unmarshal raw of
             Inl e \<Rightarrow> (Some e, rm)
           | Inr config \<Rightarrow>
               (let interval = (case CfgPeriodicUpdateInterval config of
                                  None \<Rightarrow> defaultPeriodicUpdateInterval
                                | Some x \<Rightarrow> x * nanoseconds_per_second)
                in (None, rm\<lparr>PeriodicUpdateInterval := interval,
                             configList := configList rm @ ConfigList config\<rparr>))))"

section \<open>ValidateConfigs\<close>

definition name_char :: "char \<Rightarrow> bool" where
  "name_char c \<longleftrightarrow>
     (let n = (of_char c :: nat) in
      97 \<le> n \<and> n \<le> 122 \<or> 65 \<le> n \<and> n \<le> 90 \<or> 48 \<le> n \<and> n \<le> 57 \<or> n = 95)"

definition validResourceName :: "go_string \<Rightarrow> bool" where
  "validResourceName name \<longleftrightarrow> name \<noteq> [] \<and> list_all name_char name"

fun validate_loop ::
  "go_string \<Rightarrow> (go_string \<rightharpoonup> go_string) \<Rightarrow> UserConfig list \<Rightarrow> goerr option \<times> UserConfig list" where
  "validate_loop dflt seen [] = (None, [])"
| "validate_loop dflt seen (conf # confs) =
     (if \<not> validResourceName (ResourceName conf)
      then (Some (ErrResourceName (ResourceName conf)), conf # confs)
      else if seen (ResourceName conf) \<noteq> None
      then (Some (ErrResourceExists (ResourceName conf)), conf # confs)
      else
        (let conf1 = (if ResourcePrefix conf = [] then conf\<lparr>ResourcePrefix := dflt\<rparr> else conf) in
         if RdmaHcaMax conf1 < 0 then (Some (ErrRdmaHcaMax (RdmaHcaMax conf1)), conf1 # confs)
         else
           (let isEmptySelector = IsEmptySelector (ConfSelectors conf1) in
            if isEmptySelector \<and> length (Devices conf1) = 0
            then (Some ErrNoSelectors, conf1 # confs)
            else if \<not> isEmptySelector \<and> length (Devices conf1) > 0
            then (Some ErrSelectorsAndDevices, conf1 # confs)
            else
              (let conf2 = (if isEmptySelector
                     then conf1\<lparr>ConfSelectors := (ConfSelectors conf1)\<lparr>IfNames := Devices conf1\<rparr>\<rparr>
                     else conf1);
                   (err, confs') = validate_loop dflt
                     (seen(ResourceName conf2 \<mapsto> ResourceName conf2)) confs
               in (err, conf2 # confs')))))"

definition ValidateConfigs :: "resourceManager \<Rightarrow> goerr option \<times> resourceManager" where
  "ValidateConfigs rm =
     (if sint (PeriodicUpdateInterval rm) < 0
      then (Some (ErrInterval (sint (PeriodicUpdateInterval rm))), rm)
      else if length (configList rm) < 1 then (Some ErrNoConfig, rm)
      else
        (let (err, confs) = validate_loop (defaultResourcePrefix rm) Map.empty (configList rm)
         in (err, rm\<lparr>configList := confs\<rparr>)))"

text \<open>The netlink query answers the mode, or an error by its text.\<close>

definition ValidateRdmaSystemMode :: "go_string + go_string \<Rightarrow> goerr option" where
  "ValidateRdmaSystemMode RdmaSystemGetNetnsMode =
     (case RdmaSystemGetNetnsMode of
        Inl err \<Rightarrow> if err = ''invalid argument'' then None else Some ErrNetnsModeUnknown
      | Inr mode \<Rightarrow> if mode = rdmaExclusive then Some ErrNetnsModeExclusive else None)"

section \<open>What validation accepts and what it leaves\<close>

definition config_ok :: "UserConfig \<Rightarrow> bool" where
  "config_ok conf \<longleftrightarrow>
     validResourceName (ResourceName conf) \<and> 0 \<le> RdmaHcaMax conf \<and>
     (IsEmptySelector (ConfSelectors conf) \<longleftrightarrow> Devices conf \<noteq> [])"

definition normalise :: "go_string \<Rightarrow> UserConfig \<Rightarrow> UserConfig" where
  "normalise dflt conf =
     conf\<lparr>ResourcePrefix := (if ResourcePrefix conf = [] then dflt else ResourcePrefix conf),
          ConfSelectors := (if IsEmptySelector (ConfSelectors conf)
                            then no_selectors\<lparr>IfNames := Devices conf\<rparr> else ConfSelectors conf)\<rparr>"

lemma empty_selector_record: "IsEmptySelector s \<Longrightarrow> s\<lparr>IfNames := xs\<rparr> = no_selectors\<lparr>IfNames := xs\<rparr>"
  by (cases s) (simp add: IsEmptySelector_iff no_selectors_def)

lemma normalise_eq:
  "normalise dflt conf =
     (let conf1 = (if ResourcePrefix conf = [] then conf\<lparr>ResourcePrefix := dflt\<rparr> else conf) in
      if IsEmptySelector (ConfSelectors conf1)
      then conf1\<lparr>ConfSelectors := (ConfSelectors conf1)\<lparr>IfNames := Devices conf1\<rparr>\<rparr> else conf1)"
  by (cases conf) (simp add: normalise_def empty_selector_record Let_def)

lemma normalise_fields [simp]:
  "ResourceName (normalise dflt conf) = ResourceName conf"
  "RdmaHcaMax (normalise dflt conf) = RdmaHcaMax conf"
  "Devices (normalise dflt conf) = Devices conf"
  "ResourcePrefix (normalise dflt conf) = (if ResourcePrefix conf = [] then dflt else ResourcePrefix conf)"
  by (simp_all add: normalise_def)

text \<open>One accepted configuration; a refused one ends the loop.\<close>

lemma validate_loop_accept:
  assumes "config_ok conf" "seen (ResourceName conf) = None"
  shows "validate_loop dflt seen (conf # confs) =
    map_prod id ((#) (normalise dflt conf))
      (validate_loop dflt (seen(ResourceName conf \<mapsto> ResourceName conf)) confs)"
  using assms
  by (cases "validate_loop dflt (seen(ResourceName conf \<mapsto> ResourceName conf)) confs")
     (auto simp: config_ok_def normalise_eq Let_def)

lemma validate_loop_refuse:
  assumes "\<not> (config_ok conf \<and> seen (ResourceName conf) = None)"
  shows "fst (validate_loop dflt seen (conf # confs)) \<noteq> None"
  using assms by (auto simp: config_ok_def Let_def)

declare validate_loop.simps(2) [simp del]

lemma validate_loop_None_iff:
  "fst (validate_loop dflt seen confs) = None \<longleftrightarrow>
     (\<forall>conf \<in> set confs. config_ok conf \<and> seen (ResourceName conf) = None) \<and>
     distinct (map ResourceName confs)"
proof (induction confs arbitrary: seen)
  case (Cons conf confs)
  show ?case
  proof (cases "config_ok conf \<and> seen (ResourceName conf) = None")
    case True
    then have "fst (validate_loop dflt seen (conf # confs)) = None \<longleftrightarrow>
        fst (validate_loop dflt (seen(ResourceName conf \<mapsto> ResourceName conf)) confs) = None"
      by (simp add: validate_loop_accept)
    moreover have "(\<forall>c \<in> set confs. config_ok c \<and>
          (seen(ResourceName conf \<mapsto> ResourceName conf)) (ResourceName c) = None) \<longleftrightarrow>
        (\<forall>c \<in> set confs. config_ok c \<and> seen (ResourceName c) = None) \<and>
        ResourceName conf \<notin> ResourceName ` set confs"
      by (auto simp: image_iff split: if_splits)
    ultimately show ?thesis
      unfolding Cons.IH [of "seen(ResourceName conf \<mapsto> ResourceName conf)"] using True by auto
  next
    case False
    then show ?thesis using validate_loop_refuse [of conf seen dflt confs] False by auto
  qed
qed simp

lemma validate_loop_result:
  "fst (validate_loop dflt seen confs) = None \<Longrightarrow>
     snd (validate_loop dflt seen confs) = map (normalise dflt) confs"
proof (induction confs arbitrary: seen)
  case (Cons conf confs)
  then have ok: "config_ok conf \<and> seen (ResourceName conf) = None"
    using validate_loop_refuse by blast
  then show ?case using Cons by (simp add: validate_loop_accept)
qed simp

definition configs_ok :: "resourceManager \<Rightarrow> bool" where
  "configs_ok rm \<longleftrightarrow>
     0 \<le> sint (PeriodicUpdateInterval rm) \<and> configList rm \<noteq> [] \<and>
     list_all config_ok (configList rm) \<and> distinct (map ResourceName (configList rm))"

lemma ValidateConfigs_iff:
  "ValidateConfigs rm = (None, rm') \<longleftrightarrow>
     configs_ok rm \<and>
     rm' = rm\<lparr>configList := map (normalise (defaultResourcePrefix rm)) (configList rm)\<rparr>"
  using validate_loop_None_iff [of "defaultResourcePrefix rm" Map.empty "configList rm"]
    validate_loop_result [of "defaultResourcePrefix rm" Map.empty "configList rm"]
  by (cases "validate_loop (defaultResourcePrefix rm) Map.empty (configList rm)")
     (auto simp: ValidateConfigs_def configs_ok_def list_all_iff)

lemma validate_loop_names:
  "map ResourceName (snd (validate_loop dflt seen confs)) = map ResourceName confs"
proof (induction confs arbitrary: seen)
  case (Cons conf confs)
  then show ?case
    by (auto simp: validate_loop.simps(2) Let_def split: prod.splits) (metis snd_conv)+
qed simp

text \<open>A configuration that named its devices is refused when validated again.\<close>

lemma validate_loop_again:
  assumes "distinct (map ResourceName confs)"
    and "\<forall>conf \<in> set confs. config_ok conf \<and> seen (ResourceName conf) = None"
    and "\<exists>conf \<in> set confs. Devices conf \<noteq> []"
  shows "fst (validate_loop dflt seen (map (normalise dflt) confs)) = Some ErrSelectorsAndDevices"
  using assms
proof (induction confs arbitrary: seen)
  case (Cons conf confs)
  have ok: "config_ok conf" "seen (ResourceName conf) = None" using Cons.prems(2) by simp_all
  show ?case
  proof (cases "Devices conf = []")
    case False
    then have "\<not> IsEmptySelector (ConfSelectors (normalise dflt conf))"
      using ok(1) by (auto simp: config_ok_def normalise_def IsEmptySelector_iff no_selectors_def)
    then show ?thesis
      using ok False
      by (auto simp: validate_loop.simps(2) Let_def config_ok_def)
  next
    case True
    then have "\<not> IsEmptySelector (ConfSelectors conf)" using ok(1) by (simp add: config_ok_def)
    then have okn: "config_ok (normalise dflt conf)"
      using ok(1) True by (simp add: config_ok_def normalise_def)
    have "fst (validate_loop dflt (seen(ResourceName conf \<mapsto> ResourceName conf))
        (map (normalise dflt) confs)) = Some ErrSelectorsAndDevices"
      using Cons.prems True by (intro Cons.IH) (auto simp: image_iff)
    then show ?thesis using okn ok(2) by (simp add: validate_loop_accept)
  qed
qed simp

lemma name_char_plain: "list_all name_char x \<Longrightarrow> x \<noteq> [] \<Longrightarrow> plain_name (x @ ''.sock'')"
  by (cases x) (auto simp: plain_name_def name_char_def list_all_iff Let_def)

lemma valid_name_plain: "validResourceName x \<Longrightarrow> plain_name (x @ ''.sock'')"
  by (simp add: validResourceName_def name_char_plain)

section \<open>Properties\<close>

text \<open>A configuration read from a file, for the witnesses.\<close>

definition sample_rm :: "UserConfig list \<Rightarrow> resourceManager" where
  "sample_rm confs =
     (NewResourceManager (\<lambda>d. Some (ErrExt ''no such file'')) DefaultConfigFilePath
        defaultKubeletRootDir False)\<lparr>configList := confs, PeriodicUpdateInterval := 60000000000\<rparr>"

definition device_config :: UserConfig where
  "device_config = \<lparr>ResourceName = ''hca_b'', ResourcePrefix = [], RdmaHcaMax = 5,
     Devices = [''ib0'', ''ib1''], ConfSelectors = no_selectors\<rparr>"

lemma sample_configs_ok: "config_ok sample_config" "config_ok device_config"
  by (simp_all add: config_ok_def sample_config_def device_config_def
      validResourceName_def name_char_def Let_def IsEmptySelector_iff no_selectors_def)

lemma sample_rm_ok: "configs_ok (sample_rm [sample_config, device_config])"
  using sample_configs_ok
  by (simp add: configs_ok_def sample_rm_def sample_config_def device_config_def)


text \<open>Validation is not repeatable: a configuration that named its devices is refused when
  the manager validates again, because the first pass has written them into the selectors.\<close>

lemma validating_twice_refuses_devices:
  assumes "ValidateConfigs rm = (None, rm')" "list_ex (\<lambda>conf. Devices conf \<noteq> []) (configList rm)"
  shows "fst (ValidateConfigs rm') = Some ErrSelectorsAndDevices"
proof -
  have ok: "configs_ok rm"
    and rm': "rm' = rm\<lparr>configList := map (normalise (defaultResourcePrefix rm)) (configList rm)\<rparr>"
    using assms(1) by (simp_all add: ValidateConfigs_iff)
  have "fst (validate_loop (defaultResourcePrefix rm) Map.empty
      (map (normalise (defaultResourcePrefix rm)) (configList rm))) = Some ErrSelectorsAndDevices"
    by (rule validate_loop_again)
       (use ok assms(2) in \<open>auto simp: configs_ok_def list_all_iff list_ex_iff\<close>)
  then show ?thesis
    using ok
    by (cases "validate_loop (defaultResourcePrefix rm) Map.empty
          (map (normalise (defaultResourcePrefix rm)) (configList rm))")
       (auto simp: ValidateConfigs_def configs_ok_def rm' Suc_le_eq)
qed

text \<open>C40: The update interval is the configured number of seconds exactly when that number does not
  exceed 9223372036, about 292 years, in either direction; beyond, the multiplication wraps.\<close>

theorem interval_in_seconds:
  assumes "ReadConfig os_ReadFile json_Unmarshal rm = (None, rm')"
    and "os_ReadFile (configFile rm) = Inr raw" "json_Unmarshal raw = Inr config"
    and "CfgPeriodicUpdateInterval config = Some seconds"
  shows "sint (PeriodicUpdateInterval rm') = sint seconds * 1000000000 \<longleftrightarrow>
    \<bar>sint seconds\<bar> \<le> 9223372036"
proof -
  let ?i = "seconds * nanoseconds_per_second"
  have iv: "PeriodicUpdateInterval rm' = ?i" using assms by (auto simp: ReadConfig_def)
  have wrap: "sint ?i = signed_take_bit 63 (sint seconds * 1000000000)"
    by (simp add: nanoseconds_per_second_def sint_word_ariths(3))
  have range: "- (2 ^ 63) \<le> sint ?i" "sint ?i < 2 ^ 63"
    using sint_greater_eq [of ?i] sint_less [of ?i] by simp_all
  have "signed_take_bit 63 (sint seconds * 1000000000) = sint seconds * 1000000000"
    if "\<bar>sint seconds\<bar> \<le> 9223372036"
    using that by (intro signed_take_bit_int_eq_self) auto
  then show ?thesis using wrap range unfolding iv by auto
qed

definition interval_file :: "64 word \<Rightarrow> go_string \<Rightarrow> UserConfigList result" where
  "interval_file x raw = Inr \<lparr>CfgPeriodicUpdateInterval = Some x, ConfigList = [sample_config]\<rparr>"

lemma interval_in_seconds_witness:
  "\<exists>rm'. ReadConfig (\<lambda>f. Inr []) (interval_file 30) (sample_rm []) = (None, rm') \<and>
     sint (PeriodicUpdateInterval rm') = 30000000000"
proof -
  obtain rm' where r: "ReadConfig (\<lambda>f. Inr []) (interval_file 30) (sample_rm []) = (None, rm')"
    by (simp add: ReadConfig_def interval_file_def)
  moreover have "interval_file 30 [] = Inr \<lparr>CfgPeriodicUpdateInterval = Some 30, ConfigList = [sample_config]\<rparr>"
    by (simp add: interval_file_def)
  ultimately show ?thesis
    using interval_in_seconds [of "\<lambda>f. Inr []" "interval_file 30" "sample_rm []" rm' "[]" _ "30"] by simp
qed

text \<open>Two instances: a configured interval of 18446744074 seconds,
  more than five centuries, becomes 0.29 seconds, and a negative one can turn positive; both
  pass validation.\<close>

lemma interval_wraps_around:
  "\<exists>seconds1 seconds2 rm1 rm2.
     sint seconds1 = 18446744074 \<and> sint seconds2 = - 9223372037 \<and>
     ReadConfig (\<lambda>f. Inr []) (interval_file seconds1) (sample_rm []) = (None, rm1) \<and>
     ReadConfig (\<lambda>f. Inr []) (interval_file seconds2) (sample_rm []) = (None, rm2) \<and>
     sint (PeriodicUpdateInterval rm1) = 290448384 \<and>
     sint (PeriodicUpdateInterval rm2) = 9223372036709551616 \<and>
     fst (ValidateConfigs rm1) = None \<and> fst (ValidateConfigs rm2) = None"
proof -
  have valid: "fst (ValidateConfigs (sample_rm [] \<lparr>PeriodicUpdateInterval := x,
      configList := [sample_config]\<rparr>)) = None" if "0 \<le> sint x" for x
  proof -
    have "configs_ok (sample_rm [] \<lparr>PeriodicUpdateInterval := x, configList := [sample_config]\<rparr>)"
      using sample_configs_ok(1) that by (simp add: configs_ok_def)
    then show ?thesis using ValidateConfigs_iff by (metis fst_conv)
  qed
  have i1: "sint ((18446744074 :: 64 word) * nanoseconds_per_second) = 290448384"
    and i2: "sint ((- 9223372037 :: 64 word) * nanoseconds_per_second) = 9223372036709551616"
    by (simp_all add: nanoseconds_per_second_def)
  have read: "ReadConfig (\<lambda>f. Inr []) (interval_file x) (sample_rm []) =
      (None, sample_rm [] \<lparr>PeriodicUpdateInterval := x * nanoseconds_per_second,
        configList := [sample_config]\<rparr>)" for x
    by (simp add: ReadConfig_def interval_file_def sample_rm_def NewResourceManager_def)
  show ?thesis
    using read [of 18446744074] read [of "- 9223372037"] i1 i2
      valid [of "18446744074 * nanoseconds_per_second"]
      valid [of "- 9223372037 * nanoseconds_per_second"]
    by (intro exI [of _ "18446744074 :: 64 word"] exI [of _ "- 9223372037 :: 64 word"]) simp
qed

end
