(* ===== verification/Inventory.thy ===== *)
theory Inventory
  imports ServerState
begin

text \<open>
  The device inventory of a resource server and the device-plugin calls that read it:
  \<^verbatim>\<open>UpdateDevices\<close>, \<^verbatim>\<open>devicesChanged\<close>, \<^verbatim>\<open>notifyUpdate\<close>, \<^verbatim>\<open>ListAndWatch\<close>,
  \<^verbatim>\<open>sendDevices\<close>, \<^verbatim>\<open>updateCDISpec\<close>, \<^verbatim>\<open>Allocate\<close> and the constant answers of
  \<^verbatim>\<open>pkg/resources/server.go\<close>.  \<open>inventory_ok\<close> is the invariant of the inventory;
  the locale \<open>inventory_operation\<close> is what every operation on it promises.
\<close>

section \<open>UpdateDevices\<close>

fun host_path_map :: "DeviceSpec list \<Rightarrow> (go_string \<rightharpoonup> bool) \<Rightarrow> (go_string \<rightharpoonup> bool)" where
  "host_path_map [] m = m"
| "host_path_map (dev # ds) m = host_path_map ds (m(HostPath dev \<mapsto> True))"

fun some_missing :: "(go_string \<rightharpoonup> bool) \<Rightarrow> DeviceSpec list \<Rightarrow> bool" where
  "some_missing m [] = False"
| "some_missing m (dev # ds) = (if m (HostPath dev) = None then True else some_missing m ds)"

definition devicesChanged :: "DeviceSpec list \<Rightarrow> DeviceSpec list \<Rightarrow> bool" where
  "devicesChanged deviceList newDeviceList =
     (if length deviceList \<noteq> length newDeviceList then True
      else some_missing (host_path_map deviceList Map.empty) newDeviceList)"

text \<open>A non-blocking send on a channel of capacity one.\<close>

definition notifyUpdate :: "resourceServer \<Rightarrow> resourceServer" where
  "notifyUpdate s = (if updateResource s < 1 then s\<lparr>updateResource := Suc (updateResource s)\<rparr> else s)"

text \<open>The part of \<^verbatim>\<open>UpdateDevices\<close> under the mutex; the flag is \<^verbatim>\<open>needUpdate\<close>.\<close>

definition update_locked :: "pciNetDevice list \<Rightarrow> resourceServer \<Rightarrow> bool \<times> resourceServer" where
  "update_locked devices s =
     (let spec = getDevicesSpec devices in
      if \<not> devicesChanged (deviceSpec s) spec then (False, s)
      else
        (let s1 = s\<lparr>deviceSpec := spec\<rparr> in
         if length spec = 0 then (True, s1\<lparr>devs := []\<rparr>)
         else if length (devs s1) = 0 then
           (let new = device_loop 0 (rdmaHcaMax s1)
            in (True, s1\<lparr>devs := device_refs (devStore s1) new, devStore := devStore s1 @ new\<rparr>))
         else (True, s1)))"

definition UpdateDevices :: "pciNetDevice list \<Rightarrow> resourceServer \<Rightarrow> resourceServer" where
  "UpdateDevices devices s =
     (let (needUpdate, s') = update_locked devices s
      in if needUpdate then notifyUpdate s' else s')"

section \<open>ListAndWatch\<close>

text \<open>A stream: the messages the kubelet has received on it, and whether the call returned.
  The outcome of a \<^verbatim>\<open>Send\<close> is chosen by the environment.\<close>

datatype lw_status = LwRunning | LwReturned "goerr option"

record lw_stream =
  sent :: "Device list list"
  status :: lw_status

definition sendDevices :: "resourceServer \<Rightarrow> goerr option \<Rightarrow> lw_stream \<Rightarrow> goerr option \<times> lw_stream" where
  "sendDevices s send_err st =
     (case send_err of
        Some e \<Rightarrow> (Some e, st)
      | None \<Rightarrow> (None, st\<lparr>sent := sent st @ [device_list s]\<rparr>))"

definition updateCDISpec :: "cdi_env \<Rightarrow> resourceServer \<Rightarrow> spec_files \<Rightarrow> goerr option \<times> spec_files" where
  "updateCDISpec env s files =
     (if \<not> useCdi s then (None, files)
      else CreateCDISpec env cdiResourcePrefix cdiResourceKind (cdiResourceName s) (pciDevices s) files)"

definition lw_begin ::
  "cdi_env \<Rightarrow> goerr option \<Rightarrow> resourceServer \<Rightarrow> spec_files \<Rightarrow> lw_stream \<times> spec_files" where
  "lw_begin env send_err s files =
     (let st = \<lparr>sent = [], status = LwRunning\<rparr> in
      case sendDevices s send_err st of
        (Some e, st1) \<Rightarrow> (st1\<lparr>status := LwReturned (Some e)\<rparr>, files)
      | (None, st1) \<Rightarrow>
          (case updateCDISpec env s files of
             (Some e, files1) \<Rightarrow> (st1\<lparr>status := LwReturned (Some e)\<rparr>, files1)
           | (None, files1) \<Rightarrow> (st1, files1)))"

datatype lw_event =
    LwContextDone
  | LwHealth nat "goerr option"
  | LwUpdate "goerr option"

type_synonym lw_conf = "resourceServer \<times> spec_files \<times> lw_stream"

text \<open>One round of the \<^verbatim>\<open>select\<close> loop.  A round that finds its channel empty does not
  happen: the state stays as it is.\<close>

fun lw_step :: "cdi_env \<Rightarrow> lw_event \<Rightarrow> lw_conf \<Rightarrow> lw_conf" where
  "lw_step env LwContextDone (s, files, st) =
     (if status st = LwRunning then (s, files, st\<lparr>status := LwReturned None\<rparr>) else (s, files, st))"
| "lw_step env (LwHealth d send_err) (s, files, st) =
     (if status st = LwRunning \<and> d < length (devStore s) then
        (let s1 = s\<lparr>devStore := (devStore s)[d := (devStore s ! d)\<lparr>Health := Unhealthy\<rparr>]\<rparr>
         in (s1, files, snd (sendDevices s1 send_err st)))
      else (s, files, st))"
| "lw_step env (LwUpdate send_err) (s, files, st) =
     (if status st = LwRunning \<and> updateResource s > 0 then
        (let s1 = s\<lparr>updateResource := updateResource s - 1\<rparr> in
         case sendDevices s1 send_err st of
           (Some e, st1) \<Rightarrow> (notifyUpdate s1, files, st1\<lparr>status := LwReturned (Some e)\<rparr>)
         | (None, st1) \<Rightarrow>
             (case updateCDISpec env s1 files of
                (Some e, files1) \<Rightarrow> (s1, files1, st1\<lparr>status := LwReturned (Some e)\<rparr>)
              | (None, files1) \<Rightarrow> (s1, files1, st1)))
      else (s, files, st))"

fun lw_run :: "cdi_env \<Rightarrow> lw_event list \<Rightarrow> lw_conf \<Rightarrow> lw_conf" where
  "lw_run env [] c = c"
| "lw_run env (e # es) c = lw_run env es (lw_step env e c)"

definition ListAndWatch ::
  "cdi_env \<Rightarrow> goerr option \<Rightarrow> lw_event list \<Rightarrow> resourceServer \<Rightarrow> spec_files \<Rightarrow> lw_conf" where
  "ListAndWatch env send_err events s files =
     (let (st, files1) = lw_begin env send_err s files in lw_run env events (s, files1, st))"

section \<open>Allocate and the constant answers\<close>

record ContainerAllocateResponse =
  Annotations :: "(go_string \<times> go_string) list"
  RespDevices :: "DeviceSpec list"

definition empty_response :: ContainerAllocateResponse where
  "empty_response = \<lparr>Annotations = [], RespDevices = []\<rparr>"

text \<open>A container request is the list of device ids it asks for.\<close>

fun Allocate ::
  "cdi_env \<Rightarrow> resourceServer \<Rightarrow> go_string list list \<Rightarrow> ContainerAllocateResponse list result" where
  "Allocate env s [] = Inr []"
| "Allocate env s (r # rs) =
     (case (if useCdi s then
              (case CreateContainerAnnotations env (pciDevices s) cdiResourcePrefix cdiResourceKind
                      (cdiResourceName s) of
                 Inl e \<Rightarrow> Inl (ErrAnnotation e)
               | Inr as \<Rightarrow> Inr (empty_response\<lparr>Annotations := as\<rparr>))
            else Inr (empty_response\<lparr>RespDevices := deviceSpec s\<rparr>)) of
        Inl e \<Rightarrow> Inl e
      | Inr resp \<Rightarrow>
          (case Allocate env s rs of Inl e \<Rightarrow> Inl e | Inr ress \<Rightarrow> Inr (resp # ress)))"

record PluginInfo =
  PluginType :: go_string
  PluginName :: go_string
  Endpoint :: go_string
  SupportedVersions :: "go_string list"

definition GetInfo :: "resourceServer \<Rightarrow> PluginInfo result" where
  "GetInfo s = Inr \<lparr>PluginType = ''DevicePlugin'', PluginName = resourceName s,
     Endpoint = path_Join [activeSockDir s, socketName s],
     SupportedVersions = [''v1alpha1'', ''v1beta1'']\<rparr>"

record DevicePluginOptions =
  PreStartRequired :: bool

definition GetDevicePluginOptions :: "resourceServer \<Rightarrow> DevicePluginOptions result" where
  "GetDevicePluginOptions s = Inr \<lparr>PreStartRequired = False\<rparr>"

definition PreStartContainer :: "resourceServer \<Rightarrow> unit result" where
  "PreStartContainer s = Inr ()"

text \<open>The response is nil, and so is the error.\<close>

definition GetPreferredAllocation :: "resourceServer \<Rightarrow> unit option result" where
  "GetPreferredAllocation s = Inr None"

section \<open>devicesChanged\<close>

lemma host_path_map_None:
  "host_path_map ds m p = None \<longleftrightarrow> m p = None \<and> p \<notin> HostPath ` set ds"
  by (induction ds arbitrary: m) auto

lemma some_missing_iff: "some_missing m ds \<longleftrightarrow> (\<exists>d \<in> set ds. m (HostPath d) = None)"
  by (induction ds) auto

lemma devicesChanged_iff:
  "devicesChanged old new \<longleftrightarrow>
     length old \<noteq> length new \<or> \<not> HostPath ` set new \<subseteq> HostPath ` set old"
  by (auto simp: devicesChanged_def some_missing_iff host_path_map_None)

lemma devicesChanged_refl [simp]: "\<not> devicesChanged ds ds"
  by (simp add: devicesChanged_iff)

text \<open>
  Every RDMA device has the connection manager's character device among its own, so a pool of
  several devices repeats one path.  \<open>one_shared_path\<close> says of the path lists of two pools that
  no path but one is repeated within a list, and that the new pool does not have that one more
  often while it has fewer of the others.
\<close>

definition own_paths :: "go_string \<Rightarrow> go_string list \<Rightarrow> go_string list" where
  "own_paths shared ps = filter (\<lambda>p. p \<noteq> shared) ps"

definition one_shared_path :: "go_string \<Rightarrow> go_string list \<Rightarrow> go_string list \<Rightarrow> bool" where
  "one_shared_path shared old new \<longleftrightarrow>
     distinct (own_paths shared old) \<and> distinct (own_paths shared new) \<and>
     (count (mset new) shared \<le> count (mset old) shared \<or>
      length (own_paths shared old) \<le> length (own_paths shared new))"

lemma mset_own_paths:
  "mset ps = mset (own_paths shared ps) + replicate_mset (count (mset ps) shared) shared"
  by (induction ps) (auto simp: own_paths_def)

lemma length_own_paths: "length ps = length (own_paths shared ps) + count (mset ps) shared"
  using arg_cong [OF mset_own_paths [of ps shared], of size] by simp

lemma set_own_paths: "set (own_paths shared ps) = set ps - {shared}"
  by (auto simp: own_paths_def)

lemma one_shared_path_distinct: "distinct old \<Longrightarrow> distinct new \<Longrightarrow> \<exists>r. one_shared_path r old new"
proof -
  assume d: "distinct old" "distinct new"
  obtain r where r: "r \<notin> set old \<union> set new"
    using ex_new_if_finite [OF infinite_UNIV_listI, of "set old \<union> set new"] by auto
  have "count (mset new) r \<le> count (mset old) r"
    using r by (metis UnCI count_eq_zero_iff le0 set_mset_mset)
  then have "one_shared_path r old new"
    using d by (simp add: one_shared_path_def own_paths_def)
  then show ?thesis by blast
qed

lemma devicesChanged_shared:
  assumes "one_shared_path r (map HostPath old) (map HostPath new)"
  shows "devicesChanged old new \<longleftrightarrow> mset (map HostPath old) \<noteq> mset (map HostPath new)"
proof (cases "length old = length new \<and> HostPath ` set new \<subseteq> HostPath ` set old")
  case False
  then have "mset (map HostPath old) \<noteq> mset (map HostPath new)"
    by (metis length_map list.set_map mset_eq_length mset_eq_setD order_refl)
  then show ?thesis using False by (auto simp: devicesChanged_iff)
next
  case True
  let ?old = "map HostPath old" and ?new = "map HostPath new"
  let ?o = "own_paths r ?old" and ?n = "own_paths r ?new"
  have D: "distinct ?o" "distinct ?n" and sub: "set ?n \<subseteq> set ?o"
    using assms True by (auto simp: one_shared_path_def set_own_paths)
  have le: "length ?n \<le> length ?o"
    using card_mono [OF _ sub] D by (simp add: distinct_card)
  have "length ?o + count (mset ?old) r = length ?n + count (mset ?new) r"
    using True length_own_paths [of ?old r] length_own_paths [of ?new r] by simp
  then have len: "length ?o = length ?n" and cnt: "count (mset ?old) r = count (mset ?new) r"
    using assms le by (auto simp: one_shared_path_def)
  have "mset ?o = mset ?n" by (rule mset_eq_of_subset_distinct [OF D len sub])
  then have "mset ?old = mset ?new"
    using mset_own_paths [of ?old r] mset_own_paths [of ?new r] cnt by metis
  then show ?thesis using True by (simp add: devicesChanged_iff)
qed

section \<open>The inventory invariant\<close>

definition inventory_ok :: "resourceServer \<Rightarrow> bool" where
  "inventory_ok s \<longleftrightarrow>
     (\<forall>r \<in> set (devs s). r < length (devStore s)) \<and> distinct (devs s) \<and>
     map ID (device_list s) = (if deviceSpec s = [] then [] else numbered_ids (rdmaHcaMax s)) \<and>
     updateResource s \<le> 1"

lemma map_nth_upt: "map (\<lambda>r. (xs @ ys) ! r) [length xs ..< length xs + length ys] = ys"
  by (rule nth_equalityI) (auto simp: nth_append)

lemma newResourceServer_fields:
  assumes "newResourceServer c ds root wm cdi = Inr s"
  shows "0 \<le> RdmaHcaMax c \<and> ResourcePrefix c \<noteq> [] \<and> deviceSpec s = getDevicesSpec ds \<and>
    rdmaHcaMax s = RdmaHcaMax c \<and> updateResource s = 0 \<and> pciDevices s = ds \<and>
    useCdi s = cdi \<and> cdiResourceName s = ResourceName c \<and> watchMode s = wm \<and>
    socketName s = ResourceName c @ ''.sock'' \<and>
    socketPath s = path_Join [if wm then getActiveSockDir root else getDeprecatedSockDir, socketName s] \<and>
    socketOwner s = socketOwnerNone \<and> rsConnector s = Some None \<and>
    resourceName s = ResourcePrefix c @ ''/'' @ ResourceName c \<and>
    activeSockDir s = getActiveSockDir root \<and> deprecatedSockDir s = getDeprecatedSockDir"
  using assms
  by (auto simp: newResourceServer_def Let_def socketSuffix_def split: if_splits)

lemma newResourceServer_device_list:
  assumes "newResourceServer c ds root wm cdi = Inr s"
  shows "device_list s = (if getDevicesSpec ds = [] then [] else device_loop 0 (RdmaHcaMax c)) \<and>
    devs s = [0 ..< length (devStore s)] \<and> devStore s = device_list s"
  using assms map_nth_upt [of "[]" "device_loop 0 (RdmaHcaMax c)"]
  by (auto simp: newResourceServer_def Let_def device_list_def device_refs_def split: if_splits)

lemma newResourceServer_inventory_ok:
  assumes "newResourceServer c ds root wm cdi = Inr s"
  shows "inventory_ok s"
  using newResourceServer_fields [OF assms] newResourceServer_device_list [OF assms]
  by (auto simp: inventory_ok_def ids_device_loop)

text \<open>Every operation keeps the invariant and the identity of the server.\<close>

locale inventory_operation =
  fixes op :: "resourceServer \<Rightarrow> resourceServer"
  assumes op_inventory_ok: "inventory_ok s \<Longrightarrow> inventory_ok (op s)"
    and op_hca: "rdmaHcaMax (op s) = rdmaHcaMax s"
    and op_pci: "pciDevices (op s) = pciDevices s"
    and op_cdi: "useCdi (op s) = useCdi s \<and> cdiResourceName (op s) = cdiResourceName s"
begin

lemma op_zero_or_all:
  assumes "inventory_ok s"
  shows "device_list (op s) = [] \<or> map ID (device_list (op s)) = numbered_ids (rdmaHcaMax s)"
  using op_inventory_ok [OF assms] op_hca [of s] by (auto simp: inventory_ok_def split: if_splits)

lemma op_funpow_inventory_ok: "inventory_ok s \<Longrightarrow> inventory_ok ((op ^^ n) s)"
  by (induction n) (auto intro: op_inventory_ok)

lemma op_cdi_answer:
  assumes "useCdi s"
  shows "Allocate env (op s) rs = Allocate env s rs"
  using assms op_cdi [of s] op_pci [of s] by (induction rs) (simp_all split: sum.splits)

end

lemma update_locked_cases:
  obtains
    (same) "\<not> devicesChanged (deviceSpec s) (getDevicesSpec ds)" "update_locked ds s = (False, s)"
  | (none) "devicesChanged (deviceSpec s) (getDevicesSpec ds)" "getDevicesSpec ds = []"
      "update_locked ds s = (True, s\<lparr>deviceSpec := [], devs := []\<rparr>)"
  | (fresh) "devicesChanged (deviceSpec s) (getDevicesSpec ds)" "getDevicesSpec ds \<noteq> []"
      "devs s = []"
      "update_locked ds s =
         (True, s\<lparr>deviceSpec := getDevicesSpec ds,
            devs := device_refs (devStore s) (device_loop 0 (rdmaHcaMax s)),
            devStore := devStore s @ device_loop 0 (rdmaHcaMax s)\<rparr>)"
  | (keep) "devicesChanged (deviceSpec s) (getDevicesSpec ds)" "getDevicesSpec ds \<noteq> []"
      "devs s \<noteq> []" "update_locked ds s = (True, s\<lparr>deviceSpec := getDevicesSpec ds\<rparr>)"
proof -
  consider "\<not> devicesChanged (deviceSpec s) (getDevicesSpec ds)"
    | "devicesChanged (deviceSpec s) (getDevicesSpec ds)" "getDevicesSpec ds = []"
    | "devicesChanged (deviceSpec s) (getDevicesSpec ds)" "getDevicesSpec ds \<noteq> []" "devs s = []"
    | "devicesChanged (deviceSpec s) (getDevicesSpec ds)" "getDevicesSpec ds \<noteq> []" "devs s \<noteq> []"
    by blast
  then show thesis
    by cases (rule same none fresh keep; simp add: update_locked_def Let_def)+
qed

lemma update_locked_inventory_ok:
  assumes "inventory_ok s"
  shows "inventory_ok (snd (update_locked ds s))"
proof (cases rule: update_locked_cases [where s = s and ds = ds])
  case same
  then show ?thesis using assms by simp
next
  case none
  then show ?thesis using assms by (simp add: inventory_ok_def device_list_def)
next
  case fresh
  have "map (\<lambda>r. (devStore s @ device_loop 0 (rdmaHcaMax s)) ! r)
      (device_refs (devStore s) (device_loop 0 (rdmaHcaMax s))) = device_loop 0 (rdmaHcaMax s)"
    unfolding device_refs_def by (rule map_nth_upt)
  then show ?thesis
    using fresh assms
    by (auto simp: inventory_ok_def device_list_def device_refs_def ids_device_loop
        simp flip: map_map)
next
  case keep
  have "deviceSpec s \<noteq> []"
    using keep(3) assms by (auto simp: inventory_ok_def device_list_def split: if_splits)
  then show ?thesis using keep assms by (simp add: inventory_ok_def device_list_def)
qed

lemma update_locked_frame:
  "rdmaHcaMax (snd (update_locked ds s)) = rdmaHcaMax s"
  "pciDevices (snd (update_locked ds s)) = pciDevices s"
  "useCdi (snd (update_locked ds s)) = useCdi s"
  "cdiResourceName (snd (update_locked ds s)) = cdiResourceName s"
  "updateResource (snd (update_locked ds s)) = updateResource s"
  by (cases rule: update_locked_cases [where s = s and ds = ds]; simp)+

lemma notifyUpdate_frame:
  "rdmaHcaMax (notifyUpdate s) = rdmaHcaMax s" "pciDevices (notifyUpdate s) = pciDevices s"
  "useCdi (notifyUpdate s) = useCdi s" "cdiResourceName (notifyUpdate s) = cdiResourceName s"
  "device_list (notifyUpdate s) = device_list s" "deviceSpec (notifyUpdate s) = deviceSpec s"
  by (simp_all add: notifyUpdate_def device_list_def)

lemma notifyUpdate_inventory_ok: "inventory_ok s \<Longrightarrow> inventory_ok (notifyUpdate s)"
  by (auto simp: inventory_ok_def notifyUpdate_def device_list_def)

lemmas [frame_simps] = update_locked_frame notifyUpdate_frame

lemma UpdateDevices_eq:
  "UpdateDevices ds s =
     (if devicesChanged (deviceSpec s) (getDevicesSpec ds)
      then notifyUpdate (snd (update_locked ds s)) else s)"
  by (cases rule: update_locked_cases [where s = s and ds = ds]) (simp_all add: UpdateDevices_def)

interpretation update_op: inventory_operation "UpdateDevices ds" for ds
  by unfold_locales
    (simp_all add: UpdateDevices_eq frame_simps update_locked_inventory_ok notifyUpdate_inventory_ok)

section \<open>The rounds of ListAndWatch\<close>

definition conf_server :: "lw_conf \<Rightarrow> resourceServer" where
  "conf_server c = fst c"

lemma health_device_ids:
  "map ID (device_list (s\<lparr>devStore := (devStore s)[d := (devStore s ! d)\<lparr>Health := h\<rparr>]\<rparr>)) =
   map ID (device_list s)"
proof -
  have "ID ((devStore s)[d := (devStore s ! d)\<lparr>Health := h\<rparr>] ! r) = ID (devStore s ! r)" for r
    by (cases "d < length (devStore s)"; cases "r = d") (simp_all add: list_update_beyond)
  then show ?thesis by (simp add: device_list_def)
qed

lemma sendDevices_status [simp]: "status (snd (sendDevices s e st)) = status st"
  by (simp add: sendDevices_def split: option.splits)

lemma lw_step_inventory_ok:
  assumes "inventory_ok (conf_server c)"
  shows "inventory_ok (conf_server (lw_step env e c))"
proof -
  obtain s files st where c: "c = (s, files, st)" by (cases c) auto
  have s: "inventory_ok s" using assms by (simp add: c conf_server_def)
  have dec: "inventory_ok (s\<lparr>updateResource := updateResource s - 1\<rparr>)"
    using s by (auto simp: inventory_ok_def device_list_def)
  show ?thesis
  proof (cases e)
    case (LwHealth d se)
    then show ?thesis
      using s health_device_ids [of s d Unhealthy]
      by (auto simp: c conf_server_def Let_def inventory_ok_def)
  qed (use s dec in \<open>auto simp: c conf_server_def Let_def notifyUpdate_inventory_ok
      split: prod.splits option.splits\<close>)
qed

lemma lw_step_frame:
  "rdmaHcaMax (conf_server (lw_step env e c)) = rdmaHcaMax (conf_server c)"
  "pciDevices (conf_server (lw_step env e c)) = pciDevices (conf_server c)"
  "useCdi (conf_server (lw_step env e c)) = useCdi (conf_server c)"
  "cdiResourceName (conf_server (lw_step env e c)) = cdiResourceName (conf_server c)"
  by (cases c; cases e; auto simp: conf_server_def Let_def frame_simps
      split: prod.splits option.splits)+

lemmas [frame_simps] = lw_step_frame

text \<open>A round, seen from the server, is an operation on the inventory.\<close>

interpretation lw_op: inventory_operation "\<lambda>s. conf_server (lw_step env e (s, files, st))"
  for env e files st
proof unfold_locales
  fix s
  assume "inventory_ok s"
  then show "inventory_ok (conf_server (lw_step env e (s, files, st)))"
    by (intro lw_step_inventory_ok) (simp add: conf_server_def)
qed (simp_all add: frame_simps, simp_all add: conf_server_def)

lemma lw_run_inventory_ok:
  "inventory_ok (conf_server c) \<Longrightarrow> inventory_ok (conf_server (lw_run env es c))"
  by (induction es arbitrary: c) (simp_all add: lw_step_inventory_ok)

section \<open>Allocate\<close>

lemma Allocate_devices:
  "\<not> useCdi s \<Longrightarrow>
     Allocate env s rs = Inr (replicate (length rs) (empty_response\<lparr>RespDevices := deviceSpec s\<rparr>))"
  by (induction rs) simp_all

lemma Allocate_cdi:
  "useCdi s \<Longrightarrow> rs \<noteq> [] \<Longrightarrow>
     Allocate env s rs =
       (case CreateContainerAnnotations env (pciDevices s) cdiResourcePrefix cdiResourceKind
               (cdiResourceName s) of
          Inl e \<Rightarrow> Inl (ErrAnnotation e)
        | Inr as \<Rightarrow> Inr (replicate (length rs) (empty_response\<lparr>Annotations := as\<rparr>)))"
proof (induction rs)
  case (Cons r rs)
  then show ?case by (cases "rs = []") (auto split: sum.splits)
qed simp

lemma Allocate_after_update:
  assumes "\<not> useCdi s"
    and "one_shared_path r (map HostPath (deviceSpec s)) (map HostPath (getDevicesSpec devices))"
  shows "\<exists>specs. Allocate env (UpdateDevices devices s) reqs =
      Inr (replicate (length reqs) \<lparr>Annotations = [], RespDevices = specs\<rparr>) \<and>
    mset (map HostPath specs) = mset (map HostPath (getDevicesSpec devices))"
proof -
  have "\<not> useCdi (UpdateDevices devices s)" using assms(1) update_op.op_cdi by simp
  moreover have "mset (map HostPath (deviceSpec (UpdateDevices devices s))) =
      mset (map HostPath (getDevicesSpec devices))"
    using devicesChanged_shared [OF assms(2)]
    by (cases rule: update_locked_cases [where s = s and ds = devices])
       (simp_all add: UpdateDevices_eq notifyUpdate_def)
  ultimately show ?thesis
    by (intro exI [of _ "deviceSpec (UpdateDevices devices s)"])
       (simp add: Allocate_devices empty_response_def)
qed

section \<open>Properties\<close>

text \<open>Anything that can happen to the inventory of a server, in any order: an update, or a
  round of any \<^verbatim>\<open>ListAndWatch\<close> stream.\<close>

datatype inv_event =
    InvUpdate "pciNetDevice list"
  | InvRound cdi_env lw_event spec_files lw_stream

fun inv_apply :: "inv_event \<Rightarrow> resourceServer \<Rightarrow> resourceServer" where
  "inv_apply (InvUpdate ds) s = UpdateDevices ds s"
| "inv_apply (InvRound env e files st) s = conf_server (lw_step env e (s, files, st))"

lemma inv_apply_keeps:
  "inventory_ok s \<Longrightarrow> inventory_ok (inv_apply e s) \<and> rdmaHcaMax (inv_apply e s) = rdmaHcaMax s"
  using update_op.op_inventory_ok update_op.op_hca lw_op.op_inventory_ok lw_op.op_hca
  by (cases e) (simp_all)

lemma inv_fold_keeps:
  "inventory_ok s \<Longrightarrow> inventory_ok (fold inv_apply es s) \<and> rdmaHcaMax (fold inv_apply es s) = rdmaHcaMax s"
  by (induction es arbitrary: s) (use inv_apply_keeps in \<open>auto simp: inv_apply_keeps\<close>)

text \<open>C15: Whatever sequence of updates and stream rounds a server has gone through, it
  advertises either no device or the \<^verbatim>\<open>rdmaHcaMax\<close> numbered ones, none twice, and none
  exactly when it has no RDMA device to expose; every pointer of its list is valid and at most
  one update notification is pending.\<close>

theorem inventory_stays_consistent:
  assumes "newResourceServer config devices root wm cdi = Inr s"
  shows "map ID (device_list (fold inv_apply es s)) =
      (if deviceSpec (fold inv_apply es s) = [] then []
       else map (\<lambda>k. go_Itoa (int k)) [0 ..< nat (RdmaHcaMax config)]) \<and>
    distinct (devs (fold inv_apply es s)) \<and>
    set (devs (fold inv_apply es s)) \<subseteq> {..< length (devStore (fold inv_apply es s))} \<and>
    updateResource (fold inv_apply es s) \<le> 1"
  using inv_fold_keeps [OF newResourceServer_inventory_ok [OF assms], of es]
    newResourceServer_fields [OF assms]
  by (auto simp: inventory_ok_def numbered_ids_def)

lemma inventory_stays_consistent_witness:
  "updateResource (fold inv_apply [InvUpdate [], InvUpdate [sample_nd]] (sample_server True False)) \<le> 1"
  using inventory_stays_consistent [OF sample_server_new [of True False]] by blast

text \<open>C35: The comparison by which \<^verbatim>\<open>UpdateDevices\<close> decides reports a change exactly when
  the two lists differ as collections of host paths, whatever their order, although the devices
  of a pool share the path of the connection manager: it is enough that no other path is
  repeated in a list and that the new list does not have more copies of the shared path and
  fewer of the others.\<close>

theorem devices_changed_iff_different:
  assumes "one_shared_path shared (map HostPath old) (map HostPath new)"
  shows "devicesChanged old new \<longleftrightarrow> mset (map HostPath old) \<noteq> mset (map HostPath new)"
  by (rule devicesChanged_shared [OF assms])

definition char_dev :: "go_string \<Rightarrow> DeviceSpec" where
  "char_dev p = \<lparr>HostPath = p, ContainerPath = p, Permissions = ''rwm''\<rparr>"

lemma devices_changed_iff_different_witness:
  "devicesChanged (map char_dev [''/dev/uverbs0'', ''/dev/rdma_cm'', ''/dev/uverbs1'', ''/dev/rdma_cm''])
     (map char_dev [''/dev/uverbs0'', ''/dev/rdma_cm'', ''/dev/uverbs2'', ''/dev/rdma_cm''])"
  by (subst devices_changed_iff_different [of "''/dev/rdma_cm''"])
     (simp_all add: one_shared_path_def own_paths_def char_dev_def)

text \<open>The condition is needed: replacing the second of two devices by a copy of the first is
  reported as no change, so the server goes on exposing the device that is gone.\<close>

lemma repeated_path_hides_change:
  "\<not> devicesChanged [char_dev ''/dev/a'', char_dev ''/dev/b''] [char_dev ''/dev/a'', char_dev ''/dev/a'']"
  by (simp add: devicesChanged_iff char_dev_def)

text \<open>C32: With CDI, an update never reaches the containers: a server that was created before
  its devices appeared advertises them after the update, and still refuses every allocation.\<close>

theorem cdi_allocation_ignores_update:
  assumes "newResourceServer config [] root wm True = Inr s" "0 < RdmaHcaMax config"
    and "getDevicesSpec devices \<noteq> []" "reqs \<noteq> []"
  shows "device_list (UpdateDevices devices s) \<noteq> [] \<and>
    Allocate env (UpdateDevices devices s) reqs = Inl (ErrAnnotation ErrNoDevices)"
proof -
  note F = newResourceServer_fields [OF assms(1)]
  have ok: "inventory_ok (UpdateDevices devices s)"
    by (rule update_op.op_inventory_ok [OF newResourceServer_inventory_ok [OF assms(1)]])
  have "deviceSpec (UpdateDevices devices s) = getDevicesSpec devices"
    using F assms(3)
    by (cases rule: update_locked_cases [where s = s and ds = devices])
       (auto simp: UpdateDevices_eq notifyUpdate_def devicesChanged_iff)
  then have "map ID (device_list (UpdateDevices devices s)) = numbered_ids (RdmaHcaMax config)"
    using ok assms(3) F update_op.op_hca [of devices s] by (simp add: inventory_ok_def)
  then have "device_list (UpdateDevices devices s) \<noteq> []"
    using assms(2) by (auto simp: numbered_ids_def)
  moreover have "Allocate env (UpdateDevices devices s) reqs = Allocate env s reqs"
    using F by (intro update_op.op_cdi_answer) simp
  ultimately show ?thesis
    using F assms(4) by (simp add: Allocate_cdi CreateContainerAnnotations_def)
qed

lemma cdi_allocation_ignores_update_witness:
  "\<exists>s. newResourceServer sample_config [] ''/var/lib/kubelet'' True True = Inr s \<and>
     Allocate sample_cdi (UpdateDevices [sample_nd] s) [[''0'']] = Inl (ErrAnnotation ErrNoDevices)"
proof -
  obtain s where s: "newResourceServer sample_config [] ''/var/lib/kubelet'' True True = Inr s"
    by (simp add: newResourceServer_def sample_config_def Let_def)
  show ?thesis
    using cdi_allocation_ignores_update [OF s, of "[sample_nd]" "[[''0'']]" sample_cdi] s
    by (simp add: sample_config_def sample_nd_def getters)
qed

end
