(* ===== verification/Manager.thy ===== *)
theory Manager
  imports Config Inventory Lifecycle
begin

text \<open>
  The other half of \<^verbatim>\<open>pkg/resources/resources_manager.go\<close>: discovering the PCI devices,
  building the resource servers, starting, stopping and restarting them in order, and the
  periodic update.  What the host, the CDI library and the machine answer may differ from one
  server to the next, so the loops take those answers as functions of the server's index.
  The loops run in one piece here; the theory of the program's goroutines takes them apart into
  steps between which the watchers of the servers already started may move.
\<close>

section \<open>Discovery\<close>

definition netClass :: int where
  "netClass = 2"

definition shorten :: "nat \<Rightarrow> nat \<Rightarrow> go_string \<Rightarrow> go_string" where
  "shorten maxLength kept name = (if length name > maxLength then take kept name @ ''...'' else name)"

definition maxVendorNameLength :: nat where
  "maxVendorNameLength = 20"

definition maxProductNameLength :: nat where
  "maxProductNameLength = 40"

text \<open>The devices kept, and what is logged of each: address, class, vendor, product.\<close>

type_synonym found_log = "go_string \<times> go_string \<times> go_string \<times> go_string"

fun discover_loop :: "ghwDevice list \<Rightarrow> ghwDevice list \<times> found_log list" where
  "discover_loop [] = ([], [])"
| "discover_loop (device # devices) =
     (let (found, logged) = discover_loop devices in
      case go_ParseInt16 (ghw_ClassID device) of
        None \<Rightarrow> (found, logged)
      | Some devClass \<Rightarrow>
          if devClass \<noteq> netClass then (found, logged)
          else
            (let vendorName = shorten maxVendorNameLength 17 (ghw_VendorName device);
                 productName = shorten maxProductNameLength 37 (ghw_ProductName device)
             in (device # found,
                 (ghw_Address device, ghw_ClassID device, vendorName, productName) # logged)))"

definition DiscoverHostDevices ::
  "ghwDevice list result \<Rightarrow> resourceManager \<Rightarrow> goerr option \<times> resourceManager \<times> found_log list"
where
  "DiscoverHostDevices ghw_PCI rm =
     (case ghw_PCI of
        Inl e \<Rightarrow> (Some (ErrPciInfo e), rm, [])
      | Inr devices \<Rightarrow>
          (let (found, logged) = discover_loop devices
           in (None, rm\<lparr>deviceList := found\<rparr>, logged)))"

fun new_devices :: "host \<Rightarrow> go_string list \<Rightarrow> ghwDevice list \<Rightarrow> pciNetDevice list" where
  "new_devices h rdmaDevs [] = []"
| "new_devices h rdmaDevs (device # devices) =
     (case NewPciNetDevice h rdmaDevs device of
        Inr newDevice \<Rightarrow> newDevice # new_devices h rdmaDevs devices
      | Inl e \<Rightarrow> new_devices h rdmaDevs devices)"

definition GetDevices :: "host \<Rightarrow> resourceManager \<Rightarrow> pciNetDevice list" where
  "GetDevices h rm = new_devices h (rds rm) (deviceList rm)"

section \<open>InitServers\<close>

text \<open>The links the loop asks netlink to bring up.\<close>

fun bring_up :: "host \<Rightarrow> pciNetDevice list \<Rightarrow> link list" where
  "bring_up h [] = []"
| "bring_up h (device # devices) =
     (case netlinkManager_LinkByName h (GetIfName device) of
        Inl e \<Rightarrow> bring_up h devices
      | Inr l \<Rightarrow>
          (case netlinkManager_LinkSetUp h l of
             Some e \<Rightarrow> l # bring_up h devices
           | None \<Rightarrow> l # bring_up h devices))"

record init_out =
  out_rm :: resourceManager
  out_files :: spec_files
  out_links :: "link list"

fun init_loop ::
  "(nat \<Rightarrow> host) \<Rightarrow> cdi_env \<Rightarrow> nat \<Rightarrow> UserConfig list \<Rightarrow> init_out \<Rightarrow> goerr option \<times> init_out" where
  "init_loop hs env n [] c = (None, c)"
| "init_loop hs env n (config # configs) c =
     (let rm = out_rm c;
          devices = GetDevices (hs n) rm;
          filteredDevices = GetFilteredDevices devices (ConfSelectors config);
          c1 = c\<lparr>out_links := out_links c @ bring_up (hs n) filteredDevices\<rparr>;
          (err, files1) = (if rmUseCdi rm
             then CleanupSpecs env cdiResourcePrefix cdiResourceKind (out_files c1)
             else (None, out_files c1));
          c2 = c1\<lparr>out_files := files1\<rparr>
      in case err of
           Some e \<Rightarrow> (Some e, c2)
         | None \<Rightarrow>
             (case newResourceServer config filteredDevices (kubeletRootDir rm) (rmWatchMode rm)
                     (rmUseCdi rm) of
                Inl e \<Rightarrow> (Some e, c2)
              | Inr rs \<Rightarrow>
                  init_loop hs env (Suc n) configs
                    (c2\<lparr>out_rm := rm\<lparr>resourceServers := resourceServers rm @ [rs]\<rparr>\<rparr>)))"

definition InitServers ::
  "(nat \<Rightarrow> host) \<Rightarrow> cdi_env \<Rightarrow> resourceManager \<Rightarrow> spec_files \<Rightarrow> goerr option \<times> init_out" where
  "InitServers hs env rm files =
     init_loop hs env 0 (configList rm) \<lparr>out_rm = rm, out_files = files, out_links = []\<rparr>"

section \<open>All servers\<close>

text \<open>\<open>watched\<close> are the indices for which a \<^verbatim>\<open>Watch\<close> goroutine was started.\<close>

record started =
  st_err :: "goerr option"
  st_servers :: "resourceServer list"
  st_watched :: "nat list"
  st_mach :: osys

fun start_loop ::
  "(nat \<Rightarrow> os_env \<times> os_env) \<Rightarrow> bool \<Rightarrow> nat \<Rightarrow> resourceServer list \<Rightarrow> osys \<Rightarrow> started outcome" where
  "start_loop envs wm n [] os =
     Returns \<lparr>st_err = None, st_servers = [], st_watched = [], st_mach = os\<rparr>"
| "start_loop envs wm n (rs # rest) os =
     (case Start (fst (envs n)) (snd (envs n)) rs os of
        Panics \<Rightarrow> Panics
      | Returns (Some e, rs1, os1) \<Rightarrow>
          Returns \<lparr>st_err = Some e, st_servers = rs1 # rest, st_watched = [], st_mach = os1\<rparr>
      | Returns (None, rs1, os1) \<Rightarrow>
          (case start_loop envs wm (Suc n) rest os1 of
             Panics \<Rightarrow> Panics
           | Returns r \<Rightarrow>
               Returns (r\<lparr>st_servers := rs1 # st_servers r,
                          st_watched := (if \<not> wm then n # st_watched r else st_watched r)\<rparr>)))"

definition StartAllServers ::
  "(nat \<Rightarrow> os_env \<times> os_env) \<Rightarrow> resourceManager \<Rightarrow> osys \<Rightarrow>
   (goerr option \<times> resourceManager \<times> nat list \<times> osys) outcome"
where
  "StartAllServers envs rm os =
     (case start_loop envs (rmWatchMode rm) 0 (resourceServers rm) os of
        Panics \<Rightarrow> Panics
      | Returns r \<Rightarrow>
          Returns (st_err r, rm\<lparr>resourceServers := st_servers r\<rparr>, st_watched r, st_mach r))"

text \<open>\<open>None\<close> is a loop that never returns, because a \<^verbatim>\<open>Stop\<close> in it never does.\<close>

fun stop_loop ::
  "(nat \<Rightarrow> os_env) \<Rightarrow> nat list \<Rightarrow> nat \<Rightarrow> resourceServer list \<Rightarrow> osys \<Rightarrow>
   (goerr option \<times> resourceServer list \<times> osys) option"
where
  "stop_loop envs watched n [] os = Some (None, [], os)"
| "stop_loop envs watched n (rs # rest) os =
     (case Stop (n \<in> set watched) (envs n) rs os of
        None \<Rightarrow> None
      | Some (Some e, rs1, os1) \<Rightarrow> Some (Some e, rs1 # rest, os1)
      | Some (None, rs1, os1) \<Rightarrow>
          (case stop_loop envs watched (Suc n) rest os1 of
             None \<Rightarrow> None
           | Some (err, servers, os2) \<Rightarrow> Some (err, rs1 # servers, os2)))"

definition StopAllServers ::
  "(nat \<Rightarrow> os_env) \<Rightarrow> cdi_env \<Rightarrow> nat list \<Rightarrow> resourceManager \<Rightarrow> spec_files \<Rightarrow> osys \<Rightarrow>
   (goerr option \<times> resourceManager \<times> spec_files \<times> osys) option"
where
  "StopAllServers envs env watched rm files os =
     (let (err, files1) = (if rmUseCdi rm
            then CleanupSpecs env cdiResourcePrefix cdiResourceKind files else (None, files))
      in case err of
           Some e \<Rightarrow> Some (Some e, rm, files1, os)
         | None \<Rightarrow>
             (case stop_loop envs watched 0 (resourceServers rm) os of
                None \<Rightarrow> None
              | Some (err, servers, os1) \<Rightarrow>
                  Some (err, rm\<lparr>resourceServers := servers\<rparr>, files1, os1)))"

fun restart_loop ::
  "(nat \<Rightarrow> os_env \<times> os_env) \<Rightarrow> nat \<Rightarrow> resourceServer list \<Rightarrow> osys \<Rightarrow>
   goerr option \<times> resourceServer list \<times> osys"
where
  "restart_loop envs n [] os = (None, [], os)"
| "restart_loop envs n (rs # rest) os =
     (case Restart (fst (envs n)) (snd (envs n)) rs os of
        (Some e, rs1, os1) \<Rightarrow> (Some e, rs1 # rest, os1)
      | (None, rs1, os1) \<Rightarrow>
          (let (err, servers, os2) = restart_loop envs (Suc n) rest os1
           in (err, rs1 # servers, os2)))"

definition RestartAllServers ::
  "(nat \<Rightarrow> os_env \<times> os_env) \<Rightarrow> cdi_env \<Rightarrow> resourceManager \<Rightarrow> spec_files \<Rightarrow> osys \<Rightarrow>
   goerr option \<times> resourceManager \<times> spec_files \<times> osys"
where
  "RestartAllServers envs env rm files os =
     (let (err, files1) = (if rmUseCdi rm
            then CleanupSpecs env cdiResourcePrefix cdiResourceKind files else (None, files))
      in case err of
           Some e \<Rightarrow> (Some e, rm, files1, os)
         | None \<Rightarrow>
             (let (err, servers, os1) = restart_loop envs 0 (resourceServers rm) os
              in (err, rm\<lparr>resourceServers := servers\<rparr>, files1, os1)))"

section \<open>The periodic update\<close>

text \<open>\<^verbatim>\<open>rm.configList[index]\<close> panics when there are more servers than configurations.\<close>

fun update_loop ::
  "(nat \<Rightarrow> host) \<Rightarrow> resourceManager \<Rightarrow> nat \<Rightarrow> resourceServer list \<Rightarrow> resourceServer list outcome" where
  "update_loop hs rm index [] = Returns []"
| "update_loop hs rm index (rs # rest) =
     (let devices = GetDevices (hs index) rm in
      if index \<ge> length (configList rm) then Panics
      else
        (let filteredDevices = GetFilteredDevices devices (ConfSelectors (configList rm ! index));
             rs1 = UpdateDevices filteredDevices rs
         in case update_loop hs rm (Suc index) rest of
              Panics \<Rightarrow> Panics
            | Returns servers \<Rightarrow> Returns (rs1 # servers)))"

definition periodic_tick ::
  "ghwDevice list result \<Rightarrow> (nat \<Rightarrow> host) \<Rightarrow> resourceManager \<Rightarrow> resourceManager outcome" where
  "periodic_tick ghw_PCI hs rm =
     (case DiscoverHostDevices ghw_PCI rm of
        (Some e, rm1, _) \<Rightarrow> Returns rm1
      | (None, rm1, _) \<Rightarrow>
          (case update_loop hs rm1 0 (resourceServers rm1) of
             Panics \<Rightarrow> Panics
           | Returns servers \<Rightarrow> Returns (rm1\<lparr>resourceServers := servers\<rparr>)))"

text \<open>What the goroutine of \<^verbatim>\<open>PeriodicUpdate\<close> receives: ticks, and the message of the
  returned stop function.  It runs only when the interval is positive.\<close>

datatype periodic_event = Tick "ghwDevice list result" "nat \<Rightarrow> host" | StopChan

fun periodic_loop :: "periodic_event list \<Rightarrow> resourceManager \<Rightarrow> resourceManager outcome" where
  "periodic_loop [] rm = Returns rm"
| "periodic_loop (StopChan # es) rm = Returns rm"
| "periodic_loop (Tick pci hs # es) rm =
     (case periodic_tick pci hs rm of
        Panics \<Rightarrow> Panics
      | Returns rm1 \<Rightarrow> periodic_loop es rm1)"

definition PeriodicUpdate :: "periodic_event list \<Rightarrow> resourceManager \<Rightarrow> resourceManager outcome" where
  "PeriodicUpdate events rm =
     (if sint (PeriodicUpdateInterval rm) > 0 then periodic_loop events rm else Returns rm)"

text \<open>The message the returned stop function sends, if any.\<close>

definition stopPeriodicUpdate :: "resourceManager \<Rightarrow> periodic_event list" where
  "stopPeriodicUpdate rm = (if sint (PeriodicUpdateInterval rm) > 0 then [StopChan] else [])"

section \<open>Discovery keeps the network devices\<close>

definition network_device :: "ghwDevice \<Rightarrow> bool" where
  "network_device d \<longleftrightarrow> go_ParseInt16 (ghw_ClassID d) = Some netClass"

lemma discover_loop_found: "fst (discover_loop ds) = filter network_device ds"
  by (induction ds) (auto simp: network_device_def split: prod.splits option.splits)

lemma length_shorten: "kept + 3 \<le> maxLength \<Longrightarrow> length (shorten maxLength kept name) \<le> maxLength"
  by (simp add: shorten_def)

lemma discover_loop_logged:
  "(a, c, v, p) \<in> set (snd (discover_loop ds)) \<Longrightarrow>
     length v \<le> maxVendorNameLength \<and> length p \<le> maxProductNameLength"
proof (induction ds)
  case (Cons d ds)
  have "length (shorten maxVendorNameLength 17 x) \<le> maxVendorNameLength"
    "length (shorten maxProductNameLength 37 x) \<le> maxProductNameLength" for x
    by (rule length_shorten, simp add: maxVendorNameLength_def maxProductNameLength_def)+
  then show ?case
    using Cons by (auto simp: Let_def split: prod.splits option.splits if_splits)
qed simp

definition usable_device :: "host \<Rightarrow> go_string list \<Rightarrow> ghwDevice \<Rightarrow> pciNetDevice option" where
  "usable_device h rdmaDevs d = (case NewPciNetDevice h rdmaDevs d of Inl e \<Rightarrow> None | Inr nd \<Rightarrow> Some nd)"

lemma new_devices_eq: "new_devices h r ds = List.map_filter (usable_device h r) ds"
  by (induction ds) (auto simp: usable_device_def map_filter_simps split: sum.splits)

lemma set_new_devices: "nd \<in> set (new_devices h r ds) \<longleftrightarrow> (\<exists>d \<in> set ds. NewPciNetDevice h r d = Inr nd)"
  by (induction ds) (auto split: sum.splits)

lemma new_devices_verified:
  "nd \<in> set (new_devices h r ds) \<Longrightarrow> VerifyRdmaSpec r (GetRdmaSpec nd) = None"
  by (auto simp: set_new_devices getters VerifyRdmaSpec_None_iff dest!: NewPciNetDevice_Inr)

section \<open>What InitServers builds\<close>

lemma GetDevices_servers [simp]:
  "GetDevices h (rm\<lparr>resourceServers := x\<rparr>) = GetDevices h rm"
  by (simp add: GetDevices_def)

definition pool :: "host \<Rightarrow> resourceManager \<Rightarrow> UserConfig \<Rightarrow> pciNetDevice list" where
  "pool h rm config = GetFilteredDevices (GetDevices h rm) (ConfSelectors config)"

lemma pool_servers [simp]: "pool h (rm\<lparr>resourceServers := x\<rparr>) config = pool h rm config"
  by (simp add: pool_def)

definition built :: "(nat \<Rightarrow> host) \<Rightarrow> resourceManager \<Rightarrow> nat \<Rightarrow> UserConfig \<Rightarrow> resourceServer result" where
  "built hs rm n config =
     newResourceServer config (pool (hs n) rm config) (kubeletRootDir rm) (rmWatchMode rm) (rmUseCdi rm)"

lemma built_servers [simp]: "built hs (rm\<lparr>resourceServers := x\<rparr>) n config = built hs rm n config"
  by (simp add: built_def)

text \<open>One round of the loop.\<close>

lemma init_loop_Cons:
  "init_loop hs env n (config # configs) c =
     (let rm = out_rm c;
          links = out_links c @ bring_up (hs n) (pool (hs n) rm config);
          (err, files1) = (if rmUseCdi rm
             then CleanupSpecs env cdiResourcePrefix cdiResourceKind (out_files c)
             else (None, out_files c));
          c2 = c\<lparr>out_links := links, out_files := files1\<rparr>
      in case err of
           Some e \<Rightarrow> (Some e, c2)
         | None \<Rightarrow>
             (case built hs rm n config of
                Inl e \<Rightarrow> (Some e, c2)
              | Inr rs \<Rightarrow>
                  init_loop hs env (Suc n) configs
                    (c2\<lparr>out_rm := rm\<lparr>resourceServers := resourceServers rm @ [rs]\<rparr>\<rparr>)))"
  unfolding init_loop.simps pool_def built_def Let_def by simp

declare init_loop.simps(2) [simp del]

lemma init_loop_round:
  assumes "init_loop hs env n (config # configs) c = (None, c')"
  shows "\<exists>rs c2. built hs (out_rm c) n config = Inr rs \<and>
    init_loop hs env (Suc n) configs c2 = (None, c') \<and>
    out_rm c2 = (out_rm c)\<lparr>resourceServers := resourceServers (out_rm c) @ [rs]\<rparr>"
proof -
  obtain err files1 where f: "(if rmUseCdi (out_rm c)
      then CleanupSpecs env cdiResourcePrefix cdiResourceKind (out_files c)
      else (None, out_files c)) = (err, files1)"
    by force
  show ?thesis
    using assms f
    by (cases err; cases "built hs (out_rm c) n config")
       (simp_all add: init_loop_Cons Let_def, rule exI, rule conjI, assumption, simp)
qed

lemma init_loop_built:
  "init_loop hs env n configs c = (None, c') \<Longrightarrow>
     \<exists>servers. out_rm c' = (out_rm c)\<lparr>resourceServers := resourceServers (out_rm c) @ servers\<rparr> \<and>
       length servers = length configs \<and>
       (\<forall>i < length configs. built hs (out_rm c) (n + i) (configs ! i) = Inr (servers ! i))"
proof (induction configs arbitrary: n c)
  case (Cons config configs)
  obtain rs c2 where rs: "built hs (out_rm c) n config = Inr rs"
    and rest: "init_loop hs env (Suc n) configs c2 = (None, c')"
    and c2: "out_rm c2 = (out_rm c)\<lparr>resourceServers := resourceServers (out_rm c) @ [rs]\<rparr>"
    using init_loop_round [OF Cons.prems] by blast
  obtain servers where s:
    "out_rm c' = (out_rm c2)\<lparr>resourceServers := resourceServers (out_rm c2) @ servers\<rparr>"
    "length servers = length configs"
    "\<forall>i < length configs. built hs (out_rm c2) (Suc n + i) (configs ! i) = Inr (servers ! i)"
    using Cons.IH [OF rest] by blast
  have "built hs (out_rm c) (n + i) ((config # configs) ! i) = Inr ((rs # servers) ! i)"
    if "i < length (config # configs)" for i
    using that rs s(3) c2 by (cases i) auto
  then show ?case
    using s(1,2) c2 by (intro exI [of _ "rs # servers"]) auto
qed simp

lemma InitServers_built:
  assumes "InitServers hs env rm files = (None, out)" "resourceServers rm = []"
  shows "\<exists>servers. out_rm out = rm\<lparr>resourceServers := servers\<rparr> \<and>
    length servers = length (configList rm) \<and>
    (\<forall>i < length servers. built hs rm i (configList rm ! i) = Inr (servers ! i))"
  using init_loop_built [of hs env 0 "configList rm"] assms unfolding InitServers_def by fastforce

text \<open>The servers have the paths of their names in one directory.\<close>

definition sock_dir :: "resourceManager \<Rightarrow> go_string" where
  "sock_dir rm =
     (if rmWatchMode rm then getActiveSockDir (kubeletRootDir rm) else getDeprecatedSockDir)"

lemma sock_dir_nonempty [simp]: "sock_dir rm \<noteq> []"
  by (simp add: sock_dir_def getActiveSockDir_def getDeprecatedSockDir_def)

lemma built_fields:
  assumes "built hs rm i conf = Inr s"
  shows "socketPath s = path_Join [sock_dir rm, ResourceName conf @ ''.sock''] \<and>
    watchMode s = rmWatchMode rm \<and> rsConnector s = Some None \<and>
    socketOwner s = socketOwnerNone \<and> inventory_ok s \<and> listener_ok s \<and>
    deviceSpec s = getDevicesSpec (pool (hs i) rm conf) \<and>
    resourceName s = ResourcePrefix conf @ ''/'' @ ResourceName conf \<and>
    useCdi s = rmUseCdi rm \<and> cdiResourceName s = ResourceName conf"
  using newResourceServer_fields [of conf] newResourceServer_inventory_ok assms
  by (auto simp: built_def sock_dir_def listener_ok_def own_listener_def rsc_GetServer_def)

lemma built_distinct_paths:
  assumes "length servers = length (configList rm)"
    and "\<forall>i < length servers. built hs rm i (configList rm ! i) = Inr (servers ! i)"
    and "\<forall>conf \<in> set (configList rm). validResourceName (ResourceName conf)"
    and "distinct (map ResourceName (configList rm))"
  shows "distinct (map socketPath servers)"
proof -
  have "socketPath (servers ! i) \<noteq> socketPath (servers ! j)"
    if "i < length servers" "j < length servers" "i \<noteq> j" for i j
  proof -
    have "plain_name (ResourceName (configList rm ! k) @ ''.sock'')" if "k < length servers" for k
      using assms(1,3) that by (simp add: valid_name_plain)
    moreover have "ResourceName (configList rm ! i) \<noteq> ResourceName (configList rm ! j)"
      using assms(1,4) that by (simp add: distinct_conv_nth)
    ultimately show ?thesis
      using path_Join2_inject [of "ResourceName (configList rm ! i) @ ''.sock''"
          "ResourceName (configList rm ! j) @ ''.sock''" "sock_dir rm"]
        built_fields [of hs rm i "configList rm ! i" "servers ! i"]
        built_fields [of hs rm j "configList rm ! j" "servers ! j"] assms(2) that by simp
  qed
  then show ?thesis by (simp add: distinct_conv_nth)
qed

definition buildable :: "UserConfig \<Rightarrow> bool" where
  "buildable config \<longleftrightarrow> 0 \<le> RdmaHcaMax config \<and> ResourcePrefix config \<noteq> []"

lemma built_ok: "buildable config \<Longrightarrow> \<exists>rs. built hs rm n config = Inr rs"
  by (simp add: buildable_def built_def newResourceServer_def Let_def)

lemma init_loop_no_error:
  "\<not> rmUseCdi (out_rm c) \<or> cleanup_works env cdiResourcePrefix \<Longrightarrow> list_all buildable configs \<Longrightarrow>
     fst (init_loop hs env n configs c) = None"
proof (induction configs arbitrary: n c)
  case (Cons config configs)
  then obtain rs where rs: "built hs (out_rm c) n config = Inr rs" using built_ok by fastforce
  obtain files1 where "(if rmUseCdi (out_rm c)
      then CleanupSpecs env cdiResourcePrefix cdiResourceKind (out_files c)
      else (None, out_files c)) = (None, files1)"
    using Cons.prems(1) CleanupSpecs_works [of env cdiResourcePrefix cdiResourceKind "out_files c"]
    by (cases "CleanupSpecs env cdiResourcePrefix cdiResourceKind (out_files c)")
       (cases "rmUseCdi (out_rm c)"; fastforce)
  then show ?case using Cons rs by (simp add: init_loop_Cons Let_def)
qed simp

lemma buildable_normalised:
  "config_ok conf \<Longrightarrow> dflt \<noteq> [] \<Longrightarrow> buildable (normalise dflt conf)"
  by (simp add: config_ok_def buildable_def)

lemma bring_up_links: "l \<in> set (bring_up h ds) \<longleftrightarrow> (\<exists>d \<in> set ds. nl_LinkByName h (ifName d) = Inr l)"
  by (induction ds)
     (auto simp: netlinkManager_LinkByName_def getters split: sum.splits option.splits)

section \<open>The periodic update\<close>

lemma update_loop_Returns:
  "index + length servers \<le> length (configList rm) \<Longrightarrow>
     update_loop hs rm index servers =
       Returns (map (\<lambda>i. UpdateDevices (pool (hs (index + i)) rm (configList rm ! (index + i)))
                           (servers ! i)) [0 ..< length servers])"
proof (induction servers arbitrary: index)
  case (Cons rs rest)
  have "[0 ..< length (rs # rest)] = 0 # map Suc [0 ..< length rest]"
    by (simp add: upt_conv_Cons map_Suc_upt del: upt_Suc)
  then show ?case
    using Cons by (simp add: pool_def comp_def Let_def del: upt_Suc)
qed simp

definition enough_configs :: "resourceManager \<Rightarrow> bool" where
  "enough_configs rm \<longleftrightarrow> length (resourceServers rm) \<le> length (configList rm)"

lemma periodic_tick_Returns:
  assumes "enough_configs rm"
  shows "\<exists>rm'. periodic_tick pci hs rm = Returns rm' \<and> enough_configs rm' \<and>
    length (resourceServers rm') = length (resourceServers rm) \<and> configList rm' = configList rm"
proof (cases pci)
  case (Inl e)
  then show ?thesis using assms by (simp add: periodic_tick_def DiscoverHostDevices_def)
next
  case (Inr ds)
  let ?rm = "rm\<lparr>deviceList := fst (discover_loop ds)\<rparr>"
  obtain servers where "update_loop hs ?rm 0 (resourceServers rm) = Returns servers"
    "length servers = length (resourceServers rm)"
    using assms update_loop_Returns [of 0 "resourceServers rm" ?rm hs] by (simp add: enough_configs_def)
  then show ?thesis
    using assms Inr
    by (simp add: periodic_tick_def DiscoverHostDevices_def enough_configs_def split_beta)
qed

lemma periodic_loop_Returns:
  "enough_configs rm \<Longrightarrow> \<exists>rm'. periodic_loop es rm = Returns rm' \<and> enough_configs rm' \<and>
     length (resourceServers rm') = length (resourceServers rm) \<and> configList rm' = configList rm"
proof (induction es rm rule: periodic_loop.induct)
  case (3 pci hs es rm)
  obtain rm1 where "periodic_tick pci hs rm = Returns rm1" "enough_configs rm1"
    "length (resourceServers rm1) = length (resourceServers rm)" "configList rm1 = configList rm"
    using periodic_tick_Returns [OF 3(2)] by blast
  then show ?case using 3(1) by simp
qed simp_all

section \<open>Starting and stopping all servers\<close>

text \<open>A server that listens: its socket has the path and the kernel lists it there.\<close>

definition listening :: "resourceServer \<Rightarrow> osys \<Rightarrow> bool" where
  "listening s os \<longleftrightarrow>
     (\<exists>l. own_listener s = Some l \<and> lis_path l = socketPath s \<and>
        paths os (socketPath s) = Some (SockNode (lis_ino l)) \<and>
        (lis_ino l, socketPath s) \<in> set (unix_rows os))"

lemma startLocked_listening:
  assumes "startLocked e e2 s os = (None, s', os')"
  shows "listening s' os' \<and> set (unix_rows os) \<subseteq> set (unix_rows os') \<and> rsc_GetServer s' \<noteq> None"
  using assms
proof (cases rule: startLocked_cases)
  case (bound held os1 s2 os2 sock s3 os3 s4 os4)
  then show ?thesis
    using start_bound_state [OF bound(1-5)] by (auto simp: listening_def same_server_def)
qed simp_all

lemma listening_other:
  assumes st: "startLocked e e2 t os = (None, t', os')" and ok: "listener_ok t"
    and l: "listening s os" and ne: "socketPath s \<noteq> socketPath t"
  shows "listening s os'"
proof -
  have "set (unix_rows os) \<subseteq> set (unix_rows os')" using startLocked_listening [OF st] by blast
  then show ?thesis
    using l start_op.op_other_path [OF st ok ne] by (auto simp: listening_def)
qed

lemma start_loop_success:
  assumes "start_loop envs wm n servers os = Returns r" "st_err r = None"
    and "\<forall>s \<in> set servers. rsConnector s \<noteq> None \<and> listener_ok s"
    and "distinct (map socketPath servers)"
  shows "list_all2 same_server servers (st_servers r) \<and>
    (\<forall>s \<in> set (st_servers r). listening s (st_mach r) \<and> rsc_GetServer s \<noteq> None) \<and>
    st_watched r = (if wm then [] else [n ..< n + length servers]) \<and>
    (\<forall>t. listening t os \<and> socketPath t \<notin> socketPath ` set servers \<longrightarrow> listening t (st_mach r))"
  using assms
proof (induction servers arbitrary: n os r)
  case (Cons s rest)
  have conn: "rsConnector s \<noteq> None" "listener_ok s" using Cons.prems(3) by simp_all
  obtain r1 s1 os1 where st: "startLocked (fst (envs n)) (snd (envs n)) s os = (r1, s1, os1)"
    by (cases "startLocked (fst (envs n)) (snd (envs n)) s os") auto
  have "r1 = None"
    using Cons.prems(1,2) conn st by (cases r1) (auto simp: Start_def)
  then have st': "startLocked (fst (envs n)) (snd (envs n)) s os = (None, s1, os1)" using st by simp
  obtain q where q: "start_loop envs wm (Suc n) rest os1 = Returns q"
    "r = q\<lparr>st_servers := s1 # st_servers q,
           st_watched := (if \<not> wm then n # st_watched q else st_watched q)\<rparr>"
    using Cons.prems(1) conn st' by (auto simp: Start_def split: outcome.splits)
  have ih: "list_all2 same_server rest (st_servers q) \<and>
    (\<forall>s \<in> set (st_servers q). listening s (st_mach q) \<and> rsc_GetServer s \<noteq> None) \<and>
    st_watched q = (if wm then [] else [Suc n ..< Suc n + length rest]) \<and>
    (\<forall>t. listening t os1 \<and> socketPath t \<notin> socketPath ` set rest \<longrightarrow> listening t (st_mach q))"
    using Cons.prems q by (intro Cons.IH) auto
  have s1: "listening s1 os1" "rsc_GetServer s1 \<noteq> None" "same_server s s1"
    using startLocked_listening [OF st'] start_op.op_server [OF st'] by auto
  have path: "socketPath s1 = socketPath s" using s1(3) by (simp add: same_server_def)
  have "listening s1 (st_mach q)" using ih s1 path Cons.prems(4) by auto
  moreover have "listening t (st_mach q)"
    if "listening t os" "socketPath t \<notin> socketPath ` set (s # rest)" for t
    using ih listening_other [OF st' conn(2) that(1)] that(2) by auto
  ultimately show ?case
    using ih q(2) s1 upt_conv_Cons [of n "n + length (s # rest)"] by (auto simp del: upt_Suc)
qed auto

lemma start_loop_no_panic:
  "\<forall>s \<in> set servers. rsConnector s \<noteq> None \<Longrightarrow> \<exists>r. start_loop envs wm n servers os = Returns r"
proof (induction servers arbitrary: n os)
  case (Cons s rest)
  obtain r1 s1 os1 where st: "startLocked (fst (envs n)) (snd (envs n)) s os = (r1, s1, os1)"
    by (cases "startLocked (fst (envs n)) (snd (envs n)) s os") auto
  obtain q where "start_loop envs wm (Suc n) rest os1 = Returns q" using Cons by fastforce
  then show ?case using Cons.prems st by (cases r1) (auto simp: Start_def)
qed simp

definition stoppable :: "nat list \<Rightarrow> nat \<Rightarrow> resourceServer \<Rightarrow> bool" where
  "stoppable watched i s \<longleftrightarrow> rsc_GetServer s = None \<or> watchMode s \<or> i \<in> set watched"

lemma Stop_returns: "stoppable watched i s \<Longrightarrow> \<exists>r. Stop (i \<in> set watched) e s os = Some r"
  by (cases "stopLocked e s os") (auto simp: Stop_def stoppable_def Let_def)

lemma stop_loop_returns:
  "\<forall>i < length servers. stoppable watched (n + i) (servers ! i) \<Longrightarrow>
     \<exists>r. stop_loop envs watched n servers os = Some r"
proof (induction servers arbitrary: n os)
  case (Cons s rest)
  have "stoppable watched n s" using Cons.prems by force
  then obtain e s1 os1 where st: "Stop (n \<in> set watched) (envs n) s os = Some (e, s1, os1)"
    using Stop_returns [of watched n s "envs n" os] by auto
  have "\<forall>i < length rest. stoppable watched (Suc n + i) (rest ! i)"
    using Cons.prems by (metis Suc_less_eq add_Suc_shift length_Cons nth_Cons_Suc)
  then obtain q where "stop_loop envs watched (Suc n) rest os1 = Some q" using Cons.IH by blast
  then show ?case using st by (cases e; cases q) auto
qed simp

section \<open>Properties\<close>

text \<open>C18: Once the configuration has been validated, building the servers cannot fail, whatever
  the host has, unless in CDI mode the clean-up of old specs does; and every server that
  \<^verbatim>\<open>InitServers\<close> builds, in the order of the file, carries the resource name of its
  configuration, has a socket path of its own and exposes exactly the RDMA devices of the usable
  devices that its selectors admit.\<close>

theorem init_builds_every_resource:
  assumes "ValidateConfigs rm0 = (None, rm)" "resourceServers rm0 = []"
    and "defaultResourcePrefix rm0 \<noteq> []"
    and "InitServers hs env rm files = (err, out)" "err = None \<or> \<not> rmUseCdi rm0 \<or> cleanup_works env cdiResourcePrefix"
  shows "err = None \<and> configList (out_rm out) = configList rm \<and>
    map resourceName (resourceServers (out_rm out)) =
      map (\<lambda>conf. ResourcePrefix conf @ ''/'' @ ResourceName conf) (configList rm) \<and>
    distinct (map socketPath (resourceServers (out_rm out))) \<and>
    map deviceSpec (resourceServers (out_rm out)) =
      map (\<lambda>i. concat (map GetRdmaSpec (GetFilteredDevices
            (List.map_filter (usable_device (hs i) (rds rm)) (deviceList rm))
            (ConfSelectors (configList rm ! i))))) [0 ..< length (configList rm)]"
proof -
  have ok: "configs_ok rm0"
    and rm: "rm = rm0\<lparr>configList := map (normalise (defaultResourcePrefix rm0)) (configList rm0)\<rparr>"
    using assms(1) by (simp_all add: ValidateConfigs_iff)
  have "list_all buildable (configList rm)"
    using ok buildable_normalised assms(3) by (auto simp: rm configs_ok_def list_all_iff)
  then have err: "err = None"
    using assms(4,5) init_loop_no_error [of "\<lparr>out_rm = rm, out_files = files, out_links = []\<rparr>"
        env "configList rm" hs 0]
    by (auto simp: InitServers_def rm)
  obtain servers where b: "out_rm out = rm\<lparr>resourceServers := servers\<rparr>"
    "length servers = length (configList rm)"
    "\<forall>i < length servers. built hs rm i (configList rm ! i) = Inr (servers ! i)"
    using InitServers_built [of hs env rm files out] assms(2,4) err rm by auto
  have names: "\<forall>conf \<in> set (configList rm). validResourceName (ResourceName conf)"
    "distinct (map ResourceName (configList rm))"
    using ok by (auto simp: rm configs_ok_def config_ok_def list_all_iff comp_def)
  have "map resourceName servers =
      map (\<lambda>conf. ResourcePrefix conf @ ''/'' @ ResourceName conf) (configList rm)"
    using b built_fields by (intro nth_equalityI) auto
  moreover have "map deviceSpec servers = map (\<lambda>i. concat (map GetRdmaSpec (GetFilteredDevices
      (List.map_filter (usable_device (hs i) (rds rm)) (deviceList rm))
      (ConfSelectors (configList rm ! i))))) [0 ..< length (configList rm)]"
    using b(2,3) built_fields
    by (intro nth_equalityI)
       (auto simp: pool_def GetDevices_def new_devices_eq getDevicesSpec_concat)
  ultimately show ?thesis
    using b(1) err built_distinct_paths [OF b(2,3) names] by simp
qed

lemma init_builds_every_resource_witness:
  "\<exists>rm out. ValidateConfigs (sample_rm [sample_config, device_config]) = (None, rm) \<and>
     InitServers (\<lambda>i. sample_host) sample_cdi rm [] = (None, out) \<and>
     map resourceName (resourceServers (out_rm out)) = [''rdma/hca_a'', ''rdma/hca_b'']"
proof -
  obtain rm where v: "ValidateConfigs (sample_rm [sample_config, device_config]) = (None, rm)"
    using sample_rm_ok ValidateConfigs_iff by blast
  obtain err out where i: "InitServers (\<lambda>i. sample_host) sample_cdi rm [] = (err, out)" by force
  have pre: "resourceServers (sample_rm [sample_config, device_config]) = []"
    "defaultResourcePrefix (sample_rm [sample_config, device_config]) = ''rdma''"
    "\<not> rmUseCdi (sample_rm [sample_config, device_config])"
    by (simp_all add: sample_rm_def NewResourceManager_def rdmaHcaResourcePrefix_def)
  have "configList rm = map (normalise ''rdma'') [sample_config, device_config]"
    using v pre(2) by (simp add: ValidateConfigs_iff) (simp add: sample_rm_def)
  then show ?thesis
    using init_builds_every_resource [OF v pre(1) _ i] pre v i
    by (simp add: sample_config_def device_config_def)
qed

text \<open>A tick of the periodic update never panics as long as there are not more servers than
  configurations, keeps that so, and keeps the servers in place; a failed discovery changes
  nothing, and after a successful one the manager knows exactly the devices whose class parses
  as a network controller.\<close>

lemma periodic_update_is_safe:
  assumes "length (resourceServers rm) \<le> length (configList rm)"
  shows "\<exists>rm'. PeriodicUpdate events rm = Returns rm' \<and>
    length (resourceServers rm') = length (resourceServers rm) \<and> configList rm' = configList rm \<and>
    periodic_tick (Inl e) hs rm = Returns rm \<and>
    (\<exists>servers. periodic_tick (Inr devices) hs rm = Returns (rm\<lparr>
       deviceList := filter (\<lambda>d. go_ParseInt16 (ghw_ClassID d) = Some netClass) devices,
       resourceServers := servers\<rparr>))"
proof -
  have en: "enough_configs rm" using assms by (simp add: enough_configs_def)
  have found: "fst (discover_loop devices) =
      filter (\<lambda>d. go_ParseInt16 (ghw_ClassID d) = Some netClass) devices"
    by (simp add: discover_loop_found network_device_def [abs_def])
  have "\<exists>servers. periodic_tick (Inr devices) hs rm = Returns (rm\<lparr>
       deviceList := fst (discover_loop devices), resourceServers := servers\<rparr>)"
    using update_loop_Returns [of 0 "resourceServers rm" "rm\<lparr>deviceList := fst (discover_loop devices)\<rparr>" hs]
      assms
    by (simp add: periodic_tick_def DiscoverHostDevices_def split_beta) (rule exI, rule refl)
  then show ?thesis
    using periodic_loop_Returns [OF en, of events] unfolding found
    by (auto simp: PeriodicUpdate_def periodic_tick_def DiscoverHostDevices_def)
qed

end
