(* ===== verification/MainProgram.thy ===== *)
theory MainProgram
  imports Manager
begin

text \<open>
  \<^verbatim>\<open>cmd/k8s-rdma-shared-dp/main.go\<close> and \<^verbatim>\<open>pkg/resources/watcher.go\<close>: the command line,
  the start-up sequence and the signal loop, with the goroutines that run beside it.  After
  start-up the program is a sequence of events: a signal arrives, the main loop takes one, the
  periodic update ticks, the watcher of a server looks at its socket, the kubelet reports the
  registration of a server.
\<close>

section \<open>The command line\<close>

record options =
  versionOpt :: bool
  configFilePath :: go_string
  optKubeletRootDir :: go_string
  optUseCdi :: bool

definition default_options :: options where
  "default_options =
     \<lparr>versionOpt = False, configFilePath = DefaultConfigFilePath,
      optKubeletRootDir = ''/var/lib/kubelet'', optUseCdi = False\<rparr>"

definition go_ParseBool :: "go_string \<Rightarrow> bool option" where
  "go_ParseBool s =
     (if s \<in> set [''1'', ''t'', ''T'', ''TRUE'', ''true'', ''True''] then Some True
      else if s \<in> set [''0'', ''f'', ''F'', ''FALSE'', ''false'', ''False''] then Some False
      else None)"

datatype flag_value = BoolFlag "bool \<Rightarrow> options \<Rightarrow> options" | StringFlag "go_string \<Rightarrow> options \<Rightarrow> options"

definition flag_of :: "go_string \<Rightarrow> flag_value option" where
  "flag_of name =
     (if name = ''version'' \<or> name = ''v'' then Some (BoolFlag (\<lambda>b oo. oo\<lparr>versionOpt := b\<rparr>))
      else if name = ''config-file'' then Some (StringFlag (\<lambda>s oo. oo\<lparr>configFilePath := s\<rparr>))
      else if name = ''kubelet-root-dir'' then Some (StringFlag (\<lambda>s oo. oo\<lparr>optKubeletRootDir := s\<rparr>))
      else if name = ''use-cdi'' then Some (BoolFlag (\<lambda>b oo. oo\<lparr>optUseCdi := b\<rparr>))
      else None)"

text \<open>A flag set with \<^verbatim>\<open>flag.ExitOnError\<close> ends the process with status 2 on a bad command
  line and with 0 after printing the usage.\<close>

datatype parsed = ParsedFlags options | FlagExit int

text \<open>An argument without its dashes: name, and the value after the first equals sign.\<close>

definition split_flag :: "go_string \<Rightarrow> go_string \<times> go_string option" where
  "split_flag s =
     (let name = takeWhile (\<lambda>c. c \<noteq> CHR ''='') s; rest = dropWhile (\<lambda>c. c \<noteq> CHR ''='') s
      in (name, if rest = [] then None else Some (tl rest)))"

datatype arg_kind = NotAFlag | Terminator | BadSyntax | FlagArg go_string "go_string option"

definition classify_arg :: "go_string \<Rightarrow> arg_kind" where
  "classify_arg s =
     (if length s < 2 \<or> hd s \<noteq> CHR ''-'' then NotAFlag
      else if s = ''--'' then Terminator
      else
        (let body = (if s ! 1 = CHR ''-'' then drop 2 s else drop 1 s) in
         if body = [] \<or> hd body = CHR ''-'' \<or> hd body = CHR ''='' then BadSyntax
         else (let (name, value) = split_flag body in FlagArg name value)))"

fun parse_args :: "go_string list \<Rightarrow> options \<Rightarrow> parsed" where
  "parse_args [] oo = ParsedFlags oo"
| "parse_args (s # args) oo =
     (case classify_arg s of
        NotAFlag \<Rightarrow> ParsedFlags oo
      | Terminator \<Rightarrow> ParsedFlags oo
      | BadSyntax \<Rightarrow> FlagExit 2
      | FlagArg name value \<Rightarrow>
          (case flag_of name of
             None \<Rightarrow> if name = ''help'' \<or> name = ''h'' then FlagExit 0 else FlagExit 2
           | Some (BoolFlag upd) \<Rightarrow>
               (case value of
                  None \<Rightarrow> parse_args args (upd True oo)
                | Some v \<Rightarrow>
                    (case go_ParseBool v of
                       None \<Rightarrow> FlagExit 2
                     | Some b \<Rightarrow> parse_args args (upd b oo)))
           | Some (StringFlag upd) \<Rightarrow>
               (case value of
                  Some v \<Rightarrow> parse_args args (upd v oo)
                | None \<Rightarrow>
                    (case args of
                       [] \<Rightarrow> FlagExit 2
                     | v # args' \<Rightarrow> parse_args args' (upd v oo)))))"

definition parseFlags :: "go_string list \<Rightarrow> parsed" where
  "parseFlags args = parse_args args default_options"

definition printVersionString :: "go_string \<Rightarrow> go_string \<Rightarrow> go_string \<Rightarrow> go_string" where
  "printVersionString version commit date =
     ''k8s-rdma-shared-dev-plugin version:'' @ version @ '', commit:'' @ commit @ '', date:'' @ date"

section \<open>Signals\<close>

datatype os_signal = SIGHUP | SIGINT | SIGTERM | SIGQUIT | OtherSignal nat

record signalNotifier =
  signals :: "os_signal list"

definition NewSignalNotifier :: "os_signal list \<Rightarrow> signalNotifier" where
  "NewSignalNotifier sigs = \<lparr>signals = sigs\<rparr>"

text \<open>The channel \<^verbatim>\<open>Notify\<close> returns: what is registered, and its buffer of capacity one; a
  signal that finds the buffer full is dropped.\<close>

record sig_chan =
  registered :: "os_signal list"
  buffered :: "os_signal list"

definition Notify :: "signalNotifier \<Rightarrow> sig_chan" where
  "Notify n = \<lparr>registered = signals n, buffered = []\<rparr>"

definition signal_arrives :: "os_signal \<Rightarrow> sig_chan \<Rightarrow> sig_chan" where
  "signal_arrives sig ch =
     (if sig \<in> set (registered ch) \<and> length (buffered ch) < 1
      then ch\<lparr>buffered := buffered ch @ [sig]\<rparr> else ch)"

section \<open>Start-up\<close>

datatype exit_point =
    ExitUsage int | ExitVersion go_string
  | FatalConfig goerr | FatalValidate goerr | FatalRdmaMode goerr | FatalDiscover goerr
  | FatalInit goerr | FatalStart goerr | FatalRestart goerr
  | ShutDown "goerr option"

record main_env =
  me_version :: go_string
  me_commit :: go_string
  me_date :: go_string
  me_Stat :: "go_string \<Rightarrow> goerr option"
  me_ReadFile :: "go_string \<Rightarrow> go_string result"
  me_Unmarshal :: "go_string \<Rightarrow> UserConfigList result"
  me_NetnsMode :: "go_string + go_string"
  me_PCI :: "ghwDevice list result"
  me_hosts :: "nat \<Rightarrow> host"
  me_cdi :: cdi_env
  me_start :: "nat \<Rightarrow> os_env \<times> os_env"

record sys =
  sys_rm :: resourceManager
  sys_files :: spec_files
  sys_watched :: "nat list"
  sys_mach :: osys
  sys_sigs :: sig_chan

datatype main_outcome = Running sys | Finished exit_point spec_files osys | Panicked | Blocked

text \<open>Everything before the servers are started: the exit, or the manager with its servers.\<close>

definition main_prepare ::
  "main_env \<Rightarrow> options \<Rightarrow> spec_files \<Rightarrow> exit_point \<times> spec_files + init_out" where
  "main_prepare env oo files =
     (let rm0 = NewResourceManager (me_Stat env) (configFilePath oo) (optKubeletRootDir oo) (optUseCdi oo)
      in case ReadConfig (me_ReadFile env) (me_Unmarshal env) rm0 of
           (Some e, _) \<Rightarrow> Inl (FatalConfig e, files)
         | (None, rm1) \<Rightarrow>
      (case ValidateConfigs rm1 of
         (Some e, _) \<Rightarrow> Inl (FatalValidate e, files)
       | (None, rm2) \<Rightarrow>
      (case ValidateRdmaSystemMode (me_NetnsMode env) of
         Some e \<Rightarrow> Inl (FatalRdmaMode e, files)
       | None \<Rightarrow>
      (case DiscoverHostDevices (me_PCI env) rm2 of
         (Some e, _) \<Rightarrow> Inl (FatalDiscover e, files)
       | (None, rm3, _) \<Rightarrow>
      (case InitServers (me_hosts env) (me_cdi env) rm3 files of
         (Some e, out) \<Rightarrow> Inl (FatalInit e, out_files out)
       | (None, out) \<Rightarrow> Inr out)))))"

definition main_start :: "main_env \<Rightarrow> options \<Rightarrow> spec_files \<Rightarrow> osys \<Rightarrow> main_outcome" where
  "main_start env oo files os =
     (case main_prepare env oo files of
        Inl (x, files1) \<Rightarrow> Finished x files1 os
      | Inr out \<Rightarrow>
          (case StartAllServers (me_start env) (out_rm out) os of
             Panics \<Rightarrow> Panicked
           | Returns (Some e, _, _, os1) \<Rightarrow> Finished (FatalStart e) (out_files out) os1
           | Returns (None, rm5, watched, os1) \<Rightarrow>
               Running \<lparr>sys_rm = rm5, sys_files = out_files out, sys_watched = watched,
                        sys_mach = os1,
                        sys_sigs = Notify (NewSignalNotifier [SIGHUP, SIGINT, SIGTERM, SIGQUIT])\<rparr>))"

definition main_prog :: "main_env \<Rightarrow> go_string list \<Rightarrow> spec_files \<Rightarrow> osys \<Rightarrow> main_outcome" where
  "main_prog env args files os =
     (case parseFlags args of
        FlagExit n \<Rightarrow> Finished (ExitUsage n) files os
      | ParsedFlags oo \<Rightarrow>
          if versionOpt oo
          then Finished (ExitVersion (printVersionString (me_version env) (me_commit env) (me_date env)))
                 files os
          else main_start env oo files os)"

section \<open>The running program\<close>

datatype main_event =
    SignalArrives os_signal
  | MainTakes "nat \<Rightarrow> os_env \<times> os_env" cdi_env
  | PeriodicTick "ghwDevice list result" "nat \<Rightarrow> host"
  | WatcherLooks nat os_env os_env
  | KubeletNotifies nat bool

definition handle_signal ::
  "(nat \<Rightarrow> os_env \<times> os_env) \<Rightarrow> cdi_env \<Rightarrow> os_signal \<Rightarrow> sys \<Rightarrow> main_outcome" where
  "handle_signal envs env sig c =
     (case sig of
        SIGHUP \<Rightarrow>
          (case RestartAllServers envs env (sys_rm c) (sys_files c) (sys_mach c) of
             (Some e, rm1, files1, os1) \<Rightarrow> Finished (FatalRestart e) files1 os1
           | (None, rm1, files1, os1) \<Rightarrow>
               Running (c\<lparr>sys_rm := rm1, sys_files := files1, sys_mach := os1\<rparr>))
      | _ \<Rightarrow>
          (case PeriodicUpdate (stopPeriodicUpdate (sys_rm c)) (sys_rm c) of
             Panics \<Rightarrow> Panicked
           | Returns rm0 \<Rightarrow>
               (case StopAllServers (\<lambda>n. fst (envs n)) env (sys_watched c) rm0 (sys_files c)
                       (sys_mach c) of
                  None \<Rightarrow> Blocked
                | Some (err, rm1, files1, os1) \<Rightarrow> Finished (ShutDown err) files1 os1)))"

definition set_server :: "nat \<Rightarrow> resourceServer \<Rightarrow> osys \<Rightarrow> sys \<Rightarrow> sys" where
  "set_server i s os c =
     c\<lparr>sys_rm := (sys_rm c)\<lparr>resourceServers := (resourceServers (sys_rm c))[i := s]\<rparr>,
       sys_mach := os\<rparr>"

text \<open>The kubelet calls a server through the socket it serves; the registration service exists
  in watch mode only.\<close>

fun main_step :: "main_event \<Rightarrow> sys \<Rightarrow> main_outcome" where
  "main_step (SignalArrives sig) c = Running (c\<lparr>sys_sigs := signal_arrives sig (sys_sigs c)\<rparr>)"
| "main_step (MainTakes envs env) c =
     (case buffered (sys_sigs c) of
        [] \<Rightarrow> Running c
      | sig # rest \<Rightarrow> handle_signal envs env sig (c\<lparr>sys_sigs := (sys_sigs c)\<lparr>buffered := rest\<rparr>\<rparr>))"
| "main_step (PeriodicTick pci hs) c =
     (case PeriodicUpdate [Tick pci hs] (sys_rm c) of
        Panics \<Rightarrow> Panicked
      | Returns rm1 \<Rightarrow> Running (c\<lparr>sys_rm := rm1\<rparr>))"
| "main_step (WatcherLooks i e e2) c =
     (if i \<in> set (sys_watched c) \<and> i < length (resourceServers (sys_rm c)) then
        (let (_, s, os) = watch_round e e2 None (resourceServers (sys_rm c) ! i) (sys_mach c)
         in Running (set_server i s os c))
      else Running c)"
| "main_step (KubeletNotifies i ok) c =
     (if i < length (resourceServers (sys_rm c)) \<and>
         watchMode (resourceServers (sys_rm c) ! i) \<and>
         own_listener (resourceServers (sys_rm c) ! i) \<noteq> None then
        (case NotifyRegistrationStatus ok (resourceServers (sys_rm c) ! i) (sys_mach c) of
           Panics \<Rightarrow> Panicked
         | Returns (s, os) \<Rightarrow> Running (set_server i s os c))
      else Running c)"

fun main_run :: "main_event list \<Rightarrow> sys \<Rightarrow> main_outcome" where
  "main_run [] c = Running c"
| "main_run (e # es) c =
     (case main_step e c of Running c1 \<Rightarrow> main_run es c1 | r \<Rightarrow> r)"

section \<open>The invariant of the running program\<close>

definition server_sound :: "resourceServer \<Rightarrow> bool" where
  "server_sound s \<longleftrightarrow> inventory_ok s \<and> listener_ok s \<and> rsConnector s \<noteq> None"

definition sys_inv :: "sys \<Rightarrow> bool" where
  "sys_inv c \<longleftrightarrow>
     list_all server_sound (resourceServers (sys_rm c)) \<and>
     length (resourceServers (sys_rm c)) = length (configList (sys_rm c)) \<and>
     distinct (map socketPath (resourceServers (sys_rm c))) \<and>
     (\<forall>s \<in> set (resourceServers (sys_rm c)). watchMode s = rmWatchMode (sys_rm c)) \<and>
     sys_watched c =
       (if rmWatchMode (sys_rm c) then [] else [0 ..< length (resourceServers (sys_rm c))])"

text \<open>A change of one server that keeps what the invariant needs.\<close>

definition sound_change :: "resourceServer \<Rightarrow> resourceServer \<Rightarrow> bool" where
  "sound_change s s' \<longleftrightarrow>
     (server_sound s \<longrightarrow> server_sound s') \<and> socketPath s' = socketPath s \<and> watchMode s' = watchMode s"

lemma sound_change_refl [simp]: "sound_change s s"
  by (simp add: sound_change_def)

lemma same_server_paths: "same_server s s' \<Longrightarrow> socketPath s' = socketPath s \<and> watchMode s' = watchMode s"
  by (simp add: same_server_def)

lemma same_server_inventory: "same_server s s' \<Longrightarrow> inventory_ok s \<Longrightarrow> inventory_ok s'"
  by (simp add: same_server_def inventory_ok_def device_list_def)

lemma rsConnector_running: "rsc_GetServer s \<noteq> None \<Longrightarrow> rsConnector s \<noteq> None"
  by (cases "rsConnector s") (auto simp: rsc_GetServer_def)

lemma Restart_sound:
  assumes "Restart e e2 s os = (r, s', os')"
  shows "sound_change s s'"
proof -
  have "rsConnector s' \<noteq> None" if "rsConnector s \<noteq> None"
  proof (cases "rsc_GetServer s = None")
    case True
    then show ?thesis using assms that by (auto simp: Restart_def)
  next
    case False
    have "startLocked e e2 (rsc_DeleteServer (fst (rsc_Stop s os))) (snd (rsc_Stop s os)) = (r, s', os')"
      using assms that False by (simp add: Restart_def split_beta del: not_None_eq)
    then show ?thesis
    proof (cases rule: startLocked_cases)
      case (not_bound held os1 s2 os2 err)
      then show ?thesis using start_reclaim_state [OF not_bound(2)] by (simp add: rsConnector_running)
    next
      case (bound held os1 s2 os2 sock s3 os3 s4 os4)
      then show ?thesis using start_bound_state [OF bound(1-5)] by (simp add: rsConnector_running)
    next
      case (refused held os1 s2 os2 sock s3 os3 s4 os4 err r5)
      then obtain os1' where s': "s' = fst (rsc_Stop (clearSocketOwnershipLocked s4) os1')"
        using stopAndRemove_parts by metis
      have "rsc_GetServer s4 \<noteq> None" using start_bound_state [OF refused(1-5)] by simp
      then show ?thesis
        unfolding s' by (auto simp: rsc_Stop_def frame_simps rsConnector_running split: option.splits)
    qed
  qed
  then show ?thesis
    using restart_op.op_server [OF assms] restart_op.op_listener [OF assms]
    by (simp add: sound_change_def server_sound_def same_server_inventory same_server_paths)
qed

lemma rsc_Stop_sound: "sound_change s (fst (rsc_Stop s os))"
proof -
  have same: "same_server s (fst (rsc_Stop s os))" by simp
  have "rsConnector (fst (rsc_Stop s os)) \<noteq> None" if "rsConnector s \<noteq> None"
    using that by (simp add: rsc_Stop_def split: option.splits)
  then show ?thesis
    using same_server_inventory [OF same] same_server_paths [OF same]
    by (simp add: sound_change_def server_sound_def listener_ok_def)
qed

lemma UpdateDevices_sound: "sound_change s (UpdateDevices ds s)"
proof -
  have "rsConnector (UpdateDevices ds s) = rsConnector s \<and> socketPath (UpdateDevices ds s) = socketPath s
      \<and> watchMode (UpdateDevices ds s) = watchMode s"
    by (cases rule: update_locked_cases [where s = s and ds = ds])
       (simp_all add: UpdateDevices_def notifyUpdate_def)
  then show ?thesis
    using update_op.op_inventory_ok
    by (simp add: sound_change_def server_sound_def listener_ok_def own_listener_def rsc_GetServer_def)
qed

text \<open>The invariant survives when every server changes soundly.\<close>

lemma sys_inv_change:
  assumes inv: "sys_inv c" and ch: "list_all2 sound_change (resourceServers (sys_rm c)) servers"
    and c': "resourceServers (sys_rm c') = servers" "configList (sys_rm c') = configList (sys_rm c)"
      "rmWatchMode (sys_rm c') = rmWatchMode (sys_rm c)" "sys_watched c' = sys_watched c"
  shows "sys_inv c'"
proof -
  have len: "length servers = length (resourceServers (sys_rm c))"
    using ch by (simp add: list_all2_lengthD)
  have each: "sound_change (resourceServers (sys_rm c) ! i) (servers ! i)" if "i < length servers" for i
    using list_all2_nthD2 [OF ch] that by simp
  have "map socketPath servers = map socketPath (resourceServers (sys_rm c))"
    using len each by (intro nth_equalityI) (simp_all add: sound_change_def)
  moreover have "list_all server_sound servers"
    using inv len each by (auto simp: sys_inv_def list_all_length sound_change_def)
  moreover have "watchMode (servers ! i) = rmWatchMode (sys_rm c)" if "i < length servers" for i
    using inv each [OF that] nth_mem [of i "resourceServers (sys_rm c)"] that len
    by (simp add: sys_inv_def sound_change_def)
  then have "\<forall>s \<in> set servers. watchMode s = rmWatchMode (sys_rm c)"
    by (auto simp: in_set_conv_nth)
  ultimately show ?thesis using inv c' len by (simp add: sys_inv_def)
qed

lemma sys_inv_set_server:
  assumes inv: "sys_inv c" and i: "i < length (resourceServers (sys_rm c))"
    and ch: "sound_change (resourceServers (sys_rm c) ! i) s"
  shows "sys_inv (set_server i s os c)"
proof (rule sys_inv_change [OF inv])
  show "list_all2 sound_change (resourceServers (sys_rm c)) ((resourceServers (sys_rm c))[i := s])"
    using i ch by (auto simp: list_all2_conv_all_nth nth_list_update)
qed (simp_all add: set_server_def)

section \<open>Start-up establishes the invariant\<close>

lemma main_prepare_parts:
  assumes "main_prepare env oo files = Inr out"
  obtains rm1 rm2 found logged where
    "ReadConfig (me_ReadFile env) (me_Unmarshal env)
       (NewResourceManager (me_Stat env) (configFilePath oo) (optKubeletRootDir oo) (optUseCdi oo))
       = (None, rm1)"
    "ValidateConfigs rm1 = (None, rm2)" "ValidateRdmaSystemMode (me_NetnsMode env) = None"
    "DiscoverHostDevices (me_PCI env) rm2 = (None, rm2\<lparr>deviceList := found\<rparr>, logged)"
    "InitServers (me_hosts env) (me_cdi env) (rm2\<lparr>deviceList := found\<rparr>) files = (None, out)"
proof -
  obtain rm1 where p1: "ReadConfig (me_ReadFile env) (me_Unmarshal env)
      (NewResourceManager (me_Stat env) (configFilePath oo) (optKubeletRootDir oo) (optUseCdi oo))
      = (None, rm1)"
    using assms by (auto simp: main_prepare_def Let_def split: prod.splits option.splits)
  obtain rm2 where p2: "ValidateConfigs rm1 = (None, rm2)"
    using assms by (auto simp: main_prepare_def Let_def p1 split: prod.splits option.splits)
  have p3: "ValidateRdmaSystemMode (me_NetnsMode env) = None"
    using assms by (auto simp: main_prepare_def Let_def p1 p2 split: option.splits)
  obtain found logged where p4:
    "DiscoverHostDevices (me_PCI env) rm2 = (None, rm2\<lparr>deviceList := found\<rparr>, logged)"
    using assms
    by (cases "me_PCI env")
       (auto simp: main_prepare_def Let_def p1 p2 p3 DiscoverHostDevices_def split: prod.splits)
  have p5: "InitServers (me_hosts env) (me_cdi env) (rm2\<lparr>deviceList := found\<rparr>) files = (None, out)"
    using assms
    by (auto simp: main_prepare_def Let_def p1 p2 p3 p4 split: prod.splits option.splits)
  show thesis by (rule that [OF p1 p2 p3 p4 p5])
qed

lemma main_start_parts:
  assumes "main_start env oo files os = Running c"
  obtains rm1 rm2 found logged out rm5 watched os1 where
    "ReadConfig (me_ReadFile env) (me_Unmarshal env)
       (NewResourceManager (me_Stat env) (configFilePath oo) (optKubeletRootDir oo) (optUseCdi oo))
       = (None, rm1)"
    "ValidateConfigs rm1 = (None, rm2)" "ValidateRdmaSystemMode (me_NetnsMode env) = None"
    "DiscoverHostDevices (me_PCI env) rm2 = (None, rm2\<lparr>deviceList := found\<rparr>, logged)"
    "InitServers (me_hosts env) (me_cdi env) (rm2\<lparr>deviceList := found\<rparr>) files = (None, out)"
    "StartAllServers (me_start env) (out_rm out) os = Returns (None, rm5, watched, os1)"
    "c = \<lparr>sys_rm = rm5, sys_files = out_files out, sys_watched = watched, sys_mach = os1,
          sys_sigs = Notify (NewSignalNotifier [SIGHUP, SIGINT, SIGTERM, SIGQUIT])\<rparr>"
proof -
  obtain out where prep: "main_prepare env oo files = Inr out"
    using assms by (auto simp: main_start_def split: sum.splits)
  obtain rm5 watched os1 where p6:
    "StartAllServers (me_start env) (out_rm out) os = Returns (None, rm5, watched, os1)"
    using assms by (auto simp: main_start_def prep split: outcome.splits prod.splits option.splits)
  have p7: "c = \<lparr>sys_rm = rm5, sys_files = out_files out, sys_watched = watched, sys_mach = os1,
      sys_sigs = Notify (NewSignalNotifier [SIGHUP, SIGINT, SIGTERM, SIGQUIT])\<rparr>"
    using assms by (simp add: main_start_def prep p6)
  show thesis using prep by (rule main_prepare_parts) (rule that [OF _ _ _ _ _ p6 p7])
qed

text \<open>The manager after validation and discovery.\<close>

definition prepared :: "resourceManager \<Rightarrow> bool" where
  "prepared rm \<longleftrightarrow>
     resourceServers rm = [] \<and> distinct (map ResourceName (configList rm)) \<and>
     (\<forall>conf \<in> set (configList rm). validResourceName (ResourceName conf) \<and> 0 \<le> RdmaHcaMax conf)"

lemma ValidateConfigs_prepared:
  assumes "ValidateConfigs rm = (None, rm')" "resourceServers rm = []"
  shows "prepared (rm'\<lparr>deviceList := ds\<rparr>)"
  using assms by (auto simp: ValidateConfigs_iff prepared_def configs_ok_def config_ok_def
      list_all_iff comp_def)

lemma ReadConfig_frame:
  "ReadConfig rf un rm = (r, rm') \<Longrightarrow> resourceServers rm' = resourceServers rm"
  by (auto simp: ReadConfig_def Let_def split: sum.splits)

lemma start_all_inv:
  assumes prep: "prepared rm" and init: "InitServers hs env rm files = (None, out)"
    and start: "StartAllServers envs (out_rm out) os = Returns (None, rm5, watched, os1)"
  shows "sys_inv \<lparr>sys_rm = rm5, sys_files = fs, sys_watched = watched, sys_mach = os1, sys_sigs = ch\<rparr>
    \<and> (\<forall>s \<in> set (resourceServers rm5). listening s os1 \<and> rsc_GetServer s \<noteq> None)
    \<and> configList rm5 = configList rm
    \<and> map resourceName (resourceServers rm5) =
        map (\<lambda>conf. ResourcePrefix conf @ ''/'' @ ResourceName conf) (configList rm)"
proof -
  obtain servers where b: "out_rm out = rm\<lparr>resourceServers := servers\<rparr>"
    "length servers = length (configList rm)"
    "\<forall>i < length servers. built hs rm i (configList rm ! i) = Inr (servers ! i)"
    using InitServers_built [OF init] prep by (auto simp: prepared_def)
  have dist: "distinct (map socketPath servers)"
    using built_distinct_paths [OF b(2,3)] prep by (auto simp: prepared_def)
  have B: "rsConnector s = Some None \<and> inventory_ok s \<and> listener_ok s \<and> watchMode s = rmWatchMode rm"
    if s: "s \<in> set servers" for s
  proof -
    obtain i where "i < length servers" "s = servers ! i"
      using s unfolding in_set_conv_nth by blast
    then show ?thesis using built_fields b(3) by metis
  qed
  obtain r where r: "start_loop envs (rmWatchMode rm) 0 servers os = Returns r"
    "st_err r = None" "rm5 = rm\<lparr>resourceServers := st_servers r\<rparr>" "watched = st_watched r"
    "os1 = st_mach r"
    using start b(1) by (auto simp: StartAllServers_def split: outcome.splits)
  have S: "list_all2 same_server servers (st_servers r)"
    "\<forall>s \<in> set (st_servers r). listening s (st_mach r) \<and> rsc_GetServer s \<noteq> None"
    "st_watched r = (if rmWatchMode rm then [] else [0 ..< length servers])"
    using start_loop_success [OF r(1,2)] B dist by auto
  have len: "length (st_servers r) = length servers" using S(1) by (simp add: list_all2_lengthD)
  have same: "same_server (servers ! i) (st_servers r ! i)" if "i < length servers" for i
    using list_all2_nthD [OF S(1)] that by simp
  have "map socketPath (st_servers r) = map socketPath servers"
    using len same by (intro nth_equalityI) (simp_all add: same_server_def)
  moreover have "server_sound (st_servers r ! i) \<and> watchMode (st_servers r ! i) = rmWatchMode rm"
    if i: "i < length servers" for i
  proof -
    have "listening (st_servers r ! i) (st_mach r)" "rsc_GetServer (st_servers r ! i) \<noteq> None"
      using S(2) i len by auto
    then show ?thesis
      using B [of "servers ! i"] same [OF i] i same_server_inventory same_server_paths
      by (auto simp: server_sound_def listener_ok_def listening_def rsConnector_running
          simp del: not_None_eq)
  qed
  ultimately have "sys_inv \<lparr>sys_rm = rm5, sys_files = fs, sys_watched = watched, sys_mach = os1,
      sys_sigs = ch\<rparr>"
    using dist b(2) len S(3) r by (auto simp: sys_inv_def list_all_length in_set_conv_nth)
  moreover have "map resourceName (st_servers r) =
      map (\<lambda>conf. ResourcePrefix conf @ ''/'' @ ResourceName conf) (configList rm)"
    using len b same built_fields by (intro nth_equalityI) (auto simp: same_server_def)
  ultimately show ?thesis using S(2) r by simp
qed

section \<open>The events keep it\<close>

lemma restart_loop_sound:
  "restart_loop envs n servers os = (r, servers', os') \<Longrightarrow> list_all2 sound_change servers servers'"
proof (induction servers arbitrary: n os r servers' os')
  case (Cons s rest)
  obtain e1 s1 os1 where st: "Restart (fst (envs n)) (snd (envs n)) s os = (e1, s1, os1)"
    by (cases "Restart (fst (envs n)) (snd (envs n)) s os") auto
  obtain e2 rest2 os2 where more: "restart_loop envs (Suc n) rest os1 = (e2, rest2, os2)"
    by (cases "restart_loop envs (Suc n) rest os1") auto
  have "list_all2 sound_change rest rest" by (simp add: list_all2_refl)
  moreover have "servers' = s1 # rest \<or> servers' = s1 # rest2"
    using Cons.prems st more by (cases e1) auto
  ultimately show ?case using Cons.IH [OF more] Restart_sound [OF st] by auto
qed simp

text \<open>A tick gives every server an update or leaves it alone.\<close>

lemma periodic_tick_updates:
  assumes "length (resourceServers rm) \<le> length (configList rm)"
  shows "\<exists>rm'. periodic_tick pci hs rm = Returns rm' \<and>
    list_all2 (\<lambda>s s'. s' = s \<or> (\<exists>ds. s' = UpdateDevices ds s)) (resourceServers rm) (resourceServers rm') \<and>
    configList rm' = configList rm \<and> rmWatchMode rm' = rmWatchMode rm \<and> rmUseCdi rm' = rmUseCdi rm"
proof (cases pci)
  case (Inl e)
  then show ?thesis by (simp add: periodic_tick_def DiscoverHostDevices_def list_all2_refl)
next
  case (Inr ds)
  let ?rm = "rm\<lparr>deviceList := fst (discover_loop ds)\<rparr>"
  define upd where "upd = (\<lambda>i. UpdateDevices (pool (hs i) ?rm (configList rm ! i)) (resourceServers rm ! i))"
  have u: "update_loop hs ?rm 0 (resourceServers rm) =
      Returns (map upd [0 ..< length (resourceServers rm)])"
    using update_loop_Returns [of 0 "resourceServers rm" ?rm hs] assms by (simp add: upd_def)
  have "list_all2 (\<lambda>s s'. s' = s \<or> (\<exists>ds. s' = UpdateDevices ds s)) (resourceServers rm)
      (map upd [0 ..< length (resourceServers rm)])"
    by (auto simp: list_all2_conv_all_nth upd_def)
  then show ?thesis
    using Inr u by (simp add: periodic_tick_def DiscoverHostDevices_def split_beta)
qed

lemma periodic_tick_sound:
  assumes "length (resourceServers rm) \<le> length (configList rm)"
  shows "\<exists>rm'. periodic_tick pci hs rm = Returns rm' \<and>
    list_all2 sound_change (resourceServers rm) (resourceServers rm') \<and>
    configList rm' = configList rm \<and> rmWatchMode rm' = rmWatchMode rm"
  using periodic_tick_updates [OF assms, of pci hs] UpdateDevices_sound
  by (fastforce elim!: list_all2_mono)

lemma watch_round_sound:
  "watch_round e e2 msg s os = (b, s', os') \<Longrightarrow> sound_change s s'"
  by (auto simp: watch_round_def Restart_sound split: option.splits lstat_answer.splits prod.splits
      if_splits)

lemma Notify_sound:
  assumes "own_listener s \<noteq> None"
  shows "\<exists>s' os'. NotifyRegistrationStatus ok s os = Returns (s', os') \<and> sound_change s s'"
proof -
  have "rsc_GetServer s \<noteq> None" using assms by (auto simp: own_listener_def split: option.splits)
  then show ?thesis
    using rsc_Stop_sound [of s os]
    by (cases ok; cases "rsc_Stop s os") (auto simp: NotifyRegistrationStatus_def)
qed

text \<open>What a step may answer.\<close>

definition good_outcome :: "main_outcome \<Rightarrow> bool" where
  "good_outcome r \<longleftrightarrow>
     (case r of Running c \<Rightarrow> sys_inv c | Finished x fs os \<Rightarrow> True | Panicked \<Rightarrow> False | Blocked \<Rightarrow> False)"

lemma good_outcome_simps [simp]:
  "good_outcome (Running c) = sys_inv c" "good_outcome (Finished x fs os)"
  by (simp_all add: good_outcome_def)

lemma sys_inv_frame:
  assumes "sys_inv c" "sys_rm c' = sys_rm c" "sys_watched c' = sys_watched c"
  shows "sys_inv c'"
  using assms by (simp add: sys_inv_def)

lemma restart_good:
  assumes "sys_inv c"
  shows "good_outcome (handle_signal envs env SIGHUP c)"
proof -
  obtain r rm1 fs1 os1 where rs:
    "RestartAllServers envs env (sys_rm c) (sys_files c) (sys_mach c) = (r, rm1, fs1, os1)"
    by (cases "RestartAllServers envs env (sys_rm c) (sys_files c) (sys_mach c)") auto
  show ?thesis
  proof (cases r)
    case None
    obtain servers os2 where "restart_loop envs 0 (resourceServers (sys_rm c)) (sys_mach c) = (None, servers, os2)"
      "rm1 = (sys_rm c)\<lparr>resourceServers := servers\<rparr>"
      using rs None by (auto simp: RestartAllServers_def Let_def split: prod.splits option.splits if_splits)
    then show ?thesis
      using sys_inv_change [OF assms restart_loop_sound] rs None by (simp add: handle_signal_def)
  next
    case (Some e)
    then show ?thesis using rs by (simp add: handle_signal_def)
  qed
qed

lemma stop_all_returns:
  assumes "sys_inv c"
  shows "\<exists>r. StopAllServers envs env (sys_watched c) (sys_rm c) fs os = Some r"
proof -
  have "stoppable (sys_watched c) (0 + i) (resourceServers (sys_rm c) ! i)"
    if "i < length (resourceServers (sys_rm c))" for i
    using assms that by (auto simp: sys_inv_def stoppable_def)
  then obtain q where q:
    "stop_loop envs (sys_watched c) 0 (resourceServers (sys_rm c)) os = Some q"
    using stop_loop_returns by blast
  show ?thesis
    by (cases q; simp add: StopAllServers_def q Let_def split: prod.split option.split)
qed

lemma stop_good:
  assumes "sys_inv c" "sig \<noteq> SIGHUP"
  shows "good_outcome (handle_signal envs env sig c)"
proof -
  obtain r where "StopAllServers (\<lambda>n. fst (envs n)) env (sys_watched c) (sys_rm c) (sys_files c)
      (sys_mach c) = Some r"
    using stop_all_returns [OF assms(1)] by blast
  then show ?thesis
    using assms(2)
    by (cases sig; cases r)
       (auto simp: handle_signal_def PeriodicUpdate_def stopPeriodicUpdate_def)
qed

lemma main_step_good:
  assumes inv: "sys_inv c"
  shows "good_outcome (main_step e c)"
proof (cases e)
  case (SignalArrives sig)
  then show ?thesis using sys_inv_frame [OF inv] by simp
next
  case (MainTakes envs env)
  show ?thesis
  proof (cases "buffered (sys_sigs c)")
    case Nil
    then show ?thesis using MainTakes inv by simp
  next
    case (Cons sig rest)
    let ?c = "c\<lparr>sys_sigs := (sys_sigs c)\<lparr>buffered := rest\<rparr>\<rparr>"
    have "sys_inv ?c" using sys_inv_frame [OF inv] by simp
    then have "good_outcome (handle_signal envs env sig ?c)"
      using restart_good stop_good by (cases "sig = SIGHUP") auto
    then show ?thesis using MainTakes Cons by simp
  qed
next
  case (PeriodicTick pci hs)
  obtain rm' where rm': "periodic_tick pci hs (sys_rm c) = Returns rm'"
    "list_all2 sound_change (resourceServers (sys_rm c)) (resourceServers rm')"
    "configList rm' = configList (sys_rm c)" "rmWatchMode rm' = rmWatchMode (sys_rm c)"
    using periodic_tick_sound [of "sys_rm c" pci hs] inv by (auto simp: sys_inv_def)
  have "sys_inv (c\<lparr>sys_rm := rm'\<rparr>)"
    using sys_inv_change [OF inv rm'(2)] rm'(3,4) by simp
  then show ?thesis
    using PeriodicTick rm'(1) sys_inv_frame [OF inv] by (simp add: PeriodicUpdate_def)
next
  case (WatcherLooks i e1 e2)
  obtain b s os where w:
    "watch_round e1 e2 None (resourceServers (sys_rm c) ! i) (sys_mach c) = (b, s, os)"
    by (cases "watch_round e1 e2 None (resourceServers (sys_rm c) ! i) (sys_mach c)") auto
  show ?thesis
    using sys_inv_set_server [OF inv _ watch_round_sound [OF w]] inv w WatcherLooks by simp
next
  case (KubeletNotifies i ok)
  show ?thesis
  proof (cases "i < length (resourceServers (sys_rm c)) \<and>
      watchMode (resourceServers (sys_rm c) ! i) \<and> own_listener (resourceServers (sys_rm c) ! i) \<noteq> None")
    case True
    then obtain s os where n:
      "NotifyRegistrationStatus ok (resourceServers (sys_rm c) ! i) (sys_mach c) = Returns (s, os)"
      "sound_change (resourceServers (sys_rm c) ! i) s"
      using Notify_sound by blast
    have "sys_inv (set_server i s os c)" using sys_inv_set_server [OF inv _ n(2)] True by blast
    then show ?thesis using True n(1) KubeletNotifies by simp
  next
    case False
    then show ?thesis using inv KubeletNotifies by auto
  qed
qed

lemma main_run_good: "sys_inv c \<Longrightarrow> good_outcome (main_run es c)"
proof (induction es arbitrary: c)
  case (Cons e es)
  have "good_outcome (main_step e c)" by (rule main_step_good [OF Cons.prems])
  then show ?case using Cons.IH by (cases "main_step e c") (auto simp: good_outcome_def)
qed simp

lemma main_start_inv:
  assumes "main_start env oo files os = Running c"
  shows "sys_inv c \<and> (\<forall>s \<in> set (resourceServers (sys_rm c)). listening s (sys_mach c))"
proof -
  obtain rm1 rm2 found logged out rm5 watched os1 where p:
    "ReadConfig (me_ReadFile env) (me_Unmarshal env)
       (NewResourceManager (me_Stat env) (configFilePath oo) (optKubeletRootDir oo) (optUseCdi oo))
       = (None, rm1)"
    "ValidateConfigs rm1 = (None, rm2)"
    "InitServers (me_hosts env) (me_cdi env) (rm2\<lparr>deviceList := found\<rparr>) files = (None, out)"
    "StartAllServers (me_start env) (out_rm out) os = Returns (None, rm5, watched, os1)"
    "c = \<lparr>sys_rm = rm5, sys_files = out_files out, sys_watched = watched, sys_mach = os1,
          sys_sigs = Notify (NewSignalNotifier [SIGHUP, SIGINT, SIGTERM, SIGQUIT])\<rparr>"
    using assms by (rule main_start_parts)
  have "resourceServers rm1 = []" using ReadConfig_frame [OF p(1)] by (simp add: NewResourceManager_def)
  then have "prepared (rm2\<lparr>deviceList := found\<rparr>)" by (rule ValidateConfigs_prepared [OF p(2)])
  then show ?thesis
    using start_all_inv [OF _ p(3,4), of "out_files out"
        "Notify (NewSignalNotifier [SIGHUP, SIGINT, SIGTERM, SIGQUIT])"] p(5) by simp
qed

lemma start_all_no_panic:
  assumes init: "InitServers hs cenv (rm2\<lparr>deviceList := found\<rparr>) files = (None, out)"
    and val: "ValidateConfigs rm1 = (None, rm2)" and none: "resourceServers rm1 = []"
  shows "\<exists>r rm5 watched os1. StartAllServers envs (out_rm out) os = Returns (r, rm5, watched, os1)"
proof -
  have "resourceServers (rm2\<lparr>deviceList := found\<rparr>) = []"
    using ValidateConfigs_prepared [OF val none] by (simp add: prepared_def)
  then obtain servers where b: "out_rm out = rm2\<lparr>deviceList := found, resourceServers := servers\<rparr>"
    "\<forall>i < length servers. built hs (rm2\<lparr>deviceList := found\<rparr>) i (configList rm2 ! i) = Inr (servers ! i)"
    using InitServers_built [OF init] by auto
  have "rsConnector s \<noteq> None" if s: "s \<in> set servers" for s
  proof -
    obtain i where "i < length servers" "s = servers ! i" using s unfolding in_set_conv_nth by blast
    then show ?thesis using built_fields b(2) by (metis option.distinct(1))
  qed
  then obtain r where "start_loop envs (rmWatchMode rm2) 0 servers os = Returns r"
    using start_loop_no_panic by blast
  then show ?thesis by (simp add: StartAllServers_def b(1))
qed

lemma main_start_no_panic: "main_start env oo files os \<noteq> Panicked \<and> main_start env oo files os \<noteq> Blocked"
proof (cases "main_prepare env oo files")
  case (Inl x)
  then show ?thesis by (cases x) (simp add: main_start_def)
next
  case (Inr out)
  obtain rm1 rm2 found logged where p:
    "ReadConfig (me_ReadFile env) (me_Unmarshal env)
       (NewResourceManager (me_Stat env) (configFilePath oo) (optKubeletRootDir oo) (optUseCdi oo))
       = (None, rm1)" "ValidateConfigs rm1 = (None, rm2)"
    "InitServers (me_hosts env) (me_cdi env) (rm2\<lparr>deviceList := found\<rparr>) files = (None, out)"
    using Inr by (rule main_prepare_parts)
  have "resourceServers rm1 = []"
    using ReadConfig_frame [OF p(1)] by (simp add: NewResourceManager_def)
  then obtain r rm5 watched os1 where
    "StartAllServers (me_start env) (out_rm out) os = Returns (r, rm5, watched, os1)"
    using start_all_no_panic [OF p(3,2)] by blast
  then show ?thesis by (cases r) (simp_all add: main_start_def Inr)
qed

section \<open>Properties\<close>

text \<open>A start on free paths succeeds for all servers when the machine and the kubelet answer.\<close>

definition answering :: "os_env \<Rightarrow> bool" where
  "answering e \<longleftrightarrow>
     (\<exists>ino. e_listen e = Inr ino) \<and> e_NewClient e = (\<lambda>t. None) \<and> e_Register e = (\<lambda>r. None)"

lemma start_loop_answering:
  assumes "\<forall>s \<in> set servers. rsConnector s \<noteq> None \<and> listener_ok s \<and> paths os (socketPath s) = None"
    and "distinct (map socketPath servers)" "\<forall>n. answering (fst (envs n))"
  shows "\<exists>r. start_loop envs wm n servers os = Returns r \<and> st_err r = None"
  using assms(1,2)
proof (induction servers arbitrary: n os)
  case (Cons s rest)
  obtain ino where e: "e_listen (fst (envs n)) = Inr ino" "e_NewClient (fst (envs n)) = (\<lambda>t. None)"
    "e_Register (fst (envs n)) = (\<lambda>r. None)"
    using assms(3) by (auto simp: answering_def)
  obtain r1 s1 os1 where st: "startLocked (fst (envs n)) (snd (envs n)) s os = (r1, s1, os1)"
    by (cases "startLocked (fst (envs n)) (snd (envs n)) s os") auto
  have ok: "rsConnector s \<noteq> None" "listener_ok s" "paths os (socketPath s) = None"
    using Cons.prems(1) by simp_all
  have "r1 = None" by (rule startLocked_good [OF disjI1 [OF ok(3)] e st])
  moreover have "\<exists>q. start_loop envs wm (Suc n) rest os1 = Returns q \<and> st_err q = None"
  proof (rule Cons.IH)
    show "\<forall>t \<in> set rest. rsConnector t \<noteq> None \<and> listener_ok t \<and> paths os1 (socketPath t) = None"
    proof
      fix t assume t: "t \<in> set rest"
      then have "socketPath t \<noteq> socketPath s" using Cons.prems(2) by (auto simp: image_iff)
      then show "rsConnector t \<noteq> None \<and> listener_ok t \<and> paths os1 (socketPath t) = None"
        using Cons.prems(1) t start_op.op_other_path [OF st ok(2)] by simp
    qed
  qed (use Cons.prems(2) in simp)
  ultimately show ?case using ok st by (auto simp: Start_def)
qed simp

text \<open>An environment in which the plugin can work: a good configuration, a host that can be
  scanned, a shared RDMA namespace, an empty socket directory, a kubelet that answers, spec
  directories that can be cleaned in CDI mode.\<close>

definition working :: "main_env \<Rightarrow> options \<Rightarrow> UserConfigList \<Rightarrow> osys \<Rightarrow> bool" where
  "working env oo file os \<longleftrightarrow>
     (\<exists>raw. me_ReadFile env (configFilePath oo) = Inr raw \<and> me_Unmarshal env raw = Inr file) \<and>
     (case CfgPeriodicUpdateInterval file of
        None \<Rightarrow> True | Some x \<Rightarrow> 0 \<le> sint (x * nanoseconds_per_second)) \<and>
     ConfigList file \<noteq> [] \<and> list_all config_ok (ConfigList file) \<and>
     distinct (map ResourceName (ConfigList file)) \<and>
     me_NetnsMode env = Inr ''shared'' \<and> is_ok (me_PCI env) \<and>
     (optUseCdi oo \<longrightarrow> cleanup_works (me_cdi env) cdiResourcePrefix) \<and>
     (\<forall>n. answering (fst (me_start env n))) \<and> paths os = Map.empty"

lemma interval_default [simp]: "0 \<le> sint defaultPeriodicUpdateInterval"
  by (simp add: defaultPeriodicUpdateInterval_def nanoseconds_per_second_def)

lemma main_start_works:
  assumes work: "working env oo file os"
  shows "\<exists>c. main_start env oo files os = Running c \<and> sys_inv c \<and>
    (\<forall>s \<in> set (resourceServers (sys_rm c)). listening s (sys_mach c)) \<and>
    map resourceName (resourceServers (sys_rm c)) =
      map (\<lambda>conf. (if ResourcePrefix conf = [] then ''rdma'' else ResourcePrefix conf) @ ''/'' @
        ResourceName conf) (ConfigList file)"
proof -
  let ?rm0 = "NewResourceManager (me_Stat env) (configFilePath oo) (optKubeletRootDir oo) (optUseCdi oo)"
  obtain raw pci where W: "me_ReadFile env (configFilePath oo) = Inr raw" "me_Unmarshal env raw = Inr file"
    "me_PCI env = Inr pci"
    using work by (cases "me_PCI env") (auto simp: working_def is_ok_def)
  define iv where "iv = (case CfgPeriodicUpdateInterval file of None \<Rightarrow> defaultPeriodicUpdateInterval
    | Some x \<Rightarrow> x * nanoseconds_per_second)"
  define rm1 where "rm1 = ?rm0\<lparr>PeriodicUpdateInterval := iv, configList := ConfigList file\<rparr>"
  have p1: "ReadConfig (me_ReadFile env) (me_Unmarshal env) ?rm0 = (None, rm1)"
    using W(1,2) by (simp add: ReadConfig_def rm1_def iv_def NewResourceManager_def)
  have iv: "0 \<le> sint iv"
    using work by (auto simp: working_def iv_def split: option.splits)
  define rm2 where "rm2 = rm1\<lparr>configList := map (normalise ''rdma'') (ConfigList file)\<rparr>"
  have p2: "ValidateConfigs rm1 = (None, rm2)"
    using work iv
    by (simp add: ValidateConfigs_iff configs_ok_def working_def rm1_def rm2_def
        NewResourceManager_def rdmaHcaResourcePrefix_def)
  have p3: "ValidateRdmaSystemMode (me_NetnsMode env) = None"
    using work by (simp add: working_def ValidateRdmaSystemMode_def rdmaExclusive_def)
  define rm3 where "rm3 = rm2\<lparr>deviceList := fst (discover_loop pci)\<rparr>"
  obtain logged where p4: "DiscoverHostDevices (me_PCI env) rm2 = (None, rm3, logged)"
    using W(3) by (simp add: DiscoverHostDevices_def rm3_def split_beta)
  have none: "resourceServers rm1 = []" by (simp add: rm1_def NewResourceManager_def)
  have prep: "prepared rm3" unfolding rm3_def by (rule ValidateConfigs_prepared [OF p2 none])
  have "list_all buildable (configList rm3)"
    using work buildable_normalised [of _ "''rdma''"]
    by (auto simp: rm3_def rm2_def working_def list_all_iff)
  then obtain out where p5: "InitServers (me_hosts env) (me_cdi env) rm3 files = (None, out)"
    using init_loop_no_error [of "\<lparr>out_rm = rm3, out_files = files, out_links = []\<rparr>" "me_cdi env"
        "configList rm3" "me_hosts env" 0] work
    by (cases "InitServers (me_hosts env) (me_cdi env) rm3 files")
       (auto simp: InitServers_def rm3_def rm2_def rm1_def NewResourceManager_def working_def)
  obtain servers where b: "out_rm out = rm3\<lparr>resourceServers := servers\<rparr>"
    "length servers = length (configList rm3)"
    "\<forall>i < length servers. built (me_hosts env) rm3 i (configList rm3 ! i) = Inr (servers ! i)"
    using InitServers_built [OF p5] prep by (auto simp: prepared_def)
  have "rsConnector s \<noteq> None \<and> listener_ok s \<and> paths os (socketPath s) = None"
    if s: "s \<in> set servers" for s
  proof -
    obtain i where "i < length servers" "s = servers ! i" using s unfolding in_set_conv_nth by blast
    then show ?thesis
      using built_fields [of "me_hosts env" rm3 i] b(3) work by (fastforce simp: working_def)
  qed
  moreover have "distinct (map socketPath servers)"
    using built_distinct_paths [OF b(2,3)] prep by (auto simp: prepared_def)
  moreover have answ: "\<forall>n. answering (fst (me_start env n))" using work by (simp add: working_def)
  ultimately obtain r where "start_loop (me_start env) (rmWatchMode rm3) 0 servers os = Returns r"
    "st_err r = None"
    using start_loop_answering [OF _ _ answ] by blast
  then obtain rm5 watched os1 where
    p6: "StartAllServers (me_start env) (out_rm out) os = Returns (None, rm5, watched, os1)"
    by (simp add: StartAllServers_def b(1))
  have run: "main_start env oo files os = Running \<lparr>sys_rm = rm5, sys_files = out_files out,
      sys_watched = watched, sys_mach = os1,
      sys_sigs = Notify (NewSignalNotifier [SIGHUP, SIGINT, SIGTERM, SIGQUIT])\<rparr>"
    by (simp add: main_start_def main_prepare_def p1 p2 p3 p4 p5 p6)
  have "map (\<lambda>conf. ResourcePrefix conf @ ''/'' @ ResourceName conf) (configList rm3) =
      map (\<lambda>conf. (if ResourcePrefix conf = [] then ''rdma'' else ResourcePrefix conf) @ ''/'' @
        ResourceName conf) (ConfigList file)"
    by (simp add: rm3_def rm2_def)
  then show ?thesis
    using start_all_inv [OF prep p5 p6, of "out_files out"
        "Notify (NewSignalNotifier [SIGHUP, SIGINT, SIGTERM, SIGQUIT])"]
    by (simp add: run)
qed

text \<open>C9: The plugin comes up: with a valid configuration, an empty socket directory, a scannable
  host in shared RDMA namespace mode and a kubelet that accepts registrations, start-up (in CDI
  mode, when old specs can be removed) reaches the running state with one server per configured resource, in the order of
  the file and under its full name, each listening on its own path.\<close>

theorem plugin_comes_up:
  assumes "working env oo file os"
  shows "\<exists>c. main_start env oo files os = Running c \<and>
    map resourceName (resourceServers (sys_rm c)) =
      map (\<lambda>conf. (if ResourcePrefix conf = [] then ''rdma'' else ResourcePrefix conf) @ ''/'' @
        ResourceName conf) (ConfigList file) \<and>
    distinct (map socketPath (resourceServers (sys_rm c))) \<and>
    (\<forall>s \<in> set (resourceServers (sys_rm c)). \<exists>l. own_listener s = Some l \<and>
       paths (sys_mach c) (socketPath s) = Some (SockNode (lis_ino l)) \<and>
       (lis_ino l, socketPath s) \<in> set (unix_rows (sys_mach c)))"
  using main_start_works [OF assms, of files] unfolding sys_inv_def listening_def by blast

definition sample_main :: main_env where
  "sample_main =
     \<lparr>me_version = ''v1'', me_commit = ''c'', me_date = ''d'',
      me_Stat = (\<lambda>d. Some (ErrExt ''no such file'')), me_ReadFile = (\<lambda>f. Inr []),
      me_Unmarshal = (\<lambda>raw. Inr \<lparr>CfgPeriodicUpdateInterval = Some 60,
        ConfigList = [sample_config, device_config]\<rparr>),
      me_NetnsMode = Inr ''shared'', me_PCI = Inr [sample_ghw], me_hosts = (\<lambda>i. sample_host),
      me_cdi = sample_cdi, me_start = (\<lambda>n. (sample_env (word_of_nat n), sample_env 0))\<rparr>"

lemma sample_main_working:
  "working sample_main default_options
     \<lparr>CfgPeriodicUpdateInterval = Some 60, ConfigList = [sample_config, device_config]\<rparr> sample_os"
  using sample_configs_ok
  by (simp add: working_def sample_main_def default_options_def answering_def is_ok_def
      sample_env_def sample_os_def nanoseconds_per_second_def sample_config_def device_config_def)

lemma plugin_comes_up_witness:
  "\<exists>c. main_start sample_main default_options [] sample_os = Running c \<and>
     map resourceName (resourceServers (sys_rm c)) = [''rdma/hca_a'', ''rdma/hca_b'']"
  using plugin_comes_up [OF sample_main_working, of "[]"]
  by (auto simp: sample_config_def device_config_def)



definition print_flags :: "options \<Rightarrow> go_string list" where
  "print_flags oo =
     (if versionOpt oo then [''-version''] else []) @
     [''-config-file'', configFilePath oo, ''--kubelet-root-dir='' @ optKubeletRootDir oo] @
     (if optUseCdi oo then [''--use-cdi''] else [''-use-cdi=false''])"

text \<open>The command line is read back: whatever the file name and the root directory are, the
  arguments that spell out a set of options parse to exactly these options.\<close>

lemma command_line_round_trip: "parseFlags (print_flags oo) = ParsedFlags oo"
proof -
  have cls: "classify_arg ''-version'' = FlagArg ''version'' None"
    "classify_arg ''-config-file'' = FlagArg ''config-file'' None"
    "classify_arg ''--use-cdi'' = FlagArg ''use-cdi'' None"
    "classify_arg ''-use-cdi=false'' = FlagArg ''use-cdi'' (Some ''false'')"
    by (simp_all add: classify_arg_def split_flag_def)
  have root: "classify_arg (''--kubelet-root-dir='' @ x) = FlagArg ''kubelet-root-dir'' (Some x)" for x
    by (simp add: classify_arg_def split_flag_def)
  show ?thesis
    by (cases oo; cases "versionOpt oo"; cases "optUseCdi oo")
       (simp_all add: parseFlags_def print_flags_def cls root [simplified] flag_of_def go_ParseBool_def
        default_options_def)
qed

end
