(* ===== verification/WatchStop.thy ===== *)
theory WatchStop
  imports Inventory Lifecycle
begin

text \<open>
  One resource server, with the goroutine that runs \<^verbatim>\<open>Watch\<close> (outside watch mode) and the
  main goroutine, which restarts the server on a hang-up signal and calls \<^verbatim>\<open>Stop\<close> in the
  end: they share \<^verbatim>\<open>lifecycleMu\<close> and the unbuffered channel \<^verbatim>\<open>stopWatcher\<close>.
  \<open>ws_do\<close> is one step of either goroutine, labelled with who takes it.  \<open>StopReady\<close> is
  \<^verbatim>\<open>Stop\<close> after it has released the lock and before it waits on the channel, \<open>StopSend\<close> a
  waiting sender.  A send and its receive are one step, and \<^verbatim>\<open>select\<close> takes its
  \<^verbatim>\<open>default\<close> branch only when no sender waits, as Go defines.  \<open>WDone\<close> is a watcher that
  has returned or was never started.  \<open>ws_env\<close> lets the rest of the machine change
  arbitrarily in between, the periodic update hand over devices and the kubelet report.
\<close>

datatype stop_pc =
  StopIdle | StopLock1 | StopCheck | StopReady | StopSend | StopLock2 | StopRun | StopDone "goerr option"

datatype watch_pc = WSelect | WLock | WRun | WSleep | WDone

datatype goroutine = StopRoutine | WatchRoutine

record ws =
  ws_srv :: resourceServer
  ws_mach :: osys
  ws_stop :: stop_pc
  ws_watch :: watch_pc
  lifecycleMu :: "goroutine option"

definition running :: "resourceServer \<Rightarrow> bool" where
  "running s \<longleftrightarrow> rsConnector s \<noteq> None \<and> rsc_GetServer s \<noteq> None"

text \<open>Who takes a step: the main goroutine restarting the server (with the result) or in
  \<^verbatim>\<open>Stop\<close>, or the watcher.\<close>

datatype ws_act = Restarts "goerr option" | Stops | Watches

inductive ws_do :: "ws_act \<Rightarrow> ws \<Rightarrow> ws \<Rightarrow> bool" where
  main_restart: "ws_stop c = StopIdle \<Longrightarrow> lifecycleMu c = None \<Longrightarrow>
     Restart e e2 (ws_srv c) (ws_mach c) = (r, s, os) \<Longrightarrow>
     ws_do (Restarts r) c (c\<lparr>ws_srv := s, ws_mach := os\<rparr>)"
| stop_call: "ws_stop c = StopIdle \<Longrightarrow> ws_do Stops c (c\<lparr>ws_stop := StopLock1\<rparr>)"
| stop_lock1: "ws_stop c = StopLock1 \<Longrightarrow> lifecycleMu c = None \<Longrightarrow>
     ws_do Stops c (c\<lparr>ws_stop := StopCheck, lifecycleMu := Some StopRoutine\<rparr>)"
| stop_check: "ws_stop c = StopCheck \<Longrightarrow>
     ws_do Stops c (c\<lparr>ws_stop :=
         (if \<not> running (ws_srv c) then StopDone None
          else if \<not> watchMode (ws_srv c) then StopReady else StopLock2),
       lifecycleMu := None\<rparr>)"
| stop_wait: "ws_stop c = StopReady \<Longrightarrow> ws_do Stops c (c\<lparr>ws_stop := StopSend\<rparr>)"
| rendezvous: "ws_stop c = StopSend \<Longrightarrow> ws_watch c = WSelect \<Longrightarrow>
     ws_do Stops c (c\<lparr>ws_stop := StopLock2, ws_watch := WDone\<rparr>)"
| stop_lock2: "ws_stop c = StopLock2 \<Longrightarrow> lifecycleMu c = None \<Longrightarrow>
     ws_do Stops c (c\<lparr>ws_stop := StopRun, lifecycleMu := Some StopRoutine\<rparr>)"
| stop_run: "ws_stop c = StopRun \<Longrightarrow> stopLocked e (ws_srv c) (ws_mach c) = (r, s, os) \<Longrightarrow>
     ws_do Stops c (c\<lparr>ws_srv := s, ws_mach := os, ws_stop := StopDone r, lifecycleMu := None\<rparr>)"
| watch_present: "ws_watch c = WSelect \<Longrightarrow> ws_stop c \<noteq> StopSend \<Longrightarrow>
     os_Lstat_path e (socketPath (ws_srv c)) (ws_mach c) = LstatOk \<Longrightarrow>
     ws_do Watches c (c\<lparr>ws_watch := WSleep\<rparr>)"
| watch_missing: "ws_watch c = WSelect \<Longrightarrow> ws_stop c \<noteq> StopSend \<Longrightarrow>
     os_Lstat_path e (socketPath (ws_srv c)) (ws_mach c) \<noteq> LstatOk \<Longrightarrow>
     ws_do Watches c (c\<lparr>ws_watch := WLock\<rparr>)"
| watch_lock: "ws_watch c = WLock \<Longrightarrow> lifecycleMu c = None \<Longrightarrow>
     ws_do Watches c (c\<lparr>ws_watch := WRun, lifecycleMu := Some WatchRoutine\<rparr>)"
| watch_run: "ws_watch c = WRun \<Longrightarrow> Restart e e2 (ws_srv c) (ws_mach c) = (r, s, os) \<Longrightarrow>
     ws_do Watches c (c\<lparr>ws_srv := s, ws_mach := os, ws_watch := WSleep, lifecycleMu := None\<rparr>)"
| watch_wake: "ws_watch c = WSleep \<Longrightarrow> ws_do Watches c (c\<lparr>ws_watch := WSelect\<rparr>)"

definition ws_step :: "ws \<Rightarrow> ws \<Rightarrow> bool" where
  "ws_step c c' \<longleftrightarrow> (\<exists>a. ws_do a c c')"

lemma ws_stepI: "ws_do a c c' \<Longrightarrow> ws_step c c'"
  by (auto simp: ws_step_def)

text \<open>What the rest of the program and of the machine does meanwhile: the machine changes, the
  periodic update hands over devices, the kubelet refuses the registration.\<close>

inductive ws_env :: "ws \<Rightarrow> ws \<Rightarrow> bool" where
  machine_changes: "ws_env c (c\<lparr>ws_mach := os\<rparr>)"
| devices_change: "ws_env c (c\<lparr>ws_srv := UpdateDevices ds (ws_srv c)\<rparr>)"
| refused: "NotifyRegistrationStatus ok (ws_srv c) (ws_mach c) = Returns (s, os) \<Longrightarrow>
     ws_env c (c\<lparr>ws_srv := s, ws_mach := os\<rparr>)"

text \<open>The server has been started; a watcher runs outside watch mode only.\<close>

definition ws_init :: "ws \<Rightarrow> bool" where
  "ws_init c \<longleftrightarrow>
     running (ws_srv c) \<and> ws_stop c = StopIdle \<and> lifecycleMu c = None \<and>
     ws_watch c = (if watchMode (ws_srv c) then WDone else WSelect)"

inductive ws_reach :: "ws \<Rightarrow> bool" where
  ws_start: "ws_init c \<Longrightarrow> ws_reach c"
| ws_thread: "ws_reach c \<Longrightarrow> ws_step c c' \<Longrightarrow> ws_reach c'"
| ws_other: "ws_reach c \<Longrightarrow> ws_env c c' \<Longrightarrow> ws_reach c'"

text \<open>\<open>n\<close> steps of the two goroutines, with any number of changes around them.\<close>

inductive ws_steps :: "ws \<Rightarrow> nat \<Rightarrow> ws \<Rightarrow> bool" where
  ws_none: "ws_steps c 0 c"
| ws_more: "ws_steps c n c' \<Longrightarrow> ws_step c' c'' \<Longrightarrow> ws_steps c (Suc n) c''"
| ws_around: "ws_steps c n c' \<Longrightarrow> ws_env c' c'' \<Longrightarrow> ws_steps c n c''"

inductive_cases ws_envE: "ws_env c c'"

section \<open>What the operations leave of the gRPC server\<close>

lemma stopAndRemove_GetServer:
  assumes "stopAndRemoveOwnedSocketLocked e s os = (r, s', os')"
  shows "rsc_GetServer s' = None \<longleftrightarrow> rsc_GetServer s = None"
proof -
  obtain os1 where s': "s' = fst (rsc_Stop (clearSocketOwnershipLocked s) os1)"
    using assms by (rule stopAndRemove_parts)
  show ?thesis
    unfolding s'
    by (auto simp: rsc_Stop_def rsc_GetServer_def clearSocketOwnershipLocked_def split: option.splits)
qed

lemma GetServer_running: "running s \<longleftrightarrow> rsc_GetServer s \<noteq> None"
  by (cases "rsConnector s") (auto simp: running_def rsc_GetServer_def)

lemma startLocked_running:
  assumes "startLocked e e2 s os = (r, s', os')"
  shows "running s'"
  using assms
proof (cases rule: startLocked_cases)
  case (not_bound held os1 s2 os2 err)
  then show ?thesis using start_reclaim_state [OF not_bound(2)] by (simp add: GetServer_running)
next
  case (bound held os1 s2 os2 sock s3 os3 s4 os4)
  then show ?thesis using start_bound_state [OF bound(1-5)] by (simp add: GetServer_running)
next
  case (refused held os1 s2 os2 sock s3 os3 s4 os4 err r5)
  then show ?thesis
    using start_bound_state [OF refused(1-5)] stopAndRemove_GetServer [OF refused(9)]
    by (simp add: GetServer_running)
qed

lemma Restart_running:
  assumes "Restart e e2 s os = (r, s', os')" "running s"
  shows "running s'"
proof -
  obtain s1 os1 where "startLocked e e2 s1 os1 = (r, s', os')"
    using assms by (auto simp: Restart_def running_def split: prod.splits)
  then show ?thesis by (rule startLocked_running)
qed

lemma stopLocked_not_running:
  "stopLocked e s os = (r, s', os') \<Longrightarrow> \<not> running s'"
  by (auto simp: stopLocked_def GetServer_running split: if_splits prod.splits)
     (auto simp: rsc_GetServer_def split: option.splits)

section \<open>The invariant\<close>

definition ws_inv :: "ws \<Rightarrow> bool" where
  "ws_inv c \<longleftrightarrow>
     (lifecycleMu c = Some StopRoutine \<longleftrightarrow> ws_stop c = StopCheck \<or> ws_stop c = StopRun) \<and>
     (lifecycleMu c = Some WatchRoutine \<longleftrightarrow> ws_watch c = WRun) \<and>
     (ws_watch c = WDone \<longleftrightarrow>
        watchMode (ws_srv c) \<or> ws_stop c = StopLock2 \<or> ws_stop c = StopRun \<or>
        (\<exists>r. ws_stop c = StopDone r)) \<and>
     (watchMode (ws_srv c) \<longrightarrow> ws_stop c \<noteq> StopReady \<and> ws_stop c \<noteq> StopSend) \<and>
     (running (ws_srv c) \<longleftrightarrow> (\<forall>r. ws_stop c \<noteq> StopDone r))"

lemma ws_do_inv:
  assumes inv: "ws_inv c" and step: "ws_do a c c'"
  shows "ws_inv c'"
  using step
proof cases
  case (stop_run e r s os)
  have "watchMode s = watchMode (ws_srv c)"
    using stop_op.op_server [OF stop_run(4)] by (simp add: same_server_def)
  then show ?thesis
    using inv stop_run stopLocked_not_running [OF stop_run(4)] by (auto simp: ws_inv_def)
next
  case (main_restart e e2 r s os)
  have "watchMode s = watchMode (ws_srv c)"
    using restart_op.op_server [OF main_restart(5)] by (simp add: same_server_def)
  then show ?thesis
    using inv main_restart Restart_running [OF main_restart(5)] by (auto simp: ws_inv_def)
next
  case (watch_run e e2 r s os)
  have "watchMode s = watchMode (ws_srv c)"
    using restart_op.op_server [OF watch_run(4)] by (simp add: same_server_def)
  then show ?thesis
    using inv watch_run Restart_running [OF watch_run(4)] by (auto simp: ws_inv_def)
qed (use inv in \<open>auto simp: ws_inv_def\<close>)

lemma ws_step_inv: "ws_inv c \<Longrightarrow> ws_step c c' \<Longrightarrow> ws_inv c'"
  using ws_do_inv by (auto simp: ws_step_def)

lemma UpdateDevices_lifecycle:
  "rsConnector (UpdateDevices ds s) = rsConnector s \<and> socketPath (UpdateDevices ds s) = socketPath s \<and>
   watchMode (UpdateDevices ds s) = watchMode s"
  by (cases rule: update_locked_cases [where s = s and ds = ds])
     (simp_all add: UpdateDevices_def notifyUpdate_def)

lemma UpdateDevices_running [simp]: "running (UpdateDevices ds s) = running s"
  using UpdateDevices_lifecycle [of ds s] by (simp add: running_def rsc_GetServer_def)

lemma Notify_parts:
  assumes "NotifyRegistrationStatus ok s os = Returns (s', os')"
  shows "running s' = running s \<and> same_server s s'"
  using assms
  by (auto simp: NotifyRegistrationStatus_def GetServer_running rsc_Stop_def rsc_GetServer_def
      same_server_def split: if_splits option.splits)

lemma ws_env_inv: "ws_inv c \<Longrightarrow> ws_env c c' \<Longrightarrow> ws_inv c'"
  by (elim ws_envE)
     (auto simp: ws_inv_def UpdateDevices_lifecycle same_server_def dest!: Notify_parts)

lemma ws_init_inv: "ws_init c \<Longrightarrow> ws_inv c"
  by (simp add: ws_init_def ws_inv_def)

lemma ws_reach_inv: "ws_reach c \<Longrightarrow> ws_inv c"
proof (induction rule: ws_reach.induct)
  case (ws_start c)
  then show ?case by (rule ws_init_inv)
next
  case (ws_thread c c')
  then show ?case using ws_step_inv by blast
next
  case (ws_other c c')
  then show ?case using ws_env_inv by blast
qed

section \<open>Progress\<close>

definition watch_left :: "watch_pc \<Rightarrow> nat" where
  "watch_left w = (case w of WLock \<Rightarrow> 4 | WRun \<Rightarrow> 3 | WSleep \<Rightarrow> 2 | WSelect \<Rightarrow> 1 | WDone \<Rightarrow> 0)"

definition steps_left :: "ws \<Rightarrow> nat" where
  "steps_left c =
     (case ws_stop c of
        StopSend \<Rightarrow> 2 + watch_left (ws_watch c) | StopLock2 \<Rightarrow> 2 | StopRun \<Rightarrow> 1 | _ \<Rightarrow> 0)"

definition signalling :: "ws \<Rightarrow> bool" where
  "signalling c \<longleftrightarrow>
     ws_stop c \<noteq> StopIdle \<and> ws_stop c \<noteq> StopLock1 \<and> ws_stop c \<noteq> StopCheck \<and>
     ws_stop c \<noteq> StopReady"

lemma ws_step_left:
  assumes "ws_inv c" "signalling c" "ws_step c c'"
  shows "signalling c' \<and> Suc (steps_left c') = steps_left c"
proof -
  obtain a where "ws_do a c c'" using assms(3) by (auto simp: ws_step_def)
  then show ?thesis
    using assms(1,2)
    by cases (auto simp: ws_inv_def signalling_def steps_left_def watch_left_def split: stop_pc.splits)
qed

lemma ws_env_left: "ws_env c c' \<Longrightarrow> signalling c' = signalling c \<and> steps_left c' = steps_left c"
  by (elim ws_envE) (simp_all add: signalling_def steps_left_def split: stop_pc.split)

lemma ws_steps_left:
  "ws_steps c n c' \<Longrightarrow> ws_inv c \<Longrightarrow> signalling c \<Longrightarrow>
     ws_inv c' \<and> signalling c' \<and> n + steps_left c' = steps_left c"
proof (induction rule: ws_steps.induct)
  case (ws_more c n c' c'')
  then show ?case using ws_step_inv ws_step_left [of c' c''] by auto
next
  case (ws_around c n c' c'')
  then show ?case using ws_env_inv ws_env_left by auto
qed simp

lemma stopLocked_total: "\<exists>r s' os'. stopLocked e s os = (r, s', os')"
  by (cases "stopLocked e s os") auto

lemma signalling_step:
  assumes inv: "ws_inv c" and sig: "signalling c" and run: "\<forall>r. ws_stop c \<noteq> StopDone r"
  shows "\<exists>c'. ws_step c c'"
proof (cases "ws_stop c")
  case StopSend
  show ?thesis
  proof (cases "ws_watch c")
    case WSelect
    then show ?thesis using ws_stepI [OF rendezvous] StopSend by blast
  next
    case WLock
    then have "lifecycleMu c = None"
      using inv StopSend by (cases "lifecycleMu c"; cases "the (lifecycleMu c)") (auto simp: ws_inv_def)
    then show ?thesis using ws_stepI [OF watch_lock] WLock by blast
  next
    case WRun
    then show ?thesis using ws_stepI [OF watch_run] by (metis prod_cases3)
  next
    case WSleep
    then show ?thesis using ws_stepI [OF watch_wake] by blast
  next
    case WDone
    then show ?thesis using inv StopSend by (auto simp: ws_inv_def)
  qed
next
  case StopLock2
  then have "lifecycleMu c = None"
    using inv by (cases "lifecycleMu c"; cases "the (lifecycleMu c)") (auto simp: ws_inv_def)
  then show ?thesis using ws_stepI [OF stop_lock2] StopLock2 by blast
next
  case StopRun
  then show ?thesis using ws_stepI [OF stop_run] stopLocked_total by blast
qed (use sig run in \<open>auto simp: signalling_def\<close>)

section \<open>Properties\<close>

text \<open>C6: \<^verbatim>\<open>Stop\<close> cannot deadlock with \<^verbatim>\<open>Watch\<close>: once it waits to signal the
  watcher, at most six more steps of the two goroutines happen whatever the schedule and the
  rest of the machine do, and they cannot get stuck before \<^verbatim>\<open>Stop\<close> has returned with the
  server stopped and the watcher gone.\<close>

theorem stop_returns_against_watch:
  assumes "ws_reach c" "ws_stop c = StopSend" "ws_steps c n c'"
  shows "n \<le> 6 \<and> ((\<exists>c''. ws_step c' c'') \<or>
    (\<exists>r. ws_stop c' = StopDone r) \<and> ws_watch c' = WDone \<and> rsc_GetServer (ws_srv c') = None)"
proof -
  note I = ws_reach_inv [OF assms(1)]
  have sig: "signalling c" using assms(2) by (simp add: signalling_def)
  note S = ws_steps_left [OF assms(3) I sig]
  have "steps_left c \<le> 6"
    using assms(2) by (cases "ws_watch c") (simp_all add: steps_left_def watch_left_def)
  moreover have "(\<exists>r. ws_stop c' = StopDone r) \<and> ws_watch c' = WDone \<and> rsc_GetServer (ws_srv c') = None"
    if "\<not> (\<exists>c''. ws_step c' c'')"
    using signalling_step [of c'] S that by (auto simp: ws_inv_def GetServer_running)
  ultimately show ?thesis using S by auto
qed

definition sample_ws :: ws where
  "sample_ws =
     \<lparr>ws_srv = rsc_CreateServer (sample_server False False), ws_mach = sample_os, ws_stop = StopIdle,
      ws_watch = WSelect, lifecycleMu = None\<rparr>"

lemma sample_ws_reach: "ws_reach sample_ws"
proof (rule ws_start)
  have "watchMode (sample_server False False) = False"
    by (simp add: sample_server_def newResourceServer_def sample_config_def Let_def)
  then show "ws_init sample_ws"
    by (simp add: ws_init_def sample_ws_def GetServer_running rsc_CreateServer_def rsc_GetServer_def)
qed

lemma sample_ws_send: "\<exists>c. ws_reach c \<and> ws_stop c = StopSend"
proof -
  let ?c1 = "sample_ws\<lparr>ws_stop := StopLock1\<rparr>"
  let ?c2 = "?c1\<lparr>ws_stop := StopCheck, lifecycleMu := Some StopRoutine\<rparr>"
  have r1: "ws_reach ?c1"
    by (rule ws_thread [OF sample_ws_reach ws_stepI [OF ws_do.stop_call]]) (simp add: sample_ws_def)
  have r2: "ws_reach ?c2"
    by (rule ws_thread [OF r1 ws_stepI [OF ws_do.stop_lock1]]) (simp_all add: sample_ws_def)
  have "ws_step ?c2 (?c2\<lparr>ws_stop := (if \<not> running (ws_srv ?c2) then StopDone None
      else if \<not> watchMode (ws_srv ?c2) then StopReady else StopLock2), lifecycleMu := None\<rparr>)"
    by (rule ws_stepI [OF ws_do.stop_check]) simp
  moreover have "running (ws_srv ?c2)" "\<not> watchMode (ws_srv ?c2)"
    by (simp_all add: sample_ws_def GetServer_running)
       (simp add: sample_server_def newResourceServer_def sample_config_def Let_def
        rsc_CreateServer_def)
  ultimately have r3: "ws_reach (?c2\<lparr>ws_stop := StopReady, lifecycleMu := None\<rparr>)"
    using ws_thread [OF r2] by simp
  let ?c4 = "?c2\<lparr>ws_stop := StopReady, lifecycleMu := None\<rparr>\<lparr>ws_stop := StopSend\<rparr>"
  have "ws_reach ?c4" by (rule ws_thread [OF r3 ws_stepI [OF ws_do.stop_wait]]) simp
  moreover have "ws_stop ?c4 = StopSend" by simp
  ultimately show ?thesis by blast
qed

lemma stop_returns_against_watch_witness:
  "\<exists>c. ws_reach c \<and> ws_stop c = StopSend \<and> (\<exists>c''. ws_step c c'')"
proof -
  obtain c where c: "ws_reach c" "ws_stop c = StopSend" using sample_ws_send by blast
  then show ?thesis using stop_returns_against_watch [OF c ws_none] by auto
qed

text \<open>After \<^verbatim>\<open>Stop\<close> has returned nothing of the server runs any more: neither goroutine
  has a step left, so no late restart can bind the socket again.\<close>

lemma nothing_runs_after_stop:
  assumes "ws_reach c" "ws_stop c = StopDone r"
  shows "\<not> (\<exists>c'. ws_step c c') \<and> ws_watch c = WDone \<and> lifecycleMu c = None \<and>
    rsc_GetServer (ws_srv c) = None"
proof -
  note I = ws_reach_inv [OF assms(1)]
  have "ws_watch c = WDone" "lifecycleMu c = None"
    using I assms(2)
    by (auto simp: ws_inv_def) (cases "lifecycleMu c"; cases "the (lifecycleMu c)"; auto)
  moreover have "\<not> ws_step c c'" for c'
  proof
    assume "ws_step c c'"
    then obtain a where "ws_do a c c'" by (auto simp: ws_step_def)
    then show False using assms(2) \<open>ws_watch c = WDone\<close> by cases auto
  qed
  ultimately show ?thesis using I assms(2) by (auto simp: ws_inv_def GetServer_running)
qed

lemma Watch_running:
  "Watch rounds s os = (go, s', os') \<Longrightarrow> running s \<Longrightarrow> running s'"
proof (induction rounds arbitrary: s os)
  case (Cons r rounds)
  obtain e e2 msg where r: "r = (e, e2, msg)" by (cases r)
  obtain b s1 os1 where w: "watch_round e e2 msg s os = (b, s1, os1)"
    by (cases "watch_round e e2 msg s os")
  have "running s1"
    using w Cons.prems(2) Restart_running
    by (auto simp: watch_round_def split: option.splits lstat_answer.splits prod.splits if_splits)
  then show ?case using Cons.IH Cons.prems(1) w by (cases b) (auto simp: r)
qed simp

lemma Watch_frame:
  "Watch rounds s os = (go, s', os') \<Longrightarrow> listener_ok s \<Longrightarrow> listener_ok s' \<and> same_server s s'"
proof (induction rounds arbitrary: s os)
  case (Cons r rounds)
  obtain e e2 msg where r: "r = (e, e2, msg)" by (cases r)
  obtain b s1 os1 where w: "watch_round e e2 msg s os = (b, s1, os1)"
    by (cases "watch_round e e2 msg s os")
  have one: "listener_ok s1 \<and> same_server s s1"
    using w Cons.prems(2) restart_op.op_listener restart_op.op_server
    by (auto simp: watch_round_def split: option.splits lstat_answer.splits prod.splits if_splits)
  then show ?case
    using Cons.IH Cons.prems(1) w by (cases b) (auto simp: r intro: same_server_trans)
qed simp



end
