(* ===== verification/InventoryProtocol.thy ===== *)
theory InventoryProtocol
  imports Inventory
begin

text \<open>
  The interleaving of \<^verbatim>\<open>UpdateDevices\<close> (called by the periodic update) with any number of
  \<^verbatim>\<open>ListAndWatch\<close> calls.  A step is what one goroutine does without being interruptible by
  another one that touches the same data: the locked part of an update, its notification
  after the unlock, the receive from the update channel, the send under the read lock, the
  CDI update, a health report, the end of a call.  The outcomes of sends and of the CDI
  library are free.

  The flag \<open>multi\<close> says whether the kubelet may open a stream while an older one is still
  being served.  \<open>delivered\<close> (the last message that reached the kubelet on any stream) and
  \<open>last_msg\<close> (per stream) are observations, no step reads them.
\<close>

section \<open>Steps\<close>

datatype stream_pc = SNew | SSpec | SWait | SGot | SEnd

text \<open>The calls at one server: where each is, and what was seen on it.\<close>

record lw_streams =
  strm :: "nat \<Rightarrow> stream_pc"
  last_msg :: "nat \<Rightarrow> Device list option"
  delivered :: "Device list option"
  broken :: "nat \<Rightarrow> bool"

record proto = lw_streams +
  srv :: resourceServer
  flag :: bool

definition no_streams :: lw_streams where
  "no_streams = \<lparr>strm = (\<lambda>_. SNew), last_msg = (\<lambda>_. None), delivered = None,
     broken = (\<lambda>_. False)\<rparr>"

text \<open>Whose step it is: the updater changes the devices or announces the change, the call \<open>i\<close>
  begins, moves, or writes the CDI spec with that result.\<close>

datatype pact = Updates | Announces | Begins nat | Moves nat | Writes nat "goerr option"

definition live :: "stream_pc \<Rightarrow> bool" where
  "live p \<longleftrightarrow> p = SSpec \<or> p = SWait \<or> p = SGot"

definition goto :: "nat \<Rightarrow> stream_pc \<Rightarrow> proto \<Rightarrow> proto" where
  "goto i p c = c\<lparr>strm := (strm c)(i := p)\<rparr>"

definition deliver :: "nat \<Rightarrow> proto \<Rightarrow> proto" where
  "deliver i c = c\<lparr>last_msg := (last_msg c)(i := Some (device_list (srv c))),
     delivered := Some (device_list (srv c))\<rparr>"

definition mark_unhealthy :: "nat \<Rightarrow> resourceServer \<Rightarrow> resourceServer" where
  "mark_unhealthy d s = s\<lparr>devStore := (devStore s)[d := (devStore s ! d)\<lparr>Health := Unhealthy\<rparr>]\<rparr>"

inductive pdo :: "bool \<Rightarrow> pact \<Rightarrow> proto \<Rightarrow> proto \<Rightarrow> bool" for multi where
  update: "\<not> flag c \<Longrightarrow> update_locked ds (srv c) = (need, s') \<Longrightarrow>
     pdo multi Updates c (c\<lparr>srv := s', flag := need\<rparr>)"
| notify: "flag c \<Longrightarrow> pdo multi Announces c (c\<lparr>srv := notifyUpdate (srv c), flag := False\<rparr>)"
| begin_ok: "strm c i = SNew \<Longrightarrow> multi \<or> (\<forall>j. \<not> live (strm c j)) \<Longrightarrow>
     pdo multi (Begins i) c (goto i SSpec (deliver i c))"
| begin_fail: "strm c i = SNew \<Longrightarrow> pdo multi (Begins i) c (goto i SEnd c)"
| spec_ok: "strm c i = SSpec \<Longrightarrow> pdo multi (Writes i None) c (goto i SWait c)"
| spec_fail: "strm c i = SSpec \<Longrightarrow> useCdi (srv c) \<Longrightarrow>
     pdo multi (Writes i (Some err)) c (goto i SEnd c)"
| recv: "strm c i = SWait \<Longrightarrow> updateResource (srv c) > 0 \<Longrightarrow>
     pdo multi (Moves i) c
       (goto i SGot (c\<lparr>srv := (srv c)\<lparr>updateResource := updateResource (srv c) - 1\<rparr>\<rparr>))"
| send_ok: "strm c i = SGot \<Longrightarrow> pdo multi (Moves i) c (goto i SSpec (deliver i c))"
| send_fail: "strm c i = SGot \<Longrightarrow>
     pdo multi (Moves i) c (goto i SEnd (c\<lparr>srv := notifyUpdate (srv c)\<rparr>))"
| health_ok: "strm c i = SWait \<Longrightarrow> d < length (devStore (srv c)) \<Longrightarrow>
     pdo multi (Moves i) c (deliver i (c\<lparr>srv := mark_unhealthy d (srv c)\<rparr>))"
| health_fail: "strm c i = SWait \<Longrightarrow> d < length (devStore (srv c)) \<Longrightarrow>
     pdo multi (Moves i) c
       (c\<lparr>srv := mark_unhealthy d (srv c), broken := (broken c)(i := True)\<rparr>)"
| ctx_done: "strm c i = SWait \<Longrightarrow> pdo multi (Moves i) c (goto i SEnd c)"

definition pstep :: "bool \<Rightarrow> proto \<Rightarrow> proto \<Rightarrow> bool" where
  "pstep multi c c' \<longleftrightarrow> (\<exists>a. pdo multi a c c')"

lemma pdo_pstep: "pdo multi a c c' \<Longrightarrow> pstep multi c c'"
  by (auto simp: pstep_def)

definition proto_init :: "resourceServer \<Rightarrow> proto" where
  "proto_init s = \<lparr>strm = (\<lambda>_. SNew), last_msg = (\<lambda>_. None), delivered = None,
     broken = (\<lambda>_. False), srv = s, flag = False\<rparr>"

inductive proto_reach :: "bool \<Rightarrow> resourceServer \<Rightarrow> proto \<Rightarrow> bool" for multi s0 where
  start: "proto_reach multi s0 (proto_init s0)"
| step: "proto_reach multi s0 c \<Longrightarrow> pstep multi c c' \<Longrightarrow> proto_reach multi s0 c'"

inductive psteps :: "bool \<Rightarrow> proto \<Rightarrow> proto \<Rightarrow> bool" for multi where
  none: "psteps multi c c"
| more: "pstep multi c c1 \<Longrightarrow> psteps multi c1 c2 \<Longrightarrow> psteps multi c c2"

lemmas proto_simps = goto_def deliver_def proto_init_def

section \<open>What the steps do to the device list\<close>

lemma device_list_updateResource [simp]:
  "device_list (s\<lparr>updateResource := n\<rparr>) = device_list s"
  by (simp add: device_list_def)

lemma mark_unhealthy_ids: "map ID (device_list (mark_unhealthy d s)) = map ID (device_list s)"
  unfolding mark_unhealthy_def by (rule health_device_ids)

lemma mark_unhealthy_updateResource [simp]:
  "updateResource (mark_unhealthy d s) = updateResource s"
  by (simp add: mark_unhealthy_def)

lemma notifyUpdate_pending [simp]: "updateResource (notifyUpdate s) > 0"
  by (simp add: notifyUpdate_def)

lemma notifyUpdate_devices [simp]: "device_list (notifyUpdate s) = device_list s"
  by (simp add: frame_simps)

lemma update_locked_unchanged: "update_locked ds s = (False, s') \<Longrightarrow> s' = s"
  by (cases rule: update_locked_cases [where s = s and ds = ds]) simp_all

lemma update_locked_pending:
  "update_locked ds s = (need, s') \<Longrightarrow> updateResource s' = updateResource s"
  using update_locked_frame(5) [of ds s] by simp

section \<open>The announcement is never lost\<close>

definition announcing :: "proto \<Rightarrow> bool" where
  "announcing c \<longleftrightarrow> flag c \<or> updateResource (srv c) > 0 \<or> (\<exists>i. strm c i = SGot)"

definition announced :: "proto \<Rightarrow> bool" where
  "announced c \<longleftrightarrow>
     (\<forall>m. delivered c = Some m \<longrightarrow>
        announcing c \<or> map ID m = map ID (device_list (srv c)))"

lemma goto_announced:
  assumes "strm c i \<noteq> SGot" "p \<noteq> SGot"
  shows "announced (goto i p c) = announced c"
proof -
  have "(\<exists>j. strm (goto i p c) j = SGot) = (\<exists>j. strm c j = SGot)"
    using assms by (auto simp: goto_def)
  then show ?thesis by (simp add: announced_def announcing_def) (simp add: goto_def)
qed

lemma pdo_announced: "pdo multi a c c' \<Longrightarrow> announced c \<Longrightarrow> announced c'"
proof (induction rule: pdo.induct)
  case (update c ds need s')
  show ?case
  proof (cases need)
    case False
    then have "s' = srv c" using update.hyps(2) by (simp add: update_locked_unchanged)
    then show ?thesis using update False by (auto simp: announced_def announcing_def)
  qed (simp add: announced_def announcing_def)
next
  case (spec_ok c i)
  then show ?case by (simp add: goto_announced)
next
  case (spec_fail c i)
  then show ?case by (simp add: goto_announced)
next
  case (begin_fail c i)
  then show ?case by (simp add: goto_announced)
next
  case (ctx_done c i)
  then show ?case by (simp add: goto_announced)
next
  case (health_fail c i d)
  then show ?case by (auto simp: announced_def announcing_def proto_simps mark_unhealthy_ids)
qed (auto simp: announced_def announcing_def proto_simps)

lemma proto_reach_announced: "proto_reach multi s0 c \<Longrightarrow> announced c"
proof (induction rule: proto_reach.induct)
  case start
  then show ?case by (simp add: announced_def proto_simps)
qed (auto simp: pstep_def intro: pdo_announced)

section \<open>A single stream shows the current devices\<close>

definition one_live :: "proto \<Rightarrow> bool" where
  "one_live c \<longleftrightarrow> (\<forall>i j. live (strm c i) \<longrightarrow> live (strm c j) \<longrightarrow> i = j)"

definition up_to_date :: "proto \<Rightarrow> nat \<Rightarrow> bool" where
  "up_to_date c i \<longleftrightarrow> last_msg c i = Some (device_list (srv c))"

definition single_ok :: "proto \<Rightarrow> bool" where
  "single_ok c \<longleftrightarrow> one_live c \<and>
     (\<forall>i. strm c i \<in> {SSpec, SWait} \<longrightarrow>
        broken c i \<or> flag c \<or> updateResource (srv c) > 0 \<or> up_to_date c i)"

lemma one_live_keep:
  "one_live c \<Longrightarrow> live (strm c i) \<Longrightarrow> one_live (goto i p c)"
  by (auto simp: one_live_def goto_def)

lemma one_live_end: "one_live c \<Longrightarrow> \<not> live p \<Longrightarrow> one_live (goto i p c)"
  by (auto simp: one_live_def goto_def)

lemma one_live_cong: "strm c' = strm c \<Longrightarrow> one_live c' = one_live c"
  by (simp add: one_live_def)

lemma pdo_one_live: "pdo False a c c' \<Longrightarrow> one_live c \<Longrightarrow> one_live c'"
proof (induction rule: pdo.induct)
  case (begin_ok c i)
  then show ?case by (auto simp: one_live_def proto_simps live_def)
qed (auto simp: one_live_def proto_simps live_def)

lemma pdo_single_ok: "pdo False a c c' \<Longrightarrow> single_ok c \<Longrightarrow> single_ok c'"
proof -
  assume step: "pdo False a c c'" and ok: "single_ok c"
  have one: "one_live c'" using pdo_one_live [OF step] ok by (simp add: single_ok_def)
  have "\<forall>i. strm c' i \<in> {SSpec, SWait} \<longrightarrow>
      broken c' i \<or> flag c' \<or> updateResource (srv c') > 0 \<or> up_to_date c' i"
    using step ok
  proof (induction rule: pdo.induct)
    case (update c ds need s')
    show ?case
    proof (cases need)
      case False
      then have "s' = srv c" using update.hyps(2) by (simp add: update_locked_unchanged)
      then show ?thesis using update by (auto simp: single_ok_def up_to_date_def)
    qed simp
  next
    case (recv c i)
    then have "\<forall>j. j \<noteq> i \<longrightarrow> \<not> live (strm c j)"
      by (auto simp: single_ok_def one_live_def live_def)
    then show ?case by (auto simp: proto_simps live_def)
  next
    case (health_ok c i d)
    then have "\<forall>j. j \<noteq> i \<longrightarrow> \<not> live (strm c j)"
      by (auto simp: single_ok_def one_live_def live_def)
    then show ?case by (auto simp: proto_simps live_def up_to_date_def)
  next
    case (health_fail c i d)
    then have "\<forall>j. j \<noteq> i \<longrightarrow> \<not> live (strm c j)"
      by (auto simp: single_ok_def one_live_def live_def)
    then show ?case by (auto simp: proto_simps live_def)
  qed (auto simp: single_ok_def up_to_date_def proto_simps live_def)
  then show ?thesis using one by (simp add: single_ok_def)
qed

lemma proto_reach_single_ok: "proto_reach False s0 c \<Longrightarrow> single_ok c"
proof (induction rule: proto_reach.induct)
  case start
  then show ?case by (simp add: single_ok_def one_live_def live_def proto_simps)
qed (auto simp: pstep_def intro: pdo_single_ok)

lemma pdo_inventory_ok: "pdo multi a c c' \<Longrightarrow> inventory_ok (srv c) \<Longrightarrow> inventory_ok (srv c')"
proof (induction rule: pdo.induct)
  case (update c ds need s')
  then show ?case using update_locked_inventory_ok [of "srv c" ds] by simp
next
  case (health_ok c i d)
  then show ?case
    using mark_unhealthy_ids [of d "srv c"]
    by (simp add: inventory_ok_def deliver_def mark_unhealthy_def)
next
  case (health_fail c i d)
  then show ?case
    using mark_unhealthy_ids [of d "srv c"] by (simp add: inventory_ok_def mark_unhealthy_def)
qed (auto simp: proto_simps notifyUpdate_inventory_ok, auto simp: inventory_ok_def)

lemma proto_reach_inventory_ok:
  "proto_reach multi s0 c \<Longrightarrow> inventory_ok s0 \<Longrightarrow> inventory_ok (srv c)"
  by (induction rule: proto_reach.induct) (auto simp: proto_simps pstep_def pdo_inventory_ok)

section \<open>The sequential ListAndWatch is made of these steps\<close>

text \<open>The protocol state that a configuration of the sequential model stands for, seen from
  stream \<open>i\<close> with the rest of the protocol state given.\<close>

definition lw_pc :: "lw_stream \<Rightarrow> stream_pc" where
  "lw_pc st = (case status st of LwRunning \<Rightarrow> SWait | LwReturned _ \<Rightarrow> SEnd)"

definition represents :: "nat \<Rightarrow> lw_conf \<Rightarrow> proto \<Rightarrow> bool" where
  "represents i lc c \<longleftrightarrow>
     (case lc of (s, files, st) \<Rightarrow>
        srv c = s \<and> strm c i = lw_pc st \<and>
        last_msg c i = (if sent st = [] then None else Some (last (sent st))))"

lemma psteps_one: "pstep multi c c' \<Longrightarrow> psteps multi c c'"
  by (rule psteps.more [OF _ psteps.none])

lemma represents_update:
  assumes rep: "represents i (s, files, st) c" and run: "status st = LwRunning"
    and pend: "updateResource s > 0"
  shows "\<exists>c'. psteps multi c c' \<and> represents i (lw_step env (LwUpdate e) (s, files, st)) c'"
proof -
  let ?s1 = "s\<lparr>updateResource := updateResource s - 1\<rparr>"
  let ?c1 = "goto i SGot (c\<lparr>srv := ?s1\<rparr>)"
  have s: "srv c = s" and pc: "strm c i = SWait"
    and lm: "last_msg c i = (if sent st = [] then None else Some (last (sent st)))"
    using rep run by (simp_all add: represents_def lw_pc_def)
  have r: "pstep multi c ?c1"
    using pdo.recv [THEN pdo_pstep, of c i multi] pc pend s by simp
  have got: "strm ?c1 i = SGot" "srv ?c1 = ?s1" "last_msg ?c1 = last_msg c"
    by (simp_all add: goto_def)
  show ?thesis
  proof (cases e)
    case (Some err)
    let ?c2 = "goto i SEnd (?c1\<lparr>srv := notifyUpdate (srv ?c1)\<rparr>)"
    have "psteps multi c ?c2"
      using r pdo.send_fail [THEN pdo_pstep, OF got(1)] by (blast intro: psteps.intros)
    moreover have "represents i (lw_step env (LwUpdate e) (s, files, st)) ?c2"
      using Some run pend got lm
      by (simp add: represents_def sendDevices_def lw_pc_def) (simp add: goto_def)
    ultimately show ?thesis by blast
  next
    case None
    let ?c2 = "goto i SSpec (deliver i ?c1)"
    have two: "psteps multi c ?c2" "pstep multi ?c1 ?c2"
      using r pdo.send_ok [THEN pdo_pstep, OF got(1)] by (blast intro: psteps.intros)+
    have at: "strm ?c2 i = SSpec" "srv ?c2 = ?s1" "last_msg ?c2 i = Some (device_list ?s1)"
      by (simp_all add: goto_def deliver_def)
    obtain ce files1 where cdi: "updateCDISpec env ?s1 files = (ce, files1)" by force
    have trail: "pstep multi ?c2 c3 \<Longrightarrow> psteps multi c c3" for c3
      using r two(2) by (blast intro: psteps.intros)
    show ?thesis
    proof (cases ce)
      case (Some err)
      then have "useCdi (srv ?c2)"
        using cdi at(2) by (auto simp: updateCDISpec_def split: if_splits)
      then have "psteps multi c (goto i SEnd ?c2)"
        using pdo.spec_fail [THEN pdo_pstep, OF at(1)] by (intro trail) blast
      moreover have "represents i (lw_step env (LwUpdate e) (s, files, st)) (goto i SEnd ?c2)"
        using None Some run pend at cdi
        by (simp add: represents_def sendDevices_def lw_pc_def) (simp add: goto_def)
      ultimately show ?thesis by blast
    next
      case none: None
      have "psteps multi c (goto i SWait ?c2)"
        using pdo.spec_ok [THEN pdo_pstep, OF at(1)] by (intro trail) blast
      moreover have "represents i (lw_step env (LwUpdate e) (s, files, st)) (goto i SWait ?c2)"
        using None none run pend at cdi
        by (simp add: represents_def sendDevices_def lw_pc_def) (simp add: goto_def)
      ultimately show ?thesis by blast
    qed
  qed
qed

lemma represents_health:
  assumes rep: "represents i (s, files, st) c" and run: "status st = LwRunning"
    and d: "d < length (devStore s)"
  shows "\<exists>c'. psteps multi c c' \<and> represents i (lw_step env (LwHealth d e) (s, files, st)) c'"
proof -
  have s: "srv c = s" and pc: "strm c i = SWait"
    and lm: "last_msg c i = (if sent st = [] then None else Some (last (sent st)))"
    using rep run by (simp_all add: represents_def lw_pc_def)
  show ?thesis
  proof (cases e)
    case None
    have "psteps multi c (deliver i (c\<lparr>srv := mark_unhealthy d (srv c)\<rparr>))"
      using pdo.health_ok [THEN pdo_pstep, OF pc, of d] d s by (auto intro: psteps_one)
    moreover have "represents i (lw_step env (LwHealth d e) (s, files, st))
        (deliver i (c\<lparr>srv := mark_unhealthy d (srv c)\<rparr>))"
      using None run d s pc
      by (simp add: represents_def sendDevices_def lw_pc_def deliver_def mark_unhealthy_def Let_def)
    ultimately show ?thesis by blast
  next
    case (Some err)
    let ?c' = "c\<lparr>srv := mark_unhealthy d (srv c), broken := (broken c)(i := True)\<rparr>"
    have "psteps multi c ?c'"
      using pdo.health_fail [THEN pdo_pstep, OF pc, of d] d s by (auto intro: psteps_one)
    moreover have "represents i (lw_step env (LwHealth d e) (s, files, st)) ?c'"
      using Some run d s pc lm
      by (simp add: represents_def sendDevices_def lw_pc_def mark_unhealthy_def Let_def)
    ultimately show ?thesis by blast
  qed
qed

lemma represents_step:
  assumes rep: "represents i lc c"
  shows "\<exists>c'. psteps multi c c' \<and> represents i (lw_step env e lc) c'"
proof -
  obtain s files st where lc: "lc = (s, files, st)" by (cases lc) auto
  have idle: ?thesis if "lw_step env e lc = lc"
    using that rep by (auto intro: psteps.none)
  show ?thesis
  proof (cases "status st = LwRunning")
    case False
    then show ?thesis by (intro idle) (cases e; simp add: lc)
  next
    case run: True
    show ?thesis
    proof (cases e)
      case LwContextDone
      have "strm c i = SWait" using rep run by (simp add: lc represents_def lw_pc_def)
      then have "psteps multi c (goto i SEnd c)" by (blast intro: psteps_one pdo.ctx_done [THEN pdo_pstep])
      moreover have "represents i (lw_step env e lc) (goto i SEnd c)"
        using rep run LwContextDone by (simp add: lc represents_def lw_pc_def goto_def)
      ultimately show ?thesis by blast
    next
      case (LwHealth d se)
      then show ?thesis
        using represents_health [OF rep [unfolded lc] run, of d] idle lc
        by (cases "d < length (devStore s)") auto
    next
      case (LwUpdate se)
      then show ?thesis
        using represents_update [OF rep [unfolded lc] run] idle lc
        by (cases "updateResource s > 0") auto
    qed
  qed
qed

section \<open>Properties\<close>

lemma psteps_snoc: "psteps multi a b \<Longrightarrow> pstep multi b c \<Longrightarrow> psteps multi a c"
  by (induction rule: psteps.induct) (blast intro: psteps.more psteps.none)+

lemma psteps_trans: "psteps multi a b \<Longrightarrow> psteps multi b c \<Longrightarrow> psteps multi a c"
  by (induction rule: psteps.induct) (blast intro: psteps.more)+

lemma psteps_reach: "psteps multi c c' \<Longrightarrow> proto_reach multi s c \<Longrightarrow> proto_reach multi s c'"
  by (induction rule: psteps.induct) (blast intro: proto_reach.step)+

lemma represents_run:
  "represents i lc c \<Longrightarrow> \<exists>c'. psteps multi c c' \<and> represents i (lw_run env es lc) c'"
proof (induction es arbitrary: lc c)
  case Nil
  then show ?case using psteps.none by auto
next
  case (Cons e es)
  obtain c1 where "psteps multi c c1" "represents i (lw_step env e lc) c1"
    using represents_step [OF Cons.prems] by blast
  then show ?case using Cons.IH psteps_trans by fastforce
qed

lemma represents_begin:
  assumes "lw_begin env se s files = (st, files1)"
  shows "\<exists>c. psteps multi (proto_init s) c \<and> represents i (s, files1, st) c"
proof -
  let ?c0 = "proto_init s"
  let ?c1 = "goto i SSpec (deliver i ?c0)"
  have first: "pstep multi ?c0 ?c1"
    by (rule pdo.begin_ok [THEN pdo_pstep]) (simp_all add: proto_init_def live_def)
  show ?thesis
  proof (cases se)
    case (Some e)
    have "pstep multi ?c0 (goto i SEnd ?c0)" by (rule pdo.begin_fail [THEN pdo_pstep]) (simp add: proto_init_def)
    moreover have "represents i (s, files1, st) (goto i SEnd ?c0)"
      using assms Some
      by (auto simp: lw_begin_def sendDevices_def represents_def lw_pc_def proto_simps)
    ultimately show ?thesis using psteps_one by blast
  next
    case None
    obtain r files2 where u: "updateCDISpec env s files = (r, files2)" by force
    show ?thesis
    proof (cases r)
      case None
      have "pstep multi ?c1 (goto i SWait ?c1)" by (rule pdo.spec_ok [THEN pdo_pstep]) (simp add: goto_def)
      moreover have "represents i (s, files1, st) (goto i SWait ?c1)"
        using assms None u \<open>se = None\<close>
        by (auto simp: lw_begin_def sendDevices_def represents_def lw_pc_def proto_simps)
      ultimately show ?thesis using psteps_snoc [OF psteps_one [OF first]] by blast
    next
      case (Some e)
      have "useCdi s" using u Some by (auto simp: updateCDISpec_def split: if_splits)
      then have "pstep multi ?c1 (goto i SEnd ?c1)"
        by (intro pdo.spec_fail [THEN pdo_pstep]) (simp_all add: proto_simps)
      moreover have "represents i (s, files1, st) (goto i SEnd ?c1)"
        using assms Some u \<open>se = None\<close>
        by (auto simp: lw_begin_def sendDevices_def represents_def lw_pc_def proto_simps)
      ultimately show ?thesis using psteps_snoc [OF psteps_one [OF first]] by blast
    qed
  qed
qed


definition sample_stream :: "nat \<Rightarrow> proto" where
  "sample_stream i =
     goto i SWait (goto i SSpec (deliver i (proto_init (sample_server True False))))"

lemma sample_stream_reach: "proto_reach multi (sample_server True False) (sample_stream i)"
proof -
  let ?c0 = "proto_init (sample_server True False)"
  have "pstep multi ?c0 (goto i SSpec (deliver i ?c0))"
    by (rule pdo.begin_ok [THEN pdo_pstep]) (simp_all add: proto_init_def live_def)
  moreover have "pstep multi (goto i SSpec (deliver i ?c0)) (sample_stream i)"
    unfolding sample_stream_def by (rule pdo.spec_ok [THEN pdo_pstep]) (simp add: goto_def)
  ultimately show ?thesis using proto_reach.start proto_reach.step by blast
qed

text \<open>No change of the device list is lost: with any number of streams, updates, failed
  sends and cancelled calls, what the kubelet saw last has the identifiers the server
  advertises now, or an announcement of the difference is still on its way (an update between
  its unlock and its notification, a notification in the channel, or a stream about to send).\<close>

lemma no_update_is_lost:
  assumes "proto_reach multi s0 c" "delivered c = Some m"
  shows "map ID m = map ID (device_list (srv c)) \<or>
    flag c \<or> 0 < updateResource (srv c) \<or> (\<exists>i. strm c i = SGot)"
  using proto_reach_announced [OF assms(1)] assms(2) by (auto simp: announced_def announcing_def)

text \<open>C13: When the kubelet keeps one stream at a time, an idle stream has shown it the current
  list, health included, unless a health message failed to be sent on it or an update is
  pending; and no two streams are ever served at once.\<close>

theorem single_stream_is_current:
  assumes "proto_reach False s0 c" "strm c i = SWait"
  shows "(last_msg c i = Some (device_list (srv c)) \<or> broken c i \<or> flag c \<or>
      0 < updateResource (srv c)) \<and>
    {j. live (strm c j)} = {i}"
  using proto_reach_single_ok [OF assms(1)] assms(2)
  by (auto simp: single_ok_def up_to_date_def one_live_def live_def)

lemma single_stream_is_current_witness:
  "last_msg (sample_stream 0) 0 = Some (device_list (sample_server True False))"
  using single_stream_is_current [OF sample_stream_reach [of False 0], of 0]
    newResourceServer_fields [OF sample_server_new [of True False]]
  by (auto simp: sample_stream_def proto_simps)

end
