(* ===== verification/Threads.thy ===== *)
theory Threads
  imports MainProgram WatchStop InventoryProtocol
begin

text \<open>
  The whole program as a set of goroutines: the main goroutine in \<^verbatim>\<open>StartAllServers\<close>,
  \<^verbatim>\<open>RestartAllServers\<close>, \<^verbatim>\<open>StopAllServers\<close> or its signal loop, one watcher per server, the
  goroutine of \<^verbatim>\<open>PeriodicUpdate\<close>, and the calls of the kubelet (\<^verbatim>\<open>ListAndWatch\<close> and the
  registration reports), which gRPC serves on goroutines of their own.  \<open>prog_step\<close> is one
  step of one of them.  What main and a watcher do with one server is the step relation
  \<open>ws_do\<close> of the theory of watching and stopping, applied to the view of that server; what a
  \<^verbatim>\<open>ListAndWatch\<close> call does is the relation \<open>pdo\<close> of the inventory protocol, applied to the
  inventory of that server.  Operations on different servers interleave freely.  The rest of
  the machine may change at any moment.
\<close>

section \<open>State\<close>

text \<open>Where main is: about to start, restart or stop the server of that index, waiting for a
  signal, waiting to tell the periodic update to stop; or the process has ended.\<close>

datatype main_pc =
    MStart nat | MWait | MRestart nat | MTicker | MStop nat
  | MExit exit_point | MKilled os_signal | MPanic

text \<open>The goroutine of the periodic update: not running, in its \<^verbatim>\<open>select\<close>, about to update the
  server of that index, about to announce the change of that server, the lock released.\<close>

datatype update_pc = UOff | UWait | UAt nat | UNotify nat

text \<open>\<open>p_calls\<close> and \<open>p_lists\<close> are the registration reports and the \<^verbatim>\<open>ListAndWatch\<close> calls that
  gRPC has taken and whose handler has not begun, \<open>p_lw\<close> the calls whose handler has.\<close>

record prog =
  p_rm :: resourceManager
  p_files :: spec_files
  p_mach :: osys
  p_sigs :: "sig_chan option"
  p_main :: main_pc
  p_upd :: update_pc
  p_stop :: "nat \<Rightarrow> stop_pc"
  p_watch :: "nat \<Rightarrow> watch_pc"
  p_mu :: "nat \<Rightarrow> goroutine option"
  p_calls :: "(nat \<times> bool) list"
  p_lists :: "(nat \<times> nat) list"
  p_lw :: "nat \<Rightarrow> lw_streams"

datatype thread =
    MainThread | WatchThread nat | UpdateThread | StreamThread nat nat | OutsideWorld

definition n_servers :: "prog \<Rightarrow> nat" where
  "n_servers c = length (resourceServers (p_rm c))"

definition prog_server :: "prog \<Rightarrow> nat \<Rightarrow> resourceServer" where
  "prog_server c i = resourceServers (p_rm c) ! i"

definition put_server :: "nat \<Rightarrow> resourceServer \<Rightarrow> osys \<Rightarrow> prog \<Rightarrow> prog" where
  "put_server i s os c =
     c\<lparr>p_rm := (p_rm c)\<lparr>resourceServers := (resourceServers (p_rm c))[i := s]\<rparr>, p_mach := os\<rparr>"

text \<open>One server, the machine, and the two goroutines at it.\<close>

definition server_view :: "nat \<Rightarrow> prog \<Rightarrow> ws" where
  "server_view i c =
     \<lparr>ws_srv = prog_server c i, ws_mach = p_mach c, ws_stop = p_stop c i, ws_watch = p_watch c i,
      lifecycleMu = p_mu c i\<rparr>"

definition put_view :: "nat \<Rightarrow> ws \<Rightarrow> prog \<Rightarrow> prog" where
  "put_view i w c =
     (put_server i (ws_srv w) (ws_mach w) c)
       \<lparr>p_stop := (p_stop c)(i := ws_stop w), p_watch := (p_watch c)(i := ws_watch w),
        p_mu := (p_mu c)(i := lifecycleMu w)\<rparr>"

text \<open>One server's inventory and the calls at it.\<close>

definition inventory_view :: "nat \<Rightarrow> prog \<Rightarrow> proto" where
  "inventory_view i c =
     \<lparr>strm = strm (p_lw c i), last_msg = last_msg (p_lw c i), delivered = delivered (p_lw c i),
      broken = broken (p_lw c i), srv = prog_server c i, flag = (p_upd c = UNotify i)\<rparr>"

definition put_inventory :: "nat \<Rightarrow> proto \<Rightarrow> prog \<Rightarrow> prog" where
  "put_inventory i v c =
     (put_server i (srv v) (p_mach c) c)
       \<lparr>p_lw := (p_lw c)(i := \<lparr>strm = strm v, last_msg = last_msg v, delivered = delivered v,
          broken = broken v\<rparr>)\<rparr>"

fun main_alive :: "main_pc \<Rightarrow> bool" where
  "main_alive (MExit x) = False"
| "main_alive (MKilled sig) = False"
| "main_alive MPanic = False"
| "main_alive _ = True"

definition prog_alive :: "prog \<Rightarrow> bool" where
  "prog_alive c \<longleftrightarrow> main_alive (p_main c)"

definition cdi_cleanup :: "cdi_env \<Rightarrow> prog \<Rightarrow> goerr option \<times> spec_files" where
  "cdi_cleanup env c =
     (if rmUseCdi (p_rm c) then CleanupSpecs env cdiResourcePrefix cdiResourceKind (p_files c)
      else (None, p_files c))"

section \<open>Steps\<close>

text \<open>Until \<^verbatim>\<open>Notify\<close> has registered the channel, the four signals end the process, as Go
  documents.  A call of the kubelet is two events: gRPC takes the call while the server
  serves, and the handler runs later, without \<^verbatim>\<open>lifecycleMu\<close>; \<^verbatim>\<open>grpc.Server.Stop\<close> does not
  wait for handlers, as gRPC documents.\<close>

inductive prog_step :: "thread \<Rightarrow> prog \<Rightarrow> prog \<Rightarrow> bool" where
  start_one: "p_main c = MStart n \<Longrightarrow> n < n_servers c \<Longrightarrow> p_mu c n = None \<Longrightarrow>
     Start e e2 (prog_server c n) (p_mach c) = Returns (None, s, os) \<Longrightarrow>
     prog_step MainThread c ((put_server n s os c)
       \<lparr>p_main := MStart (Suc n),
        p_watch := (if rmWatchMode (p_rm c) then p_watch c else (p_watch c)(n := WSelect))\<rparr>)"
| start_fails: "p_main c = MStart n \<Longrightarrow> n < n_servers c \<Longrightarrow> p_mu c n = None \<Longrightarrow>
     Start e e2 (prog_server c n) (p_mach c) = Returns (Some err, s, os) \<Longrightarrow>
     prog_step MainThread c ((put_server n s os c)\<lparr>p_main := MExit (FatalStart err)\<rparr>)"
| start_panics: "p_main c = MStart n \<Longrightarrow> n < n_servers c \<Longrightarrow> p_mu c n = None \<Longrightarrow>
     Start e e2 (prog_server c n) (p_mach c) = Panics \<Longrightarrow>
     prog_step MainThread c (c\<lparr>p_main := MPanic\<rparr>)"
| started: "p_main c = MStart n \<Longrightarrow> \<not> n < n_servers c \<Longrightarrow>
     prog_step MainThread c (c\<lparr>p_main := MWait,
       p_upd := (if sint (PeriodicUpdateInterval (p_rm c)) > 0 then UWait else UOff),
       p_sigs := Some (Notify (NewSignalNotifier [SIGHUP, SIGINT, SIGTERM, SIGQUIT]))\<rparr>)"
| take_hangup: "p_main c = MWait \<Longrightarrow> p_sigs c = Some ch \<Longrightarrow> buffered ch = SIGHUP # rest \<Longrightarrow>
     cdi_cleanup env c = (err, files) \<Longrightarrow>
     prog_step MainThread c (c\<lparr>p_sigs := Some (ch\<lparr>buffered := rest\<rparr>), p_files := files,
       p_main := (case err of None \<Rightarrow> MRestart 0 | Some x \<Rightarrow> MExit (FatalRestart x))\<rparr>)"
| restart_one: "p_main c = MRestart n \<Longrightarrow> n < n_servers c \<Longrightarrow>
     ws_do (Restarts r) (server_view n c) w \<Longrightarrow>
     prog_step MainThread c ((put_view n w c)
       \<lparr>p_main := (case r of None \<Rightarrow> MRestart (Suc n) | Some x \<Rightarrow> MExit (FatalRestart x))\<rparr>)"
| restarted: "p_main c = MRestart n \<Longrightarrow> \<not> n < n_servers c \<Longrightarrow>
     prog_step MainThread c (c\<lparr>p_main := MWait\<rparr>)"
| take_end: "p_main c = MWait \<Longrightarrow> p_sigs c = Some ch \<Longrightarrow> buffered ch = sig # rest \<Longrightarrow> sig \<noteq> SIGHUP \<Longrightarrow>
     prog_step MainThread c (c\<lparr>p_sigs := Some (ch\<lparr>buffered := rest\<rparr>), p_main := MTicker\<rparr>)"
| end_updates: "p_main c = MTicker \<Longrightarrow>
     sint (PeriodicUpdateInterval (p_rm c)) > 0 \<longrightarrow> p_upd c = UWait \<Longrightarrow>
     cdi_cleanup env c = (err, files) \<Longrightarrow>
     prog_step MainThread c (c\<lparr>p_upd := UOff, p_files := files,
       p_main := (case err of None \<Rightarrow> MStop 0 | Some x \<Rightarrow> MExit (ShutDown (Some x)))\<rparr>)"
| stop_one: "p_main c = MStop n \<Longrightarrow> n < n_servers c \<Longrightarrow> ws_do Stops (server_view n c) w \<Longrightarrow>
     prog_step MainThread c (put_view n w c)"
| stop_next: "p_main c = MStop n \<Longrightarrow> n < n_servers c \<Longrightarrow> p_stop c n = StopDone r \<Longrightarrow>
     prog_step MainThread c (c\<lparr>p_main :=
       (case r of None \<Rightarrow> MStop (Suc n) | Some x \<Rightarrow> MExit (ShutDown (Some x)))\<rparr>)"
| stopped: "p_main c = MStop n \<Longrightarrow> \<not> n < n_servers c \<Longrightarrow>
     prog_step MainThread c (c\<lparr>p_main := MExit (ShutDown None)\<rparr>)"
| watch: "prog_alive c \<Longrightarrow> i < n_servers c \<Longrightarrow> ws_do Watches (server_view i c) w \<Longrightarrow>
     prog_step (WatchThread i) c (put_view i w c)"
| tick_fails: "prog_alive c \<Longrightarrow> p_upd c = UWait \<Longrightarrow>
     DiscoverHostDevices pci (p_rm c) = (Some err, rm, logged) \<Longrightarrow>
     prog_step UpdateThread c (c\<lparr>p_rm := rm\<rparr>)"
| tick: "prog_alive c \<Longrightarrow> p_upd c = UWait \<Longrightarrow>
     DiscoverHostDevices pci (p_rm c) = (None, rm, logged) \<Longrightarrow>
     prog_step UpdateThread c (c\<lparr>p_rm := rm, p_upd := UAt 0\<rparr>)"
| update_one: "prog_alive c \<Longrightarrow> p_upd c = UAt n \<Longrightarrow> n < n_servers c \<Longrightarrow>
     n < length (configList (p_rm c)) \<Longrightarrow>
     ds = GetFilteredDevices (GetDevices h (p_rm c)) (ConfSelectors (configList (p_rm c) ! n)) \<Longrightarrow>
     update_locked ds (prog_server c n) = (need, s) \<Longrightarrow>
     prog_step UpdateThread c
       ((put_server n s (p_mach c) c)\<lparr>p_upd := (if need then UNotify n else UAt (Suc n))\<rparr>)"
| announce: "prog_alive c \<Longrightarrow> p_upd c = UNotify n \<Longrightarrow>
     prog_step UpdateThread c
       ((put_server n (notifyUpdate (prog_server c n)) (p_mach c) c)\<lparr>p_upd := UAt (Suc n)\<rparr>)"
| update_panics: "prog_alive c \<Longrightarrow> p_upd c = UAt n \<Longrightarrow> n < n_servers c \<Longrightarrow>
     \<not> n < length (configList (p_rm c)) \<Longrightarrow> prog_step UpdateThread c (c\<lparr>p_main := MPanic\<rparr>)"
| updated: "prog_alive c \<Longrightarrow> p_upd c = UAt n \<Longrightarrow> \<not> n < n_servers c \<Longrightarrow>
     prog_step UpdateThread c (c\<lparr>p_upd := UWait\<rparr>)"
| signal_queued: "prog_alive c \<Longrightarrow> p_sigs c = Some ch \<Longrightarrow>
     prog_step OutsideWorld c (c\<lparr>p_sigs := Some (signal_arrives sig ch)\<rparr>)"
| signal_kills: "prog_alive c \<Longrightarrow> p_sigs c = None \<Longrightarrow> sig \<in> {SIGHUP, SIGINT, SIGTERM, SIGQUIT} \<Longrightarrow>
     prog_step OutsideWorld c (c\<lparr>p_main := MKilled sig\<rparr>)"
| kubelet_calls: "prog_alive c \<Longrightarrow> i < n_servers c \<Longrightarrow> watchMode (prog_server c i) \<Longrightarrow>
     own_listener (prog_server c i) \<noteq> None \<Longrightarrow>
     prog_step OutsideWorld c (c\<lparr>p_calls := (i, ok) # p_calls c\<rparr>)"
| call_runs: "prog_alive c \<Longrightarrow> (i, ok) \<in> set (p_calls c) \<Longrightarrow>
     NotifyRegistrationStatus ok (prog_server c i) (p_mach c) = Returns (s, os) \<Longrightarrow>
     prog_step OutsideWorld c ((put_server i s os c)\<lparr>p_calls := remove1 (i, ok) (p_calls c)\<rparr>)"
| call_panics: "prog_alive c \<Longrightarrow> (i, ok) \<in> set (p_calls c) \<Longrightarrow>
     NotifyRegistrationStatus ok (prog_server c i) (p_mach c) = Panics \<Longrightarrow>
     prog_step OutsideWorld c (c\<lparr>p_main := MPanic\<rparr>)"
| kubelet_lists: "prog_alive c \<Longrightarrow> i < n_servers c \<Longrightarrow> own_listener (prog_server c i) \<noteq> None \<Longrightarrow>
     prog_step OutsideWorld c (c\<lparr>p_lists := (i, j) # p_lists c\<rparr>)"
| stream_begins: "prog_alive c \<Longrightarrow> (i, j) \<in> set (p_lists c) \<Longrightarrow>
     pdo True (Begins j) (inventory_view i c) v \<Longrightarrow>
     prog_step (StreamThread i j) c
       ((put_inventory i v c)\<lparr>p_lists := remove1 (i, j) (p_lists c)\<rparr>)"
| stream_moves: "prog_alive c \<Longrightarrow> i < n_servers c \<Longrightarrow> pdo True (Moves j) (inventory_view i c) v \<Longrightarrow>
     prog_step (StreamThread i j) c (put_inventory i v c)"
| stream_writes: "prog_alive c \<Longrightarrow> i < n_servers c \<Longrightarrow>
     updateCDISpec env (prog_server c i) (p_files c) = (r, files) \<Longrightarrow>
     pdo True (Writes j r) (inventory_view i c) v \<Longrightarrow>
     prog_step (StreamThread i j) c ((put_inventory i v c)\<lparr>p_files := files\<rparr>)"
| machine: "prog_alive c \<Longrightarrow> prog_step OutsideWorld c (c\<lparr>p_mach := os\<rparr>)"

definition boot :: "init_out \<Rightarrow> osys \<Rightarrow> prog" where
  "boot out os =
     \<lparr>p_rm = out_rm out, p_files = out_files out, p_mach = os, p_sigs = None, p_main = MStart 0,
      p_upd = UOff, p_stop = (\<lambda>i. StopIdle), p_watch = (\<lambda>i. WDone), p_mu = (\<lambda>i. None),
      p_calls = [], p_lists = [], p_lw = (\<lambda>i. no_streams)\<rparr>"

text \<open>The program after the preparations of \<^verbatim>\<open>main\<close>, and whatever it may come to.\<close>

inductive prog_reach :: "main_env \<Rightarrow> options \<Rightarrow> spec_files \<Rightarrow> prog \<Rightarrow> bool"
  for env oo files where
  booted: "main_prepare env oo files = Inr out \<Longrightarrow> prog_reach env oo files (boot out os)"
| moved: "prog_reach env oo files c \<Longrightarrow> prog_step t c c' \<Longrightarrow> prog_reach env oo files c'"

inductive prog_run :: "thread list \<Rightarrow> prog \<Rightarrow> prog \<Rightarrow> bool" where
  run_none: "prog_run [] c c"
| run_more: "prog_step t c c' \<Longrightarrow> prog_run ts c' c'' \<Longrightarrow> prog_run (t # ts) c c''"

lemma prog_run_append:
  "prog_run ts c c' \<Longrightarrow> prog_run us c' c'' \<Longrightarrow> prog_run (ts @ us) c c''"
  by (induction rule: prog_run.induct) (auto intro: prog_run.intros)

lemma prog_run_reach: "prog_run ts c c' \<Longrightarrow> prog_reach env oo files c \<Longrightarrow> prog_reach env oo files c'"
  by (induction rule: prog_run.induct) (auto intro: moved)

section \<open>The invariant\<close>

lemma view_simps [simp]:
  "ws_srv (server_view i c) = prog_server c i" "ws_mach (server_view i c) = p_mach c"
  "ws_stop (server_view i c) = p_stop c i" "ws_watch (server_view i c) = p_watch c i"
  "lifecycleMu (server_view i c) = p_mu c i"
  by (simp_all add: server_view_def)

lemma put_server_fields [simp]:
  "n_servers (put_server i s os c) = n_servers c" "p_mach (put_server i s os c) = os"
  "p_main (put_server i s os c) = p_main c" "p_upd (put_server i s os c) = p_upd c"
  "p_stop (put_server i s os c) = p_stop c" "p_watch (put_server i s os c) = p_watch c"
  "p_mu (put_server i s os c) = p_mu c" "p_calls (put_server i s os c) = p_calls c"
  "p_sigs (put_server i s os c) = p_sigs c" "p_files (put_server i s os c) = p_files c"
  "p_lists (put_server i s os c) = p_lists c" "p_lw (put_server i s os c) = p_lw c"
  "configList (p_rm (put_server i s os c)) = configList (p_rm c)"
  "rmWatchMode (p_rm (put_server i s os c)) = rmWatchMode (p_rm c)"
  "PeriodicUpdateInterval (p_rm (put_server i s os c)) = PeriodicUpdateInterval (p_rm c)"
  by (simp_all add: put_server_def n_servers_def)

lemma put_server_nth [simp]:
  "i < n_servers c \<Longrightarrow> prog_server (put_server i s os c) j = (if j = i then s else prog_server c j)"
  by (auto simp: put_server_def n_servers_def prog_server_def)

lemma put_view_fields [simp]:
  "n_servers (put_view i w c) = n_servers c" "p_mach (put_view i w c) = ws_mach w"
  "p_main (put_view i w c) = p_main c" "p_upd (put_view i w c) = p_upd c"
  "p_stop (put_view i w c) = (p_stop c)(i := ws_stop w)"
  "p_watch (put_view i w c) = (p_watch c)(i := ws_watch w)"
  "p_mu (put_view i w c) = (p_mu c)(i := lifecycleMu w)" "p_calls (put_view i w c) = p_calls c"
  "p_sigs (put_view i w c) = p_sigs c" "p_files (put_view i w c) = p_files c"
  "p_lists (put_view i w c) = p_lists c" "p_lw (put_view i w c) = p_lw c"
  "configList (p_rm (put_view i w c)) = configList (p_rm c)"
  "rmWatchMode (p_rm (put_view i w c)) = rmWatchMode (p_rm c)"
  "PeriodicUpdateInterval (p_rm (put_view i w c)) = PeriodicUpdateInterval (p_rm c)"
  by (simp_all add: put_view_def n_servers_def put_server_def)

lemma put_view_nth [simp]:
  "i < n_servers c \<Longrightarrow> prog_server (put_view i w c) j = (if j = i then ws_srv w else prog_server c j)"
  by (auto simp: put_view_def put_server_def n_servers_def prog_server_def)

lemma prog_updates [simp]:
  "n_servers (c\<lparr>p_main := m\<rparr>) = n_servers c" "n_servers (c\<lparr>p_upd := u\<rparr>) = n_servers c"
  "n_servers (c\<lparr>p_sigs := g\<rparr>) = n_servers c" "n_servers (c\<lparr>p_files := fs\<rparr>) = n_servers c"
  "n_servers (c\<lparr>p_watch := wt\<rparr>) = n_servers c" "n_servers (c\<lparr>p_calls := cs\<rparr>) = n_servers c"
  "n_servers (c\<lparr>p_mach := os\<rparr>) = n_servers c" "n_servers (c\<lparr>p_lists := ls\<rparr>) = n_servers c"
  "n_servers (c\<lparr>p_lw := lw\<rparr>) = n_servers c"
  "prog_server (c\<lparr>p_main := m\<rparr>) = prog_server c" "prog_server (c\<lparr>p_upd := u\<rparr>) = prog_server c"
  "prog_server (c\<lparr>p_sigs := g\<rparr>) = prog_server c" "prog_server (c\<lparr>p_files := fs\<rparr>) = prog_server c"
  "prog_server (c\<lparr>p_watch := wt\<rparr>) = prog_server c" "prog_server (c\<lparr>p_calls := cs\<rparr>) = prog_server c"
  "prog_server (c\<lparr>p_mach := os\<rparr>) = prog_server c"
  "prog_server (c\<lparr>p_lists := ls\<rparr>) = prog_server c" "prog_server (c\<lparr>p_lw := lw\<rparr>) = prog_server c"
  by (simp_all add: n_servers_def prog_server_def fun_eq_iff)

lemma put_inventory_fields [simp]:
  "n_servers (put_inventory i v c) = n_servers c" "p_mach (put_inventory i v c) = p_mach c"
  "p_main (put_inventory i v c) = p_main c" "p_upd (put_inventory i v c) = p_upd c"
  "p_stop (put_inventory i v c) = p_stop c" "p_watch (put_inventory i v c) = p_watch c"
  "p_mu (put_inventory i v c) = p_mu c" "p_calls (put_inventory i v c) = p_calls c"
  "p_sigs (put_inventory i v c) = p_sigs c" "p_files (put_inventory i v c) = p_files c"
  "p_lists (put_inventory i v c) = p_lists c"
  "configList (p_rm (put_inventory i v c)) = configList (p_rm c)"
  "rmWatchMode (p_rm (put_inventory i v c)) = rmWatchMode (p_rm c)"
  "PeriodicUpdateInterval (p_rm (put_inventory i v c)) = PeriodicUpdateInterval (p_rm c)"
  by (simp_all add: put_inventory_def)

lemma put_inventory_nth [simp]:
  "i < n_servers c \<Longrightarrow> prog_server (put_inventory i v c) j = (if j = i then srv v else prog_server c j)"
  by (simp add: put_inventory_def)

lemma inventory_view_simps [simp]:
  "srv (inventory_view i c) = prog_server c i" "flag (inventory_view i c) = (p_upd c = UNotify i)"
  "strm (inventory_view i c) = strm (p_lw c i)" "last_msg (inventory_view i c) = last_msg (p_lw c i)"
  "delivered (inventory_view i c) = delivered (p_lw c i)" "broken (inventory_view i c) = broken (p_lw c i)"
  by (simp_all add: inventory_view_def)


text \<open>How far main has come with starting and with stopping.\<close>

fun started_at :: "main_pc \<Rightarrow> nat \<Rightarrow> nat" where
  "started_at (MStart n) m = n"
| "started_at _ m = m"

fun stopped_at :: "main_pc \<Rightarrow> nat \<Rightarrow> nat" where
  "stopped_at (MStop n) m = n"
| "stopped_at (MExit x) m = m"
| "stopped_at _ m = 0"

definition started_upto :: "prog \<Rightarrow> nat" where
  "started_upto c = started_at (p_main c) (n_servers c)"

definition stopped_upto :: "prog \<Rightarrow> nat" where
  "stopped_upto c = stopped_at (p_main c) (n_servers c)"

text \<open>The periodic update does not run before and after the servers do, and never with an
  interval that is not positive.\<close>

fun updates_off :: "main_pc \<Rightarrow> int \<Rightarrow> bool" where
  "updates_off (MStart n) interval = True"
| "updates_off (MStop n) interval = True"
| "updates_off (MExit x) interval = True"
| "updates_off _ interval = (interval \<le> 0)"

definition orderly :: "prog \<Rightarrow> bool" where
  "orderly c \<longleftrightarrow> prog_alive c \<or> p_main c = MExit (ShutDown None)"

text \<open>The goroutines at one server, by whether it has been started, has been stopped, or is the
  one main is stopping.\<close>

definition server_phase :: "bool \<Rightarrow> bool \<Rightarrow> bool \<Rightarrow> ws \<Rightarrow> bool" where
  "server_phase has_started has_stopped current w \<longleftrightarrow>
     (if has_started
      then ws_inv w \<and>
        (if has_stopped then \<exists>r. ws_stop w = StopDone r else ws_stop w = StopIdle \<or> current)
      else ws_stop w = StopIdle \<and> ws_watch w = WDone \<and> lifecycleMu w = None)"

definition phase :: "nat \<Rightarrow> prog \<Rightarrow> bool" where
  "phase i c \<longleftrightarrow>
     server_phase (i < started_upto c) (i < stopped_upto c) (p_main c = MStop i) (server_view i c)"

definition updater_ok :: "prog \<Rightarrow> bool" where
  "updater_ok c \<longleftrightarrow>
     (p_upd c = UOff \<longleftrightarrow> updates_off (p_main c) (sint (PeriodicUpdateInterval (p_rm c)))) \<and>
     (\<forall>k. p_upd c = UAt k \<longrightarrow> k \<le> n_servers c) \<and>
     (\<forall>k. p_upd c = UNotify k \<longrightarrow> k < n_servers c)"

definition server_there :: "resourceManager \<Rightarrow> resourceServer \<Rightarrow> bool" where
  "server_there rm s \<longleftrightarrow> rsConnector s \<noteq> None \<and> watchMode s = rmWatchMode rm"

definition prog_inv :: "prog \<Rightarrow> bool" where
  "prog_inv c \<longleftrightarrow>
     n_servers c \<le> length (configList (p_rm c)) \<and>
     (\<forall>i < n_servers c. server_there (p_rm c) (prog_server c i)) \<and>
     (\<forall>(i, ok) \<in> set (p_calls c). i < n_servers c) \<and>
     (\<forall>(i, j) \<in> set (p_lists c). i < n_servers c) \<and>
     (orderly c \<longrightarrow>
        (\<forall>i < n_servers c. phase i c) \<and> updater_ok c \<and>
        (p_sigs c = None \<longleftrightarrow> (\<exists>n. p_main c = MStart n)))"

lemma ws_inv_mach [simp]: "ws_inv (w\<lparr>ws_mach := os\<rparr>) = ws_inv w"
  by (simp add: ws_inv_def)

lemma server_phase_mach [simp]: "server_phase a b d (w\<lparr>ws_mach := os\<rparr>) = server_phase a b d w"
  by (simp add: server_phase_def)

lemma view_put_view:
  "i < n_servers c \<Longrightarrow> server_view j (put_view i w c) =
     (if j = i then w else (server_view j c)\<lparr>ws_mach := ws_mach w\<rparr>)"
  by (auto simp: server_view_def)

lemma view_put_server:
  "i < n_servers c \<Longrightarrow> server_view j (put_server i s os c) =
     (if j = i then (server_view i c)\<lparr>ws_srv := s, ws_mach := os\<rparr>
      else (server_view j c)\<lparr>ws_mach := os\<rparr>)"
  by (auto simp: server_view_def)

lemma view_updates [simp]:
  "server_view i (c\<lparr>p_main := m\<rparr>) = server_view i c" "server_view i (c\<lparr>p_upd := u\<rparr>) = server_view i c"
  "server_view i (c\<lparr>p_sigs := g\<rparr>) = server_view i c" "server_view i (c\<lparr>p_files := fs\<rparr>) = server_view i c"
  "server_view i (c\<lparr>p_calls := cs\<rparr>) = server_view i c" "server_view i (c\<lparr>p_lists := ls\<rparr>) = server_view i c"
  "server_view i (c\<lparr>p_lw := lw\<rparr>) = server_view i c"
  "server_view i (c\<lparr>p_mach := os\<rparr>) = (server_view i c)\<lparr>ws_mach := os\<rparr>"
  "server_view i (c\<lparr>p_watch := wt\<rparr>) = (server_view i c)\<lparr>ws_watch := wt i\<rparr>"
  by (simp_all add: server_view_def)

lemma server_there_running: "server_there rm s \<Longrightarrow> watchMode s' = watchMode s \<Longrightarrow> running s' \<Longrightarrow> server_there rm s'"
  by (simp add: server_there_def running_def)

lemma Restart_there:
  assumes "Restart e e2 s os = (r, s', os')" "server_there rm s"
  shows "server_there rm s'"
proof (cases "running s")
  case True
  then show ?thesis
    using server_there_running [OF assms(2)] Restart_running [OF assms(1)]
      restart_op.op_server [OF assms(1)] by (simp add: same_server_def)
next
  case False
  then show ?thesis using assms by (simp add: Restart_def running_def split: if_splits)
qed

lemma stopLocked_there:
  assumes "stopLocked e s os = (r, s', os')" "server_there rm s"
  shows "server_there rm s'"
proof -
  have "rsConnector s' = Some None \<or> s' = s"
    using assms(1) by (auto simp: stopLocked_def rsc_DeleteServer_def split: if_splits prod.splits)
  then show ?thesis
    using assms(2) stop_op.op_server [OF assms(1)] by (auto simp: server_there_def same_server_def)
qed

lemma ws_do_server:
  assumes "ws_do a w w'" and th: "server_there rm (ws_srv w)"
  shows "server_there rm (ws_srv w')"
  using assms(1)
proof cases
  case (main_restart e e2 r s os)
  then show ?thesis using Restart_there [OF _ th] by simp
next
  case (stop_run e r s os)
  then show ?thesis using stopLocked_there [OF _ th] by simp
next
  case (watch_run e e2 r s os)
  then show ?thesis using Restart_there [OF _ th] by simp
qed (use th in simp_all)

lemma Watches_keeps: "ws_do Watches w w' \<Longrightarrow> ws_stop w' = ws_stop w \<and> ws_watch w \<noteq> WDone"
  by (cases rule: ws_do.cases) auto

lemma Restarts_keeps: "ws_do (Restarts r) w w' \<Longrightarrow> ws_stop w' = ws_stop w"
  by (cases rule: ws_do.cases) auto

lemma prog_inv_view:
  assumes inv: "prog_inv c" and i: "i < n_servers c"
    and there: "server_there (p_rm c) (prog_server c i) \<Longrightarrow> server_there (p_rm c) (ws_srv w)"
    and ph: "phase i c \<Longrightarrow>
      server_phase (i < started_upto c) (i < stopped_upto c) (p_main c = MStop i) w"
  shows "prog_inv (put_view i w c)"
proof -
  have same: "started_upto (put_view i w c) = started_upto c"
    "stopped_upto (put_view i w c) = stopped_upto c" "orderly (put_view i w c) = orderly c"
    "updater_ok (put_view i w c) = updater_ok c"
    by (simp_all add: started_upto_def stopped_upto_def orderly_def prog_alive_def updater_ok_def)
  have th: "server_there (p_rm (put_view i w c)) s = server_there (p_rm c) s" for s
    by (simp add: server_there_def)
  have "phase j (put_view i w c)" if "phase j c" "j < n_servers c" for j
    using that ph i by (auto simp: phase_def same view_put_view)
  then show ?thesis
    using inv i there by (auto simp: prog_inv_def same th)
qed

lemma prog_inv_server:
  assumes inv: "prog_inv c" and i: "i < n_servers c"
    and there: "server_there (p_rm c) (prog_server c i) \<Longrightarrow> server_there (p_rm c) s"
    and ph: "phase i c \<Longrightarrow> server_phase (i < started_upto c) (i < stopped_upto c) (p_main c = MStop i)
      ((server_view i c)\<lparr>ws_srv := s, ws_mach := os\<rparr>)"
  shows "prog_inv (put_server i s os c)"
proof -
  have "put_server i s os c = put_view i ((server_view i c)\<lparr>ws_srv := s, ws_mach := os\<rparr>) c"
    by (simp add: put_view_def)
  then show ?thesis using prog_inv_view [OF inv i] there ph by simp
qed

text \<open>Main moves on, and with it the point that separates the servers.\<close>

lemma prog_inv_main:
  assumes inv: "prog_inv c" and was: "orderly c"
    and ph: "orderly (c\<lparr>p_main := m\<rparr>) \<Longrightarrow> \<forall>i < n_servers c. phase i c \<longrightarrow> phase i (c\<lparr>p_main := m\<rparr>)"
    and up: "orderly (c\<lparr>p_main := m\<rparr>) \<Longrightarrow> updater_ok c \<Longrightarrow> updater_ok (c\<lparr>p_main := m\<rparr>)"
    and sg: "orderly (c\<lparr>p_main := m\<rparr>) \<Longrightarrow> (\<exists>n. m = MStart n) \<longleftrightarrow> (\<exists>n. p_main c = MStart n)"
  shows "prog_inv (c\<lparr>p_main := m\<rparr>)"
  using assms by (simp add: prog_inv_def)


lemma Start_Returns:
  "Start e e2 s os = Returns (r, s', os') \<Longrightarrow> startLocked e e2 s os = (r, s', os')"
  by (simp add: Start_def split: if_splits)

lemma Start_there:
  assumes "Start e e2 s os = Returns (r, s', os')" "server_there rm s"
  shows "server_there rm s' \<and> running s'"
proof -
  note st = Start_Returns [OF assms(1)]
  show ?thesis
    using server_there_running [OF assms(2)] startLocked_running [OF st] start_op.op_server [OF st]
    by (simp add: same_server_def)
qed

lemma orderly_MStart: "p_main c = MStart n \<Longrightarrow> orderly c"
  by (simp add: orderly_def prog_alive_def)

lemma start_one_inv:
  assumes inv: "prog_inv c" and pc: "p_main c = MStart n" and n: "n < n_servers c"
    and st: "Start e e2 (prog_server c n) (p_mach c) = Returns (None, s, os)"
  shows "prog_inv ((put_server n s os c)
       \<lparr>p_main := MStart (Suc n),
        p_watch := (if rmWatchMode (p_rm c) then p_watch c else (p_watch c)(n := WSelect))\<rparr>)"
    (is "prog_inv ?c")
proof -
  have th: "server_there (p_rm c) (prog_server c n)" using inv n by (simp add: prog_inv_def)
  note S = Start_there [OF st th]
  have "phase n c" using inv n orderly_MStart [OF pc] by (simp add: prog_inv_def)
  then have new: "p_stop c n = StopIdle" "p_watch c n = WDone" "p_mu c n = None"
    using pc by (auto simp: phase_def server_phase_def started_upto_def)
  have up: "started_upto c = n" "stopped_upto c = 0" "started_upto ?c = Suc n" "stopped_upto ?c = 0"
    using pc by (auto simp: started_upto_def stopped_upto_def)
  have "phase i ?c" if i: "i < n_servers c" for i
  proof (cases "i = n")
    case True
    then show ?thesis
      using new S n
      by (auto simp: phase_def up server_phase_def ws_inv_def view_put_server server_there_def)
  next
    case False
    have "server_view i ?c = (server_view i c)\<lparr>ws_mach := os\<rparr>"
      using False n by (auto simp: view_put_server server_view_def)
    moreover have "phase i c" using inv i orderly_MStart [OF pc] by (simp add: prog_inv_def)
    ultimately show ?thesis using False pc by (auto simp: phase_def up less_Suc_eq)
  qed
  moreover have "server_there (p_rm ?c) x = server_there (p_rm c) x" for x
    by (simp add: server_there_def)
  ultimately show ?thesis
    using inv n S pc by (auto simp: prog_inv_def updater_ok_def orderly_def prog_alive_def)
qed

lemma phase_same:
  assumes "server_view i c' = (server_view i c)\<lparr>ws_mach := os\<rparr>" "started_upto c' = started_upto c"
    "stopped_upto c' = stopped_upto c" "p_main c' = MStop i \<longleftrightarrow> p_main c = MStop i" "phase i c"
  shows "phase i c'"
  using assms by (simp add: phase_def)


lemmas main_moves = prog_inv_def phase_def started_upto_def stopped_upto_def orderly_def
  prog_alive_def updater_ok_def

lemma phase_keep_srv:
  assumes "phase i c" "running s = running (prog_server c i)"
    "watchMode s = watchMode (prog_server c i)"
  shows "server_phase (i < started_upto c) (i < stopped_upto c) (p_main c = MStop i)
      ((server_view i c)\<lparr>ws_srv := s, ws_mach := os\<rparr>)"
  using assms by (auto simp: phase_def server_phase_def ws_inv_def)

lemma Watches_phase:
  assumes "phase i c" "ws_do Watches (server_view i c) w"
  shows "server_phase (i < started_upto c) (i < stopped_upto c) (p_main c = MStop i) w"
  using assms Watches_keeps [OF assms(2)] ws_do_inv [OF _ assms(2)]
  by (auto simp: phase_def server_phase_def)

lemma Restarts_phase:
  assumes "phase i c" "i < started_upto c" "ws_do (Restarts r) (server_view i c) w"
  shows "server_phase (i < started_upto c) (i < stopped_upto c) (p_main c = MStop i) w"
  using assms Restarts_keeps [OF assms(3)] ws_do_inv [OF _ assms(3)]
  by (auto simp: phase_def server_phase_def)

lemma Stops_phase:
  assumes "phase i c" "p_main c = MStop i" "i < n_servers c" "ws_do Stops (server_view i c) w"
  shows "server_phase (i < started_upto c) (i < stopped_upto c) (p_main c = MStop i) w"
  using assms ws_do_inv [OF _ assms(4)]
  by (auto simp: phase_def server_phase_def started_upto_def stopped_upto_def)

lemma Discover_frame:
  "DiscoverHostDevices pci rm = (r, rm', logged) \<Longrightarrow>
     resourceServers rm' = resourceServers rm \<and> configList rm' = configList rm \<and>
     rmWatchMode rm' = rmWatchMode rm \<and> PeriodicUpdateInterval rm' = PeriodicUpdateInterval rm"
  by (auto simp: DiscoverHostDevices_def split: sum.splits prod.splits)

lemma prog_inv_rm:
  assumes "prog_inv c" "resourceServers rm = resourceServers (p_rm c)"
    "configList rm = configList (p_rm c)" "rmWatchMode rm = rmWatchMode (p_rm c)"
    "PeriodicUpdateInterval rm = PeriodicUpdateInterval (p_rm c)"
  shows "prog_inv (c\<lparr>p_rm := rm\<rparr>)"
proof -
  have n: "n_servers (c\<lparr>p_rm := rm\<rparr>) = n_servers c"
    and s: "prog_server (c\<lparr>p_rm := rm\<rparr>) = prog_server c"
    using assms(2) by (simp_all add: n_servers_def prog_server_def fun_eq_iff)
  have v: "server_view i (c\<lparr>p_rm := rm\<rparr>) = server_view i c" for i
    using s by (simp add: server_view_def)
  have t: "server_there rm s = server_there (p_rm c) s" for s
    using assms(4) by (simp add: server_there_def)
  show ?thesis
    using assms(1,3,5) by (simp add: main_moves n s v t)
qed

lemma Notify_connector:
  "NotifyRegistrationStatus ok s os = Returns (s', os') \<Longrightarrow> rsConnector s \<noteq> None \<Longrightarrow> rsConnector s' \<noteq> None"
  by (auto simp: NotifyRegistrationStatus_def rsc_Stop_def split: if_splits option.splits)

lemma prog_inv_upd:
  assumes "prog_inv c" "p_upd c \<noteq> UOff" "u \<noteq> UOff" "\<forall>k. u = UAt k \<longrightarrow> k \<le> n_servers c"
    and "\<forall>k. u = UNotify k \<longrightarrow> k < n_servers c"
  shows "prog_inv (c\<lparr>p_upd := u\<rparr>)"
  using assms by (auto simp: main_moves)

text \<open>A step that only touches what the server advertises.\<close>

definition inventory_only :: "resourceServer \<Rightarrow> resourceServer \<Rightarrow> bool" where
  "inventory_only s s' \<longleftrightarrow>
     rsConnector s' = rsConnector s \<and> socketPath s' = socketPath s \<and> watchMode s' = watchMode s \<and>
     useCdi s' = useCdi s \<and> cdiResourceName s' = cdiResourceName s \<and> pciDevices s' = pciDevices s"

lemma update_locked_inventory_only:
  "update_locked ds s = (need, s') \<Longrightarrow> inventory_only s s'"
  by (cases rule: update_locked_cases [where s = s and ds = ds]) (auto simp: inventory_only_def)

lemma pdo_inventory_only:
  "pdo multi a c c' \<Longrightarrow> inventory_only (srv c) (srv c')"
proof (induction rule: pdo.induct)
  case (update c ds need s')
  then show ?case using update_locked_inventory_only by simp
qed (auto simp: inventory_only_def notifyUpdate_def proto_simps mark_unhealthy_def)

lemma prog_inv_inventory:
  assumes inv: "prog_inv c" and i: "i < n_servers c" and s: "inventory_only (prog_server c i) s"
  shows "prog_inv (put_server i s (p_mach c) c)"
proof (rule prog_inv_server [OF inv i])
  show "server_there (p_rm c) s" if "server_there (p_rm c) (prog_server c i)"
    using that s by (simp add: server_there_def inventory_only_def)
qed (rule phase_keep_srv, use s in \<open>simp_all add: inventory_only_def running_def rsc_GetServer_def\<close>)

lemma prog_inv_put_inventory:
  assumes "prog_inv c" "i < n_servers c" "inventory_only (prog_server c i) (srv v)"
  shows "prog_inv (put_inventory i v c)"
  using prog_inv_inventory [OF assms] by (simp add: put_inventory_def main_moves server_there_def)

lemma prog_step_inv:
  assumes step: "prog_step t c c'" and inv: "prog_inv c"
  shows "prog_inv c'"
  using step
proof cases
  case (start_one n e e2 s os)
  then show ?thesis using start_one_inv [OF inv] by simp
next
  case (start_fails n e e2 err s os)
  have th: "server_there (p_rm c) (prog_server c n)" using inv start_fails by (simp add: prog_inv_def)
  have "prog_inv (put_server n s os c)"
  proof (rule prog_inv_server [OF inv start_fails(4)])
    show "server_there (p_rm c) s" using Start_there [OF start_fails(6) th] by simp
    assume "phase n c"
    then show "server_phase (n < started_upto c) (n < stopped_upto c) (p_main c = MStop n)
        ((server_view n c)\<lparr>ws_srv := s, ws_mach := os\<rparr>)"
      using start_fails(3) by (simp add: phase_def server_phase_def started_upto_def)
  qed
  then show ?thesis
    unfolding start_fails(2) using start_fails(3)
    by (intro prog_inv_main) (simp_all add: orderly_def prog_alive_def)
next
  case (start_panics n e e2)
  then show ?thesis using inv by (simp add: prog_inv_def orderly_def prog_alive_def)
next
  case (started n)
  then show ?thesis using inv by (auto simp: main_moves)
next
  case (take_hangup ch rest env err files)
  then show ?thesis using inv by (auto simp: main_moves split: option.splits)
next
  case (restart_one n r w)
  have "prog_inv (put_view n w c)"
  proof (rule prog_inv_view [OF inv restart_one(4)])
    show "server_there (p_rm c) (ws_srv w)" if "server_there (p_rm c) (prog_server c n)"
      using ws_do_server [OF restart_one(5)] that by simp
    show "server_phase (n < started_upto c) (n < stopped_upto c) (p_main c = MStop n) w" if "phase n c"
      using Restarts_phase [OF that _ restart_one(5)] restart_one(3,4) by (simp add: started_upto_def)
  qed
  then show ?thesis
    unfolding restart_one(2) using restart_one(3)
    by (auto simp: main_moves split: option.splits)
next
  case (restarted n)
  then show ?thesis using inv by (auto simp: main_moves)
next
  case (take_end ch sig rest)
  then show ?thesis using inv by (auto simp: main_moves)
next
  case (end_updates env err files)
  then show ?thesis using inv by (auto simp: main_moves server_phase_def split: option.splits)
next
  case (stop_one n w)
  show ?thesis
    unfolding stop_one(2)
  proof (rule prog_inv_view [OF inv stop_one(4)])
    show "server_there (p_rm c) (ws_srv w)" if "server_there (p_rm c) (prog_server c n)"
      using ws_do_server [OF stop_one(5)] that by simp
    show "server_phase (n < started_upto c) (n < stopped_upto c) (p_main c = MStop n) w" if "phase n c"
      using Stops_phase [OF that stop_one(3,4,5)] .
  qed
next
  case (stop_next n r)
  have was: "orderly c" using stop_next(3) by (simp add: orderly_def prog_alive_def)
  show ?thesis
    unfolding stop_next(2)
    by (rule prog_inv_main [OF inv was])
       (use stop_next(3-5) in \<open>auto simp: phase_def server_phase_def started_upto_def
          stopped_upto_def orderly_def prog_alive_def updater_ok_def less_Suc_eq split: option.splits\<close>)
next
  case (stopped n)
  then show ?thesis using inv by (auto simp: main_moves server_phase_def)
next
  case (watch i w)
  show ?thesis
    unfolding watch(2)
  proof (rule prog_inv_view [OF inv watch(4)])
    show "server_there (p_rm c) (ws_srv w)" if "server_there (p_rm c) (prog_server c i)"
      using ws_do_server [OF watch(5)] that by simp
    show "server_phase (i < started_upto c) (i < stopped_upto c) (p_main c = MStop i) w" if "phase i c"
      using Watches_phase [OF that watch(5)] .
  qed
next
  case (tick_fails pci err rm logged)
  then show ?thesis using prog_inv_rm [OF inv] Discover_frame [OF tick_fails(5)] by simp
next
  case (tick pci rm logged)
  have "prog_inv (c\<lparr>p_rm := rm\<rparr>)" using prog_inv_rm [OF inv] Discover_frame [OF tick(5)] by simp
  then show ?thesis using prog_inv_upd [of "c\<lparr>p_rm := rm\<rparr>" "UAt 0"] tick(2,4) by simp
next
  case (update_one n ds h need s)
  have "prog_inv (put_server n s (p_mach c) c)"
    by (rule prog_inv_inventory [OF inv update_one(5)])
       (use update_locked_inventory_only [OF update_one(8)] in simp)
  then show ?thesis
    unfolding update_one(2) by (rule prog_inv_upd) (use update_one(4,5) in auto)
next
  case (announce n)
  then have n: "n < n_servers c" using inv by (auto simp: prog_inv_def orderly_def updater_ok_def)
  have "prog_inv (put_server n (notifyUpdate (prog_server c n)) (p_mach c) c)"
    by (rule prog_inv_inventory [OF inv n]) (simp add: notifyUpdate_def inventory_only_def)
  then show ?thesis
    unfolding announce(2) by (rule prog_inv_upd) (use announce(4) n in auto)
next
  case (update_panics n)
  then show ?thesis using inv by (simp add: prog_inv_def orderly_def prog_alive_def)
next
  case (updated n)
  then show ?thesis using prog_inv_upd [OF inv, of UWait] by simp
next
  case (signal_queued ch sig)
  then show ?thesis using inv by (auto simp: main_moves)
next
  case (signal_kills sig)
  then show ?thesis using inv by (simp add: prog_inv_def orderly_def prog_alive_def)
next
  case (kubelet_calls i ok)
  then show ?thesis using inv by (auto simp: main_moves)
next
  case (call_runs i ok s os)
  have i: "i < n_servers c" using inv call_runs(4) by (auto simp: prog_inv_def)
  note S = Notify_parts [OF call_runs(5)]
  have "prog_inv (put_server i s os c)"
  proof (rule prog_inv_server [OF inv i])
    show "server_there (p_rm c) s" if "server_there (p_rm c) (prog_server c i)"
      using that S Notify_connector [OF call_runs(5)] by (simp add: server_there_def same_server_def)
  qed (rule phase_keep_srv, use S in \<open>simp_all add: same_server_def\<close>)
  then show ?thesis
    unfolding call_runs(2) by (auto simp: main_moves dest: notin_set_remove1)
next
  case (call_panics i ok)
  then show ?thesis using inv by (simp add: prog_inv_def orderly_def prog_alive_def)
next
  case (kubelet_lists i j)
  then show ?thesis using inv by (auto simp: main_moves)
next
  case (stream_begins i j v)
  have i: "i < n_servers c" using inv stream_begins(4) by (auto simp: prog_inv_def)
  have "prog_inv (put_inventory i v c)"
    using prog_inv_put_inventory [OF inv i] pdo_inventory_only [OF stream_begins(5)] by simp
  then show ?thesis
    unfolding stream_begins(2) by (auto simp: main_moves dest: notin_set_remove1)
next
  case (stream_moves i j v)
  then show ?thesis
    using prog_inv_put_inventory [OF inv stream_moves(4)] pdo_inventory_only [OF stream_moves(5)] by simp
next
  case (stream_writes i env r files j v)
  have "prog_inv (put_inventory i v c)"
    using prog_inv_put_inventory [OF inv stream_writes(4)] pdo_inventory_only [OF stream_writes(6)] by simp
  then show ?thesis unfolding stream_writes(2) by (auto simp: main_moves)
next
  case (machine os)
  then show ?thesis using inv by (auto simp: main_moves)
qed


lemma boot_inv:
  assumes "main_prepare env oo files = Inr out"
  shows "prog_inv (boot out os)"
proof -
  obtain rm1 rm2 found logged where p:
    "ReadConfig (me_ReadFile env) (me_Unmarshal env)
       (NewResourceManager (me_Stat env) (configFilePath oo) (optKubeletRootDir oo) (optUseCdi oo))
       = (None, rm1)" "ValidateConfigs rm1 = (None, rm2)"
    "InitServers (me_hosts env) (me_cdi env) (rm2\<lparr>deviceList := found\<rparr>) files = (None, out)"
    using assms by (rule main_prepare_parts)
  let ?rm = "rm2\<lparr>deviceList := found\<rparr>"
  have "resourceServers rm1 = []"
    using ReadConfig_frame [OF p(1)] by (simp add: NewResourceManager_def)
  then have "prepared ?rm" by (rule ValidateConfigs_prepared [OF p(2)])
  then obtain servers where b: "out_rm out = ?rm\<lparr>resourceServers := servers\<rparr>"
    "length servers = length (configList ?rm)"
    "\<forall>i < length servers. built (me_hosts env) ?rm i (configList ?rm ! i) = Inr (servers ! i)"
    using InitServers_built [OF p(3)] by (auto simp: prepared_def)
  have "server_there ?rm (servers ! i)" if "i < length servers" for i
    using b(3) that built_fields [of "me_hosts env" ?rm i] by (auto simp: server_there_def)
  then have "\<forall>i < length servers. server_there (p_rm (boot out os)) (servers ! i)"
    using b(1) by (simp add: boot_def server_there_def)
  then show ?thesis
    using b(1,2)
    by (simp add: main_moves server_phase_def boot_def n_servers_def prog_server_def)
qed

lemma prog_reach_inv: "prog_reach env oo files c \<Longrightarrow> prog_inv c"
  by (induction rule: prog_reach.induct) (auto intro: boot_inv prog_step_inv)


section \<open>Shutting down\<close>

definition shutting_down :: "prog \<Rightarrow> bool" where
  "shutting_down c \<longleftrightarrow> p_main c = MTicker \<or> (\<exists>n. p_main c = MStop n)"

text \<open>The steps main still has to take, at most.\<close>

fun stop_left :: "stop_pc \<Rightarrow> nat" where
  "stop_left StopIdle = 8"
| "stop_left StopLock1 = 7"
| "stop_left StopCheck = 6"
| "stop_left StopReady = 5"
| "stop_left StopSend = 4"
| "stop_left StopLock2 = 3"
| "stop_left StopRun = 2"
| "stop_left (StopDone r) = 1"

definition main_left :: "prog \<Rightarrow> nat" where
  "main_left c =
     (case p_main c of
        MTicker \<Rightarrow> 8 * n_servers c + 2
      | MStop n \<Rightarrow> if n < n_servers c then stop_left (p_stop c n) + 8 * (n_servers c - Suc n) + 1 else 1
      | _ \<Rightarrow> 0)"

text \<open>The goroutine that has to move next for main to get on, main itself unless it waits for a
  lock, for a receiver, or for the periodic update to finish its round; and how many steps of
  that goroutine main waits for.\<close>

definition awaited :: "prog \<Rightarrow> thread" where
  "awaited c =
     (case p_main c of
        MTicker \<Rightarrow> (case p_upd c of UAt k \<Rightarrow> UpdateThread | UNotify k \<Rightarrow> UpdateThread | _ \<Rightarrow> MainThread)
      | MStop n \<Rightarrow>
          if n < n_servers c \<and> (p_mu c n = Some WatchRoutine \<or> p_stop c n = StopSend \<and> p_watch c n \<noteq> WSelect)
          then WatchThread n else MainThread
      | _ \<Rightarrow> MainThread)"

definition wait_left :: "prog \<Rightarrow> nat" where
  "wait_left c =
     (case p_main c of
        MTicker \<Rightarrow>
          (case p_upd c of
             UAt k \<Rightarrow> Suc (2 * (n_servers c - k)) | UNotify k \<Rightarrow> 2 * (n_servers c - k) | _ \<Rightarrow> 0)
      | MStop n \<Rightarrow> if awaited c = WatchThread n then watch_left (p_watch c n) else 0
      | _ \<Rightarrow> 0)"

lemma shutting_down_orderly: "shutting_down c \<Longrightarrow> orderly c"
  by (auto simp: shutting_down_def orderly_def prog_alive_def)

lemma Stops_left:
  assumes "ws_do Stops w w'"
  shows "stop_left (ws_stop w') < stop_left (ws_stop w)"
  using assms by cases auto

lemma stop_left_le: "stop_left p \<le> 8"
  by (cases p) auto

lemma shutdown_step:
  assumes step: "prog_step t c c'" and down: "shutting_down c"
  shows "n_servers c' = n_servers c \<and> (t = MainThread \<longrightarrow> main_left c' < main_left c) \<and>
    (t \<noteq> MainThread \<longrightarrow> main_left c' \<le> main_left c) \<and> (prog_alive c' \<longrightarrow> shutting_down c')"
  using step
proof cases
  case (stop_one n w)
  then show ?thesis
    using Stops_left [OF stop_one(5)] by (auto simp: main_left_def shutting_down_def)
next
  case (end_updates env err files)
  then show ?thesis
    using stop_left_le [of "p_stop c 0"]
    by (auto simp: main_left_def shutting_down_def prog_alive_def split: option.splits)
next
  case (stop_next n r)
  then show ?thesis
    using stop_left_le [of "p_stop c (Suc n)"]
    by (auto simp: main_left_def shutting_down_def prog_alive_def split: option.splits)
next
  case (watch i w)
  then show ?thesis
    using down Watches_keeps [OF watch(5)]
    by (auto simp: main_left_def shutting_down_def split: main_pc.splits)
next
  case (tick_fails pci err rm logged)
  then have "n_servers (c\<lparr>p_rm := rm\<rparr>) = n_servers c"
    using Discover_frame [OF tick_fails(5)] by (simp add: n_servers_def)
  then show ?thesis using down tick_fails by (auto simp: main_left_def shutting_down_def)
next
  case (tick pci rm logged)
  then have "n_servers (c\<lparr>p_rm := rm, p_upd := UAt 0\<rparr>) = n_servers c"
    using Discover_frame [OF tick(5)] by (simp add: n_servers_def)
  then show ?thesis using down tick by (auto simp: main_left_def shutting_down_def)
qed (use down in \<open>auto simp: main_left_def shutting_down_def prog_alive_def split: option.splits\<close>)


lemma stopping_ws_inv:
  assumes "prog_inv c" "p_main c = MStop n" "n < n_servers c"
  shows "ws_inv (server_view n c)"
  using assms by (auto simp: main_moves server_phase_def)

lemma stop_one_enabled:
  assumes inv: "ws_inv w" and free: "lifecycleMu w \<noteq> Some WatchRoutine"
    and sel: "ws_stop w = StopSend \<longrightarrow> ws_watch w = WSelect" and run: "\<forall>r. ws_stop w \<noteq> StopDone r"
  shows "\<exists>w'. ws_do Stops w w'"
proof -
  have mu: "lifecycleMu w = None" if "ws_stop w \<noteq> StopCheck" "ws_stop w \<noteq> StopRun"
    using inv free that by (cases "lifecycleMu w"; cases "the (lifecycleMu w)") (auto simp: ws_inv_def)
  show ?thesis
  proof (cases "ws_stop w")
    case StopIdle
    then show ?thesis using stop_call by blast
  next
    case StopLock1
    then show ?thesis using stop_lock1 mu by fastforce
  next
    case StopCheck
    then show ?thesis using stop_check by blast
  next
    case StopReady
    then show ?thesis using stop_wait by blast
  next
    case StopSend
    then show ?thesis using rendezvous sel by blast
  next
    case StopLock2
    then show ?thesis using stop_lock2 mu by fastforce
  next
    case StopRun
    then show ?thesis using stop_run stopLocked_total by blast
  qed (use run in blast)
qed

lemma watch_enabled:
  assumes inv: "ws_inv w"
    and w: "lifecycleMu w = Some WatchRoutine \<or> ws_stop w = StopSend \<and> ws_watch w \<noteq> WSelect"
  shows "\<exists>w'. ws_do Watches w w'"
proof (cases "ws_watch w")
  case WSelect
  then show ?thesis using inv w by (auto simp: ws_inv_def)
next
  case WLock
  then have "lifecycleMu w = None"
    using inv w by (cases "lifecycleMu w"; cases "the (lifecycleMu w)") (auto simp: ws_inv_def)
  then show ?thesis using watch_lock WLock by blast
next
  case WRun
  then show ?thesis using watch_run by (metis prod_cases3)
next
  case WSleep
  then show ?thesis using watch_wake by blast
next
  case WDone
  then show ?thesis using inv w by (auto simp: ws_inv_def)
qed

lemma awaited_step:
  assumes inv: "prog_inv c" and down: "shutting_down c"
  shows "\<exists>c'. prog_step (awaited c) c c'"
proof -
  have up: "updater_ok c" and al: "prog_alive c"
    using inv down by (auto simp: prog_inv_def shutting_down_def orderly_def prog_alive_def)
  consider "p_main c = MTicker" | n where "p_main c = MStop n" "n < n_servers c"
    | n where "p_main c = MStop n" "\<not> n < n_servers c"
    using down by (auto simp: shutting_down_def)
  then show ?thesis
  proof cases
    case 1
    obtain err files where cl: "cdi_cleanup undefined c = (err, files)" by force
    show ?thesis
    proof (cases "p_upd c")
      case (UAt k)
      then show ?thesis
        using 1 al update_one [OF al UAt _ _ refl surjective_pairing] update_panics [of c k]
          updated [of c k]
        by (auto simp: awaited_def)
    next
      case (UNotify k)
      then show ?thesis using 1 al announce by (auto simp: awaited_def)
    qed (use 1 up end_updates [OF 1 _ cl] in \<open>auto simp: awaited_def updater_ok_def\<close>)
  next
    case 2
    note W = stopping_ws_inv [OF inv 2]
    show ?thesis
    proof (cases "p_mu c n = Some WatchRoutine \<or> p_stop c n = StopSend \<and> p_watch c n \<noteq> WSelect")
      case True
      then obtain w where "ws_do Watches (server_view n c) w" using watch_enabled [OF W] by auto
      then show ?thesis using watch [OF al 2(2)] 2 True by (auto simp: awaited_def)
    next
      case False
      then have main: "awaited c = MainThread" using 2 by (simp add: awaited_def)
      show ?thesis
      proof (cases "\<exists>r. p_stop c n = StopDone r")
        case True
        then show ?thesis using stop_next 2 unfolding main by blast
      next
        case not_done: False
        then obtain w where "ws_do Stops (server_view n c) w"
          using stop_one_enabled [OF W] False by auto
        then show ?thesis using stop_one 2 unfolding main by blast
      qed
    qed
  next
    case 3
    then show ?thesis using stopped by (auto simp: awaited_def)
  qed
qed


lemma Watches_left:
  assumes inv: "ws_inv w" and step: "ws_do Watches w w'"
    and w: "lifecycleMu w = Some WatchRoutine \<or> ws_stop w = StopSend \<and> ws_watch w \<noteq> WSelect"
  shows "watch_left (ws_watch w') < watch_left (ws_watch w)"
  using step inv w by cases (auto simp: ws_inv_def watch_left_def)

text \<open>A step of the goroutine main waits for brings main closer to its own next step.\<close>

lemma awaited_step_left:
  assumes inv: "prog_inv c" and down: "shutting_down c" and step: "prog_step (awaited c) c c'"
    and other: "awaited c \<noteq> MainThread"
  shows "shutting_down c' \<and> main_left c' = main_left c \<and> wait_left c' < wait_left c"
proof -
  consider k where "p_main c = MTicker" "p_upd c = UAt k \<or> p_upd c = UNotify k" "awaited c = UpdateThread"
    | n where "p_main c = MStop n" "n < n_servers c" "awaited c = WatchThread n"
      "p_mu c n = Some WatchRoutine \<or> p_stop c n = StopSend \<and> p_watch c n \<noteq> WSelect"
    using down other
    by (auto simp: shutting_down_def awaited_def split: update_pc.splits if_splits)
  then show ?thesis
  proof cases
    case 1
    have conf: "j < n_servers c \<Longrightarrow> j < length (configList (p_rm c))" for j
      using inv by (simp add: prog_inv_def)
    have notify: "p_upd c = UNotify j \<Longrightarrow> j < n_servers c" for j
      using inv down by (auto simp: prog_inv_def updater_ok_def dest: shutting_down_orderly)
    show ?thesis
      using step unfolding 1(3)
    proof cases
      case (update_one n ds h need s)
      then show ?thesis
        using 1 by (auto simp: shutting_down_def main_left_def wait_left_def)
    next
      case (announce n)
      then show ?thesis
        using 1 notify by (auto simp: shutting_down_def main_left_def wait_left_def)
    next
      case (update_panics n)
      then show ?thesis using 1 conf by simp
    next
      case (updated n)
      then show ?thesis
        using 1 by (auto simp: shutting_down_def main_left_def wait_left_def)
    qed (use 1 in auto)
  next
    case 2
    obtain w where w: "ws_do Watches (server_view n c) w" "c' = put_view n w c"
      using step unfolding 2(3) by cases auto
    have "watch_left (ws_watch w) < watch_left (p_watch c n)"
      using Watches_left [OF stopping_ws_inv [OF inv 2(1,2)] w(1)] 2(4) by simp
    then show ?thesis
      using w 2 Watches_keeps [OF w(1)]
      by (auto simp: shutting_down_def main_left_def wait_left_def)
  qed
qed

text \<open>\<open>k\<close> steps, each of the goroutine main waits for.\<close>

inductive awaited_run :: "nat \<Rightarrow> prog \<Rightarrow> prog \<Rightarrow> bool" where
  aw_none: "awaited_run 0 c c"
| aw_more: "prog_step (awaited c) c c' \<Longrightarrow> awaited_run k c' c'' \<Longrightarrow> awaited_run (Suc k) c c''"

definition work_left :: "prog \<Rightarrow> nat" where
  "work_left c = main_left c * (2 * n_servers c + 5) + wait_left c"

lemma wait_left_bound: "wait_left c \<le> 2 * n_servers c + 4"
proof -
  have "watch_left p \<le> 4" for p by (cases p) (simp_all add: watch_left_def)
  then show ?thesis
    by (auto simp: wait_left_def trans_le_add2 split: main_pc.split update_pc.split)
qed

lemma main_left_bound: "main_left c \<le> 8 * n_servers c + 2"
proof -
  have "stop_left p + 8 * (n_servers c - Suc n) + 1 \<le> 8 * n_servers c + 2" if "n < n_servers c" for p n
    using stop_left_le [of p] that by linarith
  then show ?thesis by (auto simp: main_left_def split: main_pc.split)
qed

lemma work_left_bound: "work_left c \<le> (8 * n_servers c + 3) * (2 * n_servers c + 5)"
proof -
  have "main_left c * (2 * n_servers c + 5) \<le> (8 * n_servers c + 2) * (2 * n_servers c + 5)"
    by (rule mult_le_mono1 [OF main_left_bound])
  then show ?thesis
    using wait_left_bound [of c] by (simp add: work_left_def algebra_simps)
qed

definition shut_down :: "prog \<Rightarrow> bool" where
  "shut_down c \<longleftrightarrow> (\<exists>r. p_main c = MExit (ShutDown r))"

lemma awaited_step_work:
  assumes inv: "prog_inv c" and down: "shutting_down c" and step: "prog_step (awaited c) c c'"
  shows "(shutting_down c' \<or> shut_down c') \<and> work_left c' < work_left c"
proof (cases "awaited c = MainThread")
  case True
  note S = shutdown_step [OF step down]
  have "work_left c' < work_left c"
  proof -
    have "main_left c' + 1 \<le> main_left c" "n_servers c' = n_servers c" using S True by auto
    then have "(main_left c' + 1) * (2 * n_servers c + 5) \<le> main_left c * (2 * n_servers c + 5)"
      by (intro mult_le_mono1)
    then show ?thesis
      using wait_left_bound [of c'] \<open>n_servers c' = n_servers c\<close> by (simp add: work_left_def)
  qed
  moreover have "shutting_down c' \<or> shut_down c'"
    using step down unfolding True
    by cases (auto simp: shutting_down_def shut_down_def split: option.splits)
  ultimately show ?thesis by blast
next
  case False
  then show ?thesis
    using awaited_step_left [OF inv down step] shutdown_step [OF step down]
    by (simp add: work_left_def)
qed

lemma shut_down_stuck: "shut_down c \<Longrightarrow> \<not> prog_step t c c'"
  by (auto simp: shut_down_def prog_alive_def elim: prog_step.cases)

lemma awaited_run_work:
  "awaited_run k c c' \<Longrightarrow> prog_inv c \<Longrightarrow> shutting_down c \<or> shut_down c \<Longrightarrow>
     (shutting_down c' \<or> shut_down c') \<and> k + work_left c' \<le> work_left c"
proof (induction rule: awaited_run.induct)
  case (aw_more c c' k c'')
  have down: "shutting_down c" using aw_more.prems(2) shut_down_stuck aw_more.hyps(1) by blast
  then show ?case
    using aw_more.IH awaited_step_work [OF aw_more.prems(1) down aw_more.hyps(1)]
      prog_step_inv [OF aw_more.hyps(1) aw_more.prems(1)] by auto
qed simp

lemma shutdown_finishes:
  "prog_inv c \<Longrightarrow> shutting_down c \<Longrightarrow> \<exists>k c'. awaited_run k c c' \<and> shut_down c'"
proof (induction "work_left c" arbitrary: c rule: less_induct)
  case less
  obtain c1 where c1: "prog_step (awaited c) c c1"
    using awaited_step [OF less.prems] by blast
  note W = awaited_step_work [OF less.prems c1]
  show ?case
  proof (cases "shut_down c1")
    case True
    then show ?thesis using aw_more [OF c1 aw_none] by blast
  next
    case False
    then obtain k c' where "awaited_run k c1 c'" "shut_down c'"
      using less.hyps [of c1] W prog_step_inv [OF c1 less.prems(1)] by blast
    then show ?thesis using aw_more [OF c1] by blast
  qed
qed

lemma shutdown_run:
  "prog_run ts c c' \<Longrightarrow> shutting_down c \<Longrightarrow>
     n_servers c' = n_servers c \<and> count_list ts MainThread + main_left c' \<le> main_left c"
proof (induction rule: prog_run.induct)
  case (run_more t c c' ts c'')
  note S = shutdown_step [OF run_more.hyps(1) run_more.prems]
  show ?case
  proof (cases "shutting_down c'")
    case True
    then show ?thesis using run_more.IH S by (cases "t = MainThread") auto
  next
    case False
    then have dead: "\<not> prog_alive c'" using S by blast
    have "\<not> prog_step u c' d" for u d
      using dead by (auto simp: prog_alive_def elim: prog_step.cases)
    then have "ts = [] \<and> c'' = c'" using run_more.hyps(2) by (auto elim: prog_run.cases)
    then show ?thesis using S by (cases "t = MainThread") auto
  qed
qed simp

end
