(* ===== verification/Shutdown.thy ===== *)
theory Shutdown
  imports MainProgram
begin

text \<open>
  The whole life of the program outside CDI mode: start-up, a history of updates, watcher
  rounds, registration reports and hang-up signals, and a terminating signal.  \<open>in_place\<close> is
  the exact state of the machine while the servers run (which sockets the kernel lists, in
  which order, and which paths exist), \<open>at_rest\<close> that of the program between two signals; the
  loops of \<^verbatim>\<open>StartAllServers\<close>, \<^verbatim>\<open>RestartAllServers\<close> and \<^verbatim>\<open>StopAllServers\<close> establish it,
  move it to new sockets, and undo it.
\<close>

section \<open>Servers in place\<close>

definition owns :: "resourceServer \<Rightarrow> 64 word \<Rightarrow> bool" where
  "owns s ino \<longleftrightarrow>
     (\<exists>l. own_listener s = Some l \<and> lis_ino l = ino \<and> lis_path l = socketPath s \<and>
        \<not> lis_unlink_on_close l) \<and>
     socketOwner s = socketOwnerKnown \<and> socketIno s = ino"

definition in_place :: "osys \<Rightarrow> resourceServer list \<Rightarrow> 64 word list \<Rightarrow> osys \<Rightarrow> bool" where
  "in_place os0 servers inos os \<longleftrightarrow>
     list_all2 owns servers inos \<and>
     unix_rows os = unix_rows os0 @ zip inos (map socketPath servers) \<and>
     (\<forall>p \<in> socketPath ` set servers. paths os p \<noteq> None) \<and>
     (\<forall>p. p \<notin> socketPath ` set servers \<longrightarrow> paths os p = paths os0 p) \<and>
     flocks os = flocks os0"

lemma owns_running: "owns s ino \<Longrightarrow> rsc_GetServer s \<noteq> None"
  by (auto simp: owns_def own_listener_def split: option.splits)

lemma start_in_place:
  assumes st: "startLocked e e2 s os = (None, s', os')" and cap: "e_capture e = CapFstat"
  shows "\<exists>ino. e_listen e = Inr ino \<and> owns s' ino \<and> socketPath s' = socketPath s \<and>
    unix_rows os' = unix_rows os @ [(ino, socketPath s)] \<and> paths os' (socketPath s) \<noteq> None \<and>
    (\<forall>p. p \<noteq> socketPath s \<longrightarrow> paths os' p = paths os p) \<and> flocks os' = flocks os"
  using startLocked_None_state [OF st] cap
  by (auto simp: owns_def same_server_def other_paths_def)

lemma in_place_Cons:
  assumes "owns s ino" "socketPath s \<notin> socketPath ` set servers"
    and "unix_rows os1 = unix_rows os @ [(ino, socketPath s)]" "paths os1 (socketPath s) \<noteq> None"
    and "\<forall>p. p \<noteq> socketPath s \<longrightarrow> paths os1 p = paths os p" "flocks os1 = flocks os"
    and "in_place os1 servers inos os2"
  shows "in_place os (s # servers) (ino # inos) os2"
  using assms by (auto simp: in_place_def)

lemma start_loop_in_place:
  assumes "start_loop envs wm n servers os = Returns r" "st_err r = None"
    and "\<forall>s \<in> set servers. rsConnector s \<noteq> None" "distinct (map socketPath servers)"
    and cap: "\<forall>i. e_capture (fst (envs i)) = CapFstat"
  shows "\<exists>inos. in_place os (st_servers r) inos (st_mach r) \<and> length inos = length servers \<and>
    map socketPath (st_servers r) = map socketPath servers \<and>
    (\<forall>i < length servers. e_listen (fst (envs (n + i))) = Inr (inos ! i))"
  using assms(1-4)
proof (induction servers arbitrary: n os r)
  case (Cons s rest)
  obtain r1 s1 os1 where st: "startLocked (fst (envs n)) (snd (envs n)) s os = (r1, s1, os1)"
    by (cases "startLocked (fst (envs n)) (snd (envs n)) s os") auto
  have "r1 = None"
    using Cons.prems(1,2,3) st by (cases r1) (auto simp: Start_def)
  then have st': "startLocked (fst (envs n)) (snd (envs n)) s os = (None, s1, os1)" using st by simp
  obtain q where q: "start_loop envs wm (Suc n) rest os1 = Returns q"
    "r = q\<lparr>st_servers := s1 # st_servers q,
           st_watched := (if \<not> wm then n # st_watched q else st_watched q)\<rparr>"
    using Cons.prems(1,3) st' by (auto simp: Start_def split: outcome.splits)
  obtain inos where ih: "in_place os1 (st_servers q) inos (st_mach q)" "length inos = length rest"
    "map socketPath (st_servers q) = map socketPath rest"
    "\<forall>i < length rest. e_listen (fst (envs (Suc n + i))) = Inr (inos ! i)"
    using Cons.IH [OF q(1)] Cons.prems q(2) by auto
  obtain ino where S: "e_listen (fst (envs n)) = Inr ino" "owns s1 ino" "socketPath s1 = socketPath s"
    "unix_rows os1 = unix_rows os @ [(ino, socketPath s1)]" "paths os1 (socketPath s1) \<noteq> None"
    "\<forall>p. p \<noteq> socketPath s1 \<longrightarrow> paths os1 p = paths os p" "flocks os1 = flocks os"
    using start_in_place [OF st'] cap by auto
  have "socketPath ` set (st_servers q) = socketPath ` set rest"
    using ih(3) by (metis set_map)
  then have fresh: "socketPath s1 \<notin> socketPath ` set (st_servers q)"
    using Cons.prems(4) S(3) by simp
  have "in_place os (s1 # st_servers q) (ino # inos) (st_mach q)"
    by (rule in_place_Cons [OF S(2) fresh S(4-7) ih(1)])
  moreover have "\<forall>i < length (s # rest). e_listen (fst (envs (n + i))) = Inr ((ino # inos) ! i)"
    using ih(4) S(1) by (auto simp: less_Suc_eq_0_disj)
  ultimately show ?case
    using q(2) ih(2,3) S(3) by (intro exI [of _ "ino # inos"]) simp
qed (auto simp: in_place_def)

section \<open>Stopping them all\<close>

text \<open>A machine on which a stop goes through.\<close>

definition stopping_well :: "os_env \<Rightarrow> bool" where
  "stopping_well e \<longleftrightarrow>
     proc_format (e_proc_net_unix e) \<and> e_lstat e = None \<and> e_remove e = None"

lemma Stop_watcher: "watchMode s \<or> w \<Longrightarrow> Stop w e s os = Stop True e s os"
  by (auto simp: Stop_def)

lemma Stop_in_place:
  assumes own: "owns s ino" and e: "stopping_well e"
    and rows: "unix_rows os = rows0 @ (ino, socketPath s) # rest" "rows_clean (unix_rows os)"
    and fresh: "ino \<notin> fst ` set (rows0 @ rest)" "socketPath s \<notin> snd ` set (rows0 @ rest)"
    and path: "paths os (socketPath s) \<noteq> None" and w: "watchMode s \<or> w"
  shows "\<exists>s' os'. Stop w e s os = Some (None, s', os') \<and> unix_rows os' = rows0 @ rest \<and>
    paths os' = (paths os)(socketPath s := None) \<and> flocks os' = flocks os"
proof -
  obtain l where l: "own_listener s = Some l" "lis_ino l = ino" "\<not> lis_unlink_on_close l"
    "lis_path l = socketPath s"
    using own by (auto simp: owns_def)
  have ok: "listener_ok s" using l by (simp add: listener_ok_def)
  have none: "inos_of (socketPath s) rows0 = []" "inos_of (socketPath s) rest = []"
    using fresh(2) by (force simp: inos_of_def filter_empty_conv)+
  have known: "socketOwner s = socketOwnerKnown" "socketIno s = ino"
    using own by (simp_all add: owns_def)
  have rm: "shouldRemoveSocketPathLocked e s os"
    using shouldRemove_known_iff [of e os s] e rows path known none
    by (simp add: stopping_well_def)
  obtain err s' os' where st: "Stop True e s os = Some (err, s', os')"
    "unix_rows os' = filter (\<lambda>r. fst r \<noteq> ino) (unix_rows os)"
    "(err, paths os') = (None, (paths os)(socketPath s := None))"
    using Stop_parts [OF owns_running [OF own], of e os] l rm path e by (auto simp: stopping_well_def)
  have "stopLocked e s os = (err, s', os')"
    using st(1) by (auto simp: Stop_def Let_def split: if_splits) (auto simp: stopLocked_def owns_running [OF own])
  then have "flocks os' = flocks os" using stop_op.op_locks ok by blast
  moreover have "filter (\<lambda>r. fst r \<noteq> ino) rows0 = rows0" "filter (\<lambda>r. fst r \<noteq> ino) rest = rest"
    using fresh(1) by (auto simp: filter_id_conv)
  then have "filter (\<lambda>r. fst r \<noteq> ino) (unix_rows os) = rows0 @ rest"
    using rows(1) by simp
  ultimately show ?thesis using st Stop_watcher [OF w] by auto
qed

lemma stop_loop_in_place:
  assumes "list_all2 owns servers inos"
    and "unix_rows os = rows0 @ zip inos (map socketPath servers)" "rows_clean (unix_rows os)"
    and "distinct inos" "distinct (map socketPath servers)"
    and "set inos \<inter> fst ` set rows0 = {}" "socketPath ` set servers \<inter> snd ` set rows0 = {}"
    and "\<forall>s \<in> set servers. paths os (socketPath s) \<noteq> None"
    and "\<forall>i < length servers. watchMode (servers ! i) \<or> n + i \<in> set watched"
    and well: "\<forall>i. stopping_well (envs i)"
  shows "\<exists>servers' os'. stop_loop envs watched n servers os = Some (None, servers', os') \<and>
    unix_rows os' = rows0 \<and> flocks os' = flocks os \<and>
    paths os' = (\<lambda>p. if p \<in> socketPath ` set servers then None else paths os p)"
  using assms(1-9)
proof (induction servers arbitrary: n os inos)
  case (Cons s rest)
  obtain ino inos' where inos: "inos = ino # inos'" "owns s ino" "list_all2 owns rest inos'"
    using Cons.prems(1) by (cases inos) auto
  let ?rest = "zip inos' (map socketPath rest)"
  have len: "length inos' = length rest" using inos(3) by (simp add: list_all2_lengthD)
  have sets: "fst ` set ?rest = set inos'" "snd ` set ?rest = socketPath ` set rest"
    using len by (metis length_map map_fst_zip set_map) (metis len length_map map_snd_zip set_map)
  have rows: "unix_rows os = rows0 @ (ino, socketPath s) # ?rest"
    using Cons.prems(2) inos(1) by simp
  have fresh: "ino \<notin> fst ` set (rows0 @ ?rest)" "socketPath s \<notin> snd ` set (rows0 @ ?rest)"
    using Cons.prems(4-7) inos(1) sets by (auto simp: image_Un)
  have w: "watchMode s \<or> n \<in> set watched" using Cons.prems(9) by force
  have here: "paths os (socketPath s) \<noteq> None" using Cons.prems(8) by simp
  obtain s1 os1 where st: "Stop (n \<in> set watched) (envs n) s os = Some (None, s1, os1)"
    "unix_rows os1 = rows0 @ ?rest" "paths os1 = (paths os)(socketPath s := None)"
    "flocks os1 = flocks os"
    using Stop_in_place [OF inos(2) _ rows Cons.prems(3) fresh here w, of "envs n"] well by blast
  have clean: "rows_clean (unix_rows os1)"
    using Cons.prems(3) st(2) rows by (auto simp: rows_clean_def)
  have other: "\<forall>t \<in> set rest. paths os1 (socketPath t) \<noteq> None"
    using Cons.prems(5,8) st(3) by (auto simp: image_iff)
  have w': "\<forall>i < length rest. watchMode (rest ! i) \<or> Suc n + i \<in> set watched"
    using Cons.prems(9) by (metis Suc_less_eq add_Suc_shift length_Cons nth_Cons_Suc)
  obtain servers' os2 where ih: "stop_loop envs watched (Suc n) rest os1 = Some (None, servers', os2)"
    "unix_rows os2 = rows0" "flocks os2 = flocks os1"
    "paths os2 = (\<lambda>p. if p \<in> socketPath ` set rest then None else paths os1 p)"
    using Cons.IH [OF inos(3) st(2) clean _ _ _ _ other w'] Cons.prems(4-7) inos(1) by auto
  show ?case using st ih by (auto simp: fun_eq_iff)
qed auto


section \<open>Quiet events\<close>

lemma owns_UpdateDevices:
  "owns (UpdateDevices ds s) ino = owns s ino" "socketPath (UpdateDevices ds s) = socketPath s"
proof -
  have "rsConnector (UpdateDevices ds s) = rsConnector s \<and> socketPath (UpdateDevices ds s) = socketPath s
      \<and> socketOwner (UpdateDevices ds s) = socketOwner s \<and> socketIno (UpdateDevices ds s) = socketIno s"
    by (cases rule: update_locked_cases [where s = s and ds = ds])
       (simp_all add: UpdateDevices_def notifyUpdate_def)
  then show "owns (UpdateDevices ds s) ino = owns s ino" "socketPath (UpdateDevices ds s) = socketPath s"
    by (simp_all add: owns_def own_listener_def rsc_GetServer_def)
qed

lemma in_place_updates:
  assumes "list_all2 (\<lambda>s s'. s' = s \<or> (\<exists>ds. s' = UpdateDevices ds s)) servers servers'"
  shows "map socketPath servers' = map socketPath servers"
    "in_place os0 servers inos os \<Longrightarrow> in_place os0 servers' inos os"
proof -
  have each: "owns (servers' ! i) ino = owns (servers ! i) ino \<and>
      socketPath (servers' ! i) = socketPath (servers ! i)"
    if "i < length servers" for i ino
    using list_all2_nthD [OF assms that] owns_UpdateDevices by auto
  have len: "length servers' = length servers" using assms by (simp add: list_all2_lengthD)
  show m: "map socketPath servers' = map socketPath servers"
    using each len by (intro nth_equalityI) auto
  then have "socketPath ` set servers' = socketPath ` set servers" by (metis set_map)
  moreover have "list_all2 owns servers' inos = list_all2 owns servers inos"
    using each len by (auto simp: list_all2_conv_all_nth)
  ultimately show "in_place os0 servers inos os \<Longrightarrow> in_place os0 servers' inos os"
    using m by (simp add: in_place_def)
qed

text \<open>The running program between two signals.\<close>

definition at_rest :: "osys \<Rightarrow> go_string list \<Rightarrow> 64 word list \<Rightarrow> spec_files \<Rightarrow> sys \<Rightarrow> bool" where
  "at_rest os0 ps inos files c \<longleftrightarrow>
     sys_inv c \<and> in_place os0 (resourceServers (sys_rm c)) inos (sys_mach c) \<and>
     map socketPath (resourceServers (sys_rm c)) = ps \<and> \<not> rmUseCdi (sys_rm c) \<and> sys_files c = files \<and>
     sys_sigs c = Notify (NewSignalNotifier [SIGHUP, SIGINT, SIGTERM, SIGQUIT])"

text \<open>Events that do not concern the sockets: updates, signals the program does not listen for,
  a main loop that finds no signal, watcher rounds that can look at their socket, and
  registrations that succeed.\<close>

fun quiet :: "main_event \<Rightarrow> bool" where
  "quiet (SignalArrives sig) = (sig \<notin> set [SIGHUP, SIGINT, SIGTERM, SIGQUIT])"
| "quiet (MainTakes envs env) = True"
| "quiet (PeriodicTick pci hs) = True"
| "quiet (WatcherLooks i e e2) = (e_lstat e = None)"
| "quiet (KubeletNotifies i ok) = ok"

lemma set_server_same:
  "i < length (resourceServers (sys_rm c)) \<Longrightarrow>
     set_server i (resourceServers (sys_rm c) ! i) (sys_mach c) c = c"
  by (simp add: set_server_def)

lemma quiet_step:
  assumes rest: "at_rest os0 ps inos files c" and q: "quiet e"
  shows "\<exists>c'. main_step e c = Running c' \<and> at_rest os0 ps inos files c'"
proof (cases e)
  case (SignalArrives sig)
  then have "main_step e c = Running c"
    using rest q by (auto simp: at_rest_def signal_arrives_def Notify_def NewSignalNotifier_def)
  then show ?thesis using rest by blast
next
  case (MainTakes envs env)
  then have "main_step e c = Running c" using rest by (simp add: at_rest_def Notify_def)
  then show ?thesis using rest by blast
next
  case (PeriodicTick pci hs)
  obtain rm' where rm': "periodic_tick pci hs (sys_rm c) = Returns rm'"
    "list_all2 (\<lambda>s s'. s' = s \<or> (\<exists>ds. s' = UpdateDevices ds s)) (resourceServers (sys_rm c))
       (resourceServers rm')"
    "rmUseCdi rm' = rmUseCdi (sys_rm c)"
    using periodic_tick_updates [of "sys_rm c" pci hs] rest by (auto simp: at_rest_def sys_inv_def)
  obtain c' where m: "main_step e c = Running c'" "c' = c \<or> c' = c\<lparr>sys_rm := rm'\<rparr>"
    using PeriodicTick rm'(1) by (cases "sint (PeriodicUpdateInterval (sys_rm c)) > 0")
      (auto simp: PeriodicUpdate_def)
  have "sys_inv c'" using main_step_good [of c e] rest m(1) by (simp add: at_rest_def)
  then have "at_rest os0 ps inos files c'"
    using m(2) rest in_place_updates [OF rm'(2)] rm'(3) by (auto simp: at_rest_def)
  then show ?thesis using m(1) by blast
next
  case (WatcherLooks i e1 e2)
  have "main_step e c = Running c"
  proof (cases "i \<in> set (sys_watched c) \<and> i < length (resourceServers (sys_rm c))")
    case True
    let ?s = "resourceServers (sys_rm c) ! i"
    have "paths (sys_mach c) (socketPath ?s) \<noteq> None"
      using rest True by (simp add: at_rest_def in_place_def)
    then have "watch_round e1 e2 None ?s (sys_mach c) = (True, ?s, sys_mach c)"
      using q WatcherLooks by (auto simp: watch_round_def os_Lstat_path_def)
    then show ?thesis using True WatcherLooks set_server_same by simp
  next
    case False
    then show ?thesis using WatcherLooks by (auto simp del: set_upt)
  qed
  then show ?thesis using rest by blast
next
  case (KubeletNotifies i ok)
  then have "main_step e c = Running c"
    using q set_server_same by (auto simp: NotifyRegistrationStatus_def)
  then show ?thesis using rest by blast
qed

lemma quiet_run:
  "at_rest os0 ps inos files c \<Longrightarrow> list_all quiet es \<Longrightarrow>
     \<exists>c'. main_run es c = Running c' \<and> at_rest os0 ps inos files c'"
proof (induction es arbitrary: c)
  case (Cons e es)
  obtain c1 where "main_step e c = Running c1" "at_rest os0 ps inos files c1"
    using quiet_step [OF Cons.prems(1)] Cons.prems(2) by auto
  then show ?case using Cons.IH Cons.prems(2) by simp
qed simp

lemma main_run_append:
  "main_run es c = Running c' \<Longrightarrow> main_run (es @ es') c = main_run es' c'"
  by (induction es arbitrary: c) (auto split: main_outcome.splits)

lemma shutdown_at_rest:
  assumes rest: "at_rest os0 ps inos files c" and sig: "sig \<in> {SIGINT, SIGTERM, SIGQUIT}"
    and ino: "distinct inos" "set inos \<inter> fst ` set (unix_rows os0) = {}"
    and rows: "set ps \<inter> snd ` set (unix_rows os0) = {}" "rows_clean (unix_rows os0)"
      "\<forall>p \<in> set ps. go_Fields p = [p]"
    and well: "\<forall>i. stopping_well (fst (envs i))"
  shows "\<exists>os'. main_run [SignalArrives sig, MainTakes envs env] c = Finished (ShutDown None) files os' \<and>
    unix_rows os' = unix_rows os0 \<and> flocks os' = flocks os0 \<and>
    paths os' = (\<lambda>p. if p \<in> set ps then None else paths os0 p)"
proof -
  let ?servers = "resourceServers (sys_rm c)"
  have R: "sys_inv c" "in_place os0 ?servers inos (sys_mach c)" "map socketPath ?servers = ps"
    "\<not> rmUseCdi (sys_rm c)" "sys_files c = files"
    "sys_sigs c = Notify (NewSignalNotifier [SIGHUP, SIGINT, SIGTERM, SIGQUIT])"
    using rest by (simp_all add: at_rest_def)
  have P: "list_all2 owns ?servers inos" "unix_rows (sys_mach c) = unix_rows os0 @ zip inos ps"
    "\<forall>s \<in> set ?servers. paths (sys_mach c) (socketPath s) \<noteq> None"
    "\<forall>p. p \<notin> set ps \<longrightarrow> paths (sys_mach c) p = paths os0 p" "flocks (sys_mach c) = flocks os0"
    using R(2) unfolding in_place_def R(3) [symmetric] by auto
  have clean: "rows_clean (unix_rows (sys_mach c))"
    using rows(2,3) P(2) by (auto simp: rows_clean_def dest: set_zip_rightD)
  have watched: "\<forall>i < length ?servers. watchMode (?servers ! i) \<or> 0 + i \<in> set (sys_watched c)"
    using R(1) by (auto simp: sys_inv_def)
  have ps: "socketPath ` set ?servers = set ps" using R(3) by (metis set_map)
  obtain servers' os' where st: "stop_loop (\<lambda>n. fst (envs n)) (sys_watched c) 0 ?servers (sys_mach c) =
      Some (None, servers', os')" "unix_rows os' = unix_rows os0" "flocks os' = flocks (sys_mach c)"
    "paths os' = (\<lambda>p. if p \<in> set ps then None else paths (sys_mach c) p)"
    using stop_loop_in_place [OF P(1) _ clean ino(1) _ ino(2) _ P(3) watched, of "\<lambda>n. fst (envs n)"]
      P(2) R(1,3) rows(1) well unfolding ps by (auto simp: sys_inv_def)
  have "main_run [SignalArrives sig, MainTakes envs env] c = Finished (ShutDown None) files os'"
    using sig R(4-6) st(1)
    by (auto simp: signal_arrives_def Notify_def NewSignalNotifier_def handle_signal_def
        PeriodicUpdate_def stopPeriodicUpdate_def StopAllServers_def)
  then show ?thesis using st(2-4) P(4,5) by (auto simp: fun_eq_iff)
qed

lemma init_loop_files:
  "\<not> rmUseCdi (out_rm c) \<Longrightarrow> out_files (snd (init_loop hs env n configs c)) = out_files c"
proof (induction configs arbitrary: n c)
  case (Cons config configs)
  then show ?case by (cases "built hs (out_rm c) n config") (simp_all add: init_loop_Cons Let_def)
qed simp

section \<open>Start-up\<close>

text \<open>What start-up built and started.\<close>

lemma main_start_servers:
  assumes run: "main_start env oo files os = Running c"
  obtains rm1 rm servers out r where
    "ReadConfig (me_ReadFile env) (me_Unmarshal env)
       (NewResourceManager (me_Stat env) (configFilePath oo) (optKubeletRootDir oo) (optUseCdi oo))
       = (None, rm1)"
    "rm = rm1\<lparr>configList := map (normalise (defaultResourcePrefix rm1)) (configList rm1),
              deviceList := deviceList rm\<rparr>"
    "InitServers (me_hosts env) (me_cdi env) rm files = (None, out)"
    "length servers = length (configList rm)"
    "\<forall>i < length servers. built (me_hosts env) rm i (configList rm ! i) = Inr (servers ! i)"
    "distinct (map socketPath servers)"
    "\<forall>s \<in> set servers. rsConnector s \<noteq> None \<and> listener_ok s"
    "start_loop (me_start env) (rmWatchMode rm) 0 servers os = Returns r" "st_err r = None"
    "c = \<lparr>sys_rm = rm\<lparr>resourceServers := st_servers r\<rparr>, sys_files = out_files out,
          sys_watched = st_watched r, sys_mach = st_mach r,
          sys_sigs = Notify (NewSignalNotifier [SIGHUP, SIGINT, SIGTERM, SIGQUIT])\<rparr>"
proof -
  obtain rm1 rm2 found logged out rm5 watched os1 where p:
    "ReadConfig (me_ReadFile env) (me_Unmarshal env)
       (NewResourceManager (me_Stat env) (configFilePath oo) (optKubeletRootDir oo) (optUseCdi oo))
       = (None, rm1)"
    "ValidateConfigs rm1 = (None, rm2)"
    "InitServers (me_hosts env) (me_cdi env) (rm2\<lparr>deviceList := found\<rparr>) files = (None, out)"
    "StartAllServers (me_start env) (out_rm out) os = Returns (None, rm5, watched, os1)"
    "c = \<lparr>sys_rm = rm5, sys_files = out_files out, sys_watched = watched, sys_mach = os1,
          sys_sigs = Notify (NewSignalNotifier [SIGHUP, SIGINT, SIGTERM, SIGQUIT])\<rparr>"
    using run by (rule main_start_parts)
  let ?rm = "rm2\<lparr>deviceList := found\<rparr>"
  have none: "resourceServers rm1 = []" using ReadConfig_frame [OF p(1)] by (simp add: NewResourceManager_def)
  have prep: "prepared ?rm" by (rule ValidateConfigs_prepared [OF p(2) none])
  obtain servers where b: "out_rm out = ?rm\<lparr>resourceServers := servers\<rparr>"
    "length servers = length (configList ?rm)"
    "\<forall>i < length servers. built (me_hosts env) ?rm i (configList ?rm ! i) = Inr (servers ! i)"
    using InitServers_built [OF p(3)] prep by (auto simp: prepared_def)
  have ok: "\<forall>s \<in> set servers. rsConnector s \<noteq> None \<and> listener_ok s"
    using b(2,3) built_fields by (metis in_set_conv_nth option.distinct(1))
  have dist: "distinct (map socketPath servers)"
    using built_distinct_paths [OF b(2,3)] prep by (auto simp: prepared_def)
  obtain r where r: "start_loop (me_start env) (rmWatchMode ?rm) 0 servers os = Returns r"
    "st_err r = None" "rm5 = ?rm\<lparr>resourceServers := st_servers r\<rparr>" "watched = st_watched r"
    "os1 = st_mach r"
    using p(4) b(1) by (auto simp: StartAllServers_def split: outcome.splits)
  have rm: "?rm = rm1\<lparr>configList := map (normalise (defaultResourcePrefix rm1)) (configList rm1),
      deviceList := deviceList ?rm\<rparr>"
    using p(2) by (simp add: ValidateConfigs_iff)
  show thesis by (rule that [OF p(1) rm p(3) b(2,3) dist ok r(1,2)]) (simp add: p(5) r(3-5))
qed

lemma main_start_at_rest:
  assumes run: "main_start env oo files os = Running c" and cdi: "\<not> optUseCdi oo"
    and cap: "\<forall>n. e_capture (fst (me_start env n)) = CapFstat"
  shows "\<exists>inos. at_rest os (map socketPath (resourceServers (sys_rm c))) inos files c \<and>
    length inos = length (resourceServers (sys_rm c)) \<and>
    (\<forall>i < length inos. e_listen (fst (me_start env i)) = Inr (inos ! i))"
proof (rule main_start_servers [OF run])
  fix rm1 rm servers out r
  assume p: "ReadConfig (me_ReadFile env) (me_Unmarshal env)
       (NewResourceManager (me_Stat env) (configFilePath oo) (optKubeletRootDir oo) (optUseCdi oo))
       = (None, rm1)"
    "rm = rm1\<lparr>configList := map (normalise (defaultResourcePrefix rm1)) (configList rm1),
              deviceList := deviceList rm\<rparr>"
    "InitServers (me_hosts env) (me_cdi env) rm files = (None, out)"
    "distinct (map socketPath servers)" "\<forall>s \<in> set servers. rsConnector s \<noteq> None \<and> listener_ok s"
    "start_loop (me_start env) (rmWatchMode rm) 0 servers os = Returns r" "st_err r = None"
    "c = \<lparr>sys_rm = rm\<lparr>resourceServers := st_servers r\<rparr>, sys_files = out_files out,
          sys_watched = st_watched r, sys_mach = st_mach r,
          sys_sigs = Notify (NewSignalNotifier [SIGHUP, SIGINT, SIGTERM, SIGQUIT])\<rparr>"
  have "rmUseCdi rm = rmUseCdi rm1" by (subst p(2)) simp
  then have nocdi: "\<not> rmUseCdi rm"
    using p(1) cdi by (auto simp: ReadConfig_def NewResourceManager_def Let_def split: sum.splits)
  have con: "\<forall>s \<in> set servers. rsConnector s \<noteq> None" using p(5) by blast
  obtain inos where I: "in_place os (st_servers r) inos (st_mach r)" "length inos = length servers"
    "map socketPath (st_servers r) = map socketPath servers"
    "\<forall>i < length servers. e_listen (fst (me_start env (0 + i))) = Inr (inos ! i)"
    using start_loop_in_place [OF p(6,7) con p(4) cap] by blast
  have files: "out_files out = files"
    using init_loop_files [of "\<lparr>out_rm = rm, out_files = files, out_links = []\<rparr>" "me_hosts env"
        "me_cdi env" 0 "configList rm"] p(3) nocdi by (simp add: InitServers_def)
  have len: "length (st_servers r) = length servers" using I(3) by (metis length_map)
  have "sys_inv c" using main_start_inv [OF run] by simp
  then show ?thesis
    using I p(8) files nocdi len by (intro exI [of _ inos]) (auto simp: at_rest_def)
qed

lemma main_start_paths:
  assumes run: "main_start env oo files os = Running c"
    and cfg: "me_ReadFile env (configFilePath oo) = Inr raw" "me_Unmarshal env raw = Inr cfg"
  shows "map socketPath (resourceServers (sys_rm c)) =
    map (\<lambda>conf. path_Join [if detectPluginWatchMode (me_Stat env) (getActiveSockDir (optKubeletRootDir oo))
        then getActiveSockDir (optKubeletRootDir oo) else getDeprecatedSockDir,
        ResourceName conf @ ''.sock'']) (ConfigList cfg)"
proof (rule main_start_servers [OF run])
  fix rm1 rm servers out r
  assume p: "ReadConfig (me_ReadFile env) (me_Unmarshal env)
       (NewResourceManager (me_Stat env) (configFilePath oo) (optKubeletRootDir oo) (optUseCdi oo))
       = (None, rm1)"
    "rm = rm1\<lparr>configList := map (normalise (defaultResourcePrefix rm1)) (configList rm1),
              deviceList := deviceList rm\<rparr>"
    "length servers = length (configList rm)"
    "\<forall>i < length servers. built (me_hosts env) rm i (configList rm ! i) = Inr (servers ! i)"
    "distinct (map socketPath servers)" "\<forall>s \<in> set servers. rsConnector s \<noteq> None \<and> listener_ok s"
    "start_loop (me_start env) (rmWatchMode rm) 0 servers os = Returns r" "st_err r = None"
    "c = \<lparr>sys_rm = rm\<lparr>resourceServers := st_servers r\<rparr>, sys_files = out_files out,
          sys_watched = st_watched r, sys_mach = st_mach r,
          sys_sigs = Notify (NewSignalNotifier [SIGHUP, SIGINT, SIGTERM, SIGQUIT])\<rparr>"
  have rm1: "configList rm1 = ConfigList cfg" "kubeletRootDir rm1 = optKubeletRootDir oo"
    "rmWatchMode rm1 = detectPluginWatchMode (me_Stat env) (getActiveSockDir (optKubeletRootDir oo))"
    using p(1) cfg by (auto simp: ReadConfig_def NewResourceManager_def Let_def)
  have rm: "configList rm = map (normalise (defaultResourcePrefix rm1)) (ConfigList cfg)"
    "sock_dir rm = sock_dir rm1"
    by (subst p(2), simp add: rm1(1), subst p(2), simp add: sock_dir_def)
  have "list_all2 same_server servers (st_servers r)"
    using start_loop_success [OF p(7,8,6,5)] by blast
  then have "map socketPath (st_servers r) = map socketPath servers"
    by (intro nth_equalityI) (auto simp: list_all2_conv_all_nth same_server_def)
  moreover have "map socketPath servers =
      map (\<lambda>conf. path_Join [sock_dir rm1, ResourceName conf @ ''.sock'']) (ConfigList cfg)"
    using p(3,4) rm built_fields by (intro nth_equalityI) fastforce+
  ultimately show ?thesis using p(9) rm1(2,3) by (simp add: sock_dir_def)
qed

section \<open>Hang-up signals\<close>

text \<open>A machine and a kubelet on which a restart goes through.\<close>

definition restarting_well :: "os_env \<Rightarrow> bool" where
  "restarting_well e \<longleftrightarrow>
     is_ok (e_listen e) \<and> e_NewClient e = (\<lambda>t. None) \<and> e_Register e = (\<lambda>r. None) \<and>
     e_capture e = CapFstat \<and> e_remove e = None"

lemma restarting_listen: "restarting_well e \<Longrightarrow> e_listen e = Inr (projr (e_listen e))"
  by (cases "e_listen e") (simp_all add: restarting_well_def)

lemma Restart_in_place:
  assumes own: "owns s ino" and e: "restarting_well e" "e_listen e = Inr new"
    and rows: "unix_rows os = rows0 @ (ino, socketPath s) # rest" "ino \<notin> fst ` set (rows0 @ rest)"
  shows "\<exists>s' os'. Restart e e2 s os = (None, s', os') \<and> owns s' new \<and> same_server s s' \<and>
    unix_rows os' = rows0 @ rest @ [(new, socketPath s)] \<and> paths os' (socketPath s) \<noteq> None \<and>
    (\<forall>p. p \<noteq> socketPath s \<longrightarrow> paths os' p = paths os p) \<and> flocks os' = flocks os"
proof -
  obtain l where l: "own_listener s = Some l" "lis_ino l = ino" "\<not> lis_unlink_on_close l"
    using own by (auto simp: owns_def)
  let ?s1 = "rsc_DeleteServer (fst (rsc_Stop s os))" and ?os1 = "snd (rsc_Stop s os)"
  have same: "same_server s ?s1"
    by (rule same_server_trans [of _ "fst (rsc_Stop s os)"]) simp_all
  have sp: "socketPath ?s1 = socketPath s" using same by (simp add: same_server_def)
  have "filter (\<lambda>r. fst r \<noteq> ino) rows0 = rows0" "filter (\<lambda>r. fst r \<noteq> ino) rest = rest"
    using rows(2) by (auto simp: filter_id_conv)
  then have os1: "unix_rows ?os1 = rows0 @ rest" "paths ?os1 = paths os" "flocks ?os1 = flocks os"
    using l rows(1) by (simp_all add: rsc_Stop_os close_listener_def)
  obtain r s' os' where st: "startLocked e e2 ?s1 ?os1 = (r, s', os')"
    by (cases "startLocked e e2 ?s1 ?os1") auto
  have "r = None"
    using startLocked_good [OF _ e(2) _ _ st] e(1) by (simp add: restarting_well_def)
  then have st': "startLocked e e2 ?s1 ?os1 = (None, s', os')" using st by simp
  have S: "owns s' new" "unix_rows os' = unix_rows ?os1 @ [(new, socketPath ?s1)]"
    "paths os' (socketPath ?s1) \<noteq> None"
    "\<forall>p. p \<noteq> socketPath ?s1 \<longrightarrow> paths os' p = paths ?os1 p" "flocks os' = flocks ?os1"
    using start_in_place [OF st'] e by (auto simp: restarting_well_def)
  have "same_server s s'" using same start_op.op_server [OF st'] by (rule same_server_trans)
  moreover have "Restart e e2 s os = (None, s', os')"
    using st' owns_running [OF own] rsConnector_running by (auto simp: Restart_def split_beta)
  ultimately show ?thesis using S unfolding sp os1 by auto
qed

lemma restart_loop_in_place:
  assumes "list_all2 owns servers inos"
    and "unix_rows os = rows0 @ zip inos (map socketPath servers) @ restarted"
    and "distinct inos" "set inos \<inter> fst ` set (rows0 @ restarted) = {}"
    and "distinct (map socketPath servers)" "length news = length servers"
    and "\<forall>i < length servers. restarting_well (fst (envs (n + i))) \<and>
      e_listen (fst (envs (n + i))) = Inr (news ! i)"
    and "set news \<inter> set inos = {}"
  shows "\<exists>servers' os'. restart_loop envs n servers os = (None, servers', os') \<and>
    list_all2 owns servers' news \<and> list_all2 same_server servers servers' \<and>
    unix_rows os' = rows0 @ restarted @ zip news (map socketPath servers) \<and>
    (\<forall>p \<in> socketPath ` set servers. paths os' p \<noteq> None) \<and>
    (\<forall>p. p \<notin> socketPath ` set servers \<longrightarrow> paths os' p = paths os p) \<and> flocks os' = flocks os"
  using assms
proof (induction servers arbitrary: n os inos news restarted)
  case (Cons s rest)
  obtain ino inos' where inos: "inos = ino # inos'" "owns s ino" "list_all2 owns rest inos'"
    using Cons.prems(1) by (cases inos) auto
  obtain new news' where news: "news = new # news'" "length news' = length rest"
    using Cons.prems(6) by (cases news) auto
  let ?rest = "zip inos' (map socketPath rest)"
  have len: "length inos' = length rest" using inos(3) by (simp add: list_all2_lengthD)
  have sets: "fst ` set ?rest = set inos'"
    using len by (metis length_map map_fst_zip set_map)
  have rows: "unix_rows os = rows0 @ (ino, socketPath s) # (?rest @ restarted)"
    using Cons.prems(2) inos(1) by simp
  have fresh: "ino \<notin> fst ` set (rows0 @ (?rest @ restarted))"
    using Cons.prems(3,4) inos(1) sets by (auto simp: image_Un)
  have e: "restarting_well (fst (envs n))" "e_listen (fst (envs n)) = Inr new"
    using Cons.prems(7) news(1) by force+
  obtain s1 os1 where st: "Restart (fst (envs n)) (snd (envs n)) s os = (None, s1, os1)"
    "owns s1 new" "same_server s s1"
    "unix_rows os1 = rows0 @ (?rest @ restarted) @ [(new, socketPath s)]"
    "paths os1 (socketPath s) \<noteq> None" "\<forall>p. p \<noteq> socketPath s \<longrightarrow> paths os1 p = paths os p"
    "flocks os1 = flocks os"
    using Restart_in_place [OF inos(2) e rows fresh] by blast
  have r1: "unix_rows os1 = rows0 @ ?rest @ (restarted @ [(new, socketPath s)])" using st(4) by simp
  have f1: "set inos' \<inter> fst ` set (rows0 @ (restarted @ [(new, socketPath s)])) = {}"
    using Cons.prems(4,8) inos(1) news(1) by auto
  have e1: "\<forall>i < length rest. restarting_well (fst (envs (Suc n + i))) \<and>
      e_listen (fst (envs (Suc n + i))) = Inr (news' ! i)"
    using Cons.prems(7) news(1) by fastforce
  obtain servers' os' where ih: "restart_loop envs (Suc n) rest os1 = (None, servers', os')"
    "list_all2 owns servers' news'" "list_all2 same_server rest servers'"
    "unix_rows os' = rows0 @ (restarted @ [(new, socketPath s)]) @ zip news' (map socketPath rest)"
    "\<forall>p \<in> socketPath ` set rest. paths os' p \<noteq> None"
    "\<forall>p. p \<notin> socketPath ` set rest \<longrightarrow> paths os' p = paths os1 p" "flocks os' = flocks os1"
    using Cons.IH [OF inos(3) r1 _ f1 _ news(2) e1] Cons.prems(3,5,8) inos(1) news(1) by auto
  have "restart_loop envs n (s # rest) os = (None, s1 # servers', os')" using st(1) ih(1) by simp
  moreover have "paths os' (socketPath s) \<noteq> None"
    using ih(6) st(5) Cons.prems(5) by auto
  ultimately show ?case
    using st(2,3,6,7) ih(2-7) news(1) by auto
qed simp


lemma hang_up_at_rest:
  assumes rest: "at_rest os0 ps inos files c"
    and ino: "distinct inos" "set inos \<inter> fst ` set (unix_rows os0) = {}"
    and news: "length news = length ps" "set news \<inter> set inos = {}"
      "\<forall>i < length ps. restarting_well (fst (envs i)) \<and> e_listen (fst (envs i)) = Inr (news ! i)"
  shows "\<exists>c'. main_run [SignalArrives SIGHUP, MainTakes envs env] c = Running c' \<and>
    at_rest os0 ps news files c'"
proof -
  let ?servers = "resourceServers (sys_rm c)"
  have R: "sys_inv c" "in_place os0 ?servers inos (sys_mach c)" "map socketPath ?servers = ps"
    "\<not> rmUseCdi (sys_rm c)" "sys_files c = files"
    "sys_sigs c = Notify (NewSignalNotifier [SIGHUP, SIGINT, SIGTERM, SIGQUIT])"
    using rest by (simp_all add: at_rest_def)
  have ps: "socketPath ` set ?servers = set ps" using R(3) by (metis set_map)
  have P: "list_all2 owns ?servers inos"
    "unix_rows (sys_mach c) = unix_rows os0 @ zip inos (map socketPath ?servers) @ []"
    "\<forall>p. p \<notin> set ps \<longrightarrow> paths (sys_mach c) p = paths os0 p" "flocks (sys_mach c) = flocks os0"
    using R(2) unfolding in_place_def ps by auto
  have dist: "distinct (map socketPath ?servers)" using R(1) by (simp add: sys_inv_def)
  have len: "length news = length ?servers" using R(3) news(1) by (metis length_map)
  have e: "\<forall>i < length ?servers. restarting_well (fst (envs (0 + i))) \<and>
      e_listen (fst (envs (0 + i))) = Inr (news ! i)"
    using news(1,3) len by simp
  have f: "set inos \<inter> fst ` set (unix_rows os0 @ []) = {}" using ino(2) by simp
  obtain servers' os' where st: "restart_loop envs 0 ?servers (sys_mach c) = (None, servers', os')"
    "list_all2 owns servers' news" "list_all2 same_server ?servers servers'"
    "unix_rows os' = unix_rows os0 @ [] @ zip news (map socketPath ?servers)"
    "\<forall>p \<in> socketPath ` set ?servers. paths os' p \<noteq> None"
    "\<forall>p. p \<notin> socketPath ` set ?servers \<longrightarrow> paths os' p = paths (sys_mach c) p"
    "flocks os' = flocks (sys_mach c)"
    using restart_loop_in_place [OF P(1,2) ino(1) f dist len e news(2)] by blast
  let ?c = "c\<lparr>sys_rm := (sys_rm c)\<lparr>resourceServers := servers'\<rparr>, sys_mach := os'\<rparr>"
  have run: "main_run [SignalArrives SIGHUP, MainTakes envs env] c = Running ?c"
    using R(4,6) st(1)
    by (cases c) (simp add: signal_arrives_def Notify_def NewSignalNotifier_def handle_signal_def
        RestartAllServers_def)
  have "sys_inv ?c"
    using main_run_good [OF R(1), of "[SignalArrives SIGHUP, MainTakes envs env]"]
    by (simp only: run good_outcome_simps)
  moreover have "map socketPath servers' = map socketPath ?servers"
    using st(3) by (intro nth_equalityI) (auto simp: list_all2_conv_all_nth same_server_def)
  moreover from this have "socketPath ` set servers' = set ps" using ps by (metis set_map)
  ultimately have "at_rest os0 ps news files ?c"
    using R st(2,4-7) P(3,4) unfolding ps by (simp add: at_rest_def in_place_def)
  then show ?thesis using run by blast
qed

text \<open>A history of the running program: quiet events and hang-up signals that are handled.  The
  kernel gives every new socket an inode that is not in use.\<close>

datatype episode = QuietEvent main_event | HangUp "nat \<Rightarrow> os_env \<times> os_env" cdi_env

fun episode_events :: "episode \<Rightarrow> main_event list" where
  "episode_events (QuietEvent e) = [e]"
| "episode_events (HangUp envs env) = [SignalArrives SIGHUP, MainTakes envs env]"

definition new_inos :: "nat \<Rightarrow> (nat \<Rightarrow> os_env \<times> os_env) \<Rightarrow> 64 word list" where
  "new_inos k envs = map (\<lambda>i. projr (e_listen (fst (envs i)))) [0 ..< k]"

fun calm :: "nat \<Rightarrow> 64 word set \<Rightarrow> episode list \<Rightarrow> bool" where
  "calm k inuse [] = True"
| "calm k inuse (QuietEvent e # es) = (quiet e \<and> calm k inuse es)"
| "calm k inuse (HangUp envs env # es) =
     ((\<forall>i < k. restarting_well (fst (envs i))) \<and> distinct (new_inos k envs) \<and>
      set (new_inos k envs) \<inter> inuse = {} \<and> calm k (inuse \<union> set (new_inos k envs)) es)"

lemma calm_run:
  "at_rest os0 ps inos files c \<Longrightarrow> distinct inos \<Longrightarrow> set inos \<inter> fst ` set (unix_rows os0) = {} \<Longrightarrow>
     fst ` set (unix_rows os0) \<union> set inos \<subseteq> inuse \<Longrightarrow> calm (length ps) inuse es \<Longrightarrow>
     \<exists>c' inos'. main_run (concat (map episode_events es)) c = Running c' \<and>
       at_rest os0 ps inos' files c' \<and> distinct inos' \<and> set inos' \<inter> fst ` set (unix_rows os0) = {}"
proof (induction es arbitrary: c inos inuse)
  case (Cons e es)
  show ?case
  proof (cases e)
    case (QuietEvent x)
    obtain c1 where "main_step x c = Running c1" "at_rest os0 ps inos files c1"
      using quiet_step [OF Cons.prems(1)] Cons.prems(5) QuietEvent by auto
    then show ?thesis using Cons.IH [of inos c1 inuse] Cons.prems QuietEvent by simp
  next
    case (HangUp envs env)
    let ?news = "new_inos (length ps) envs"
    have calm: "\<forall>i < length ps. restarting_well (fst (envs i))" "distinct ?news"
      "set ?news \<inter> inuse = {}" "calm (length ps) (inuse \<union> set ?news) es"
      using Cons.prems(5) HangUp by simp_all
    have "length ?news = length ps" by (simp add: new_inos_def)
    moreover have "set ?news \<inter> set inos = {}" using calm(3) Cons.prems(4) by blast
    moreover have "\<forall>i < length ps. restarting_well (fst (envs i)) \<and>
        e_listen (fst (envs i)) = Inr (?news ! i)"
      using calm(1) restarting_listen by (simp add: new_inos_def)
    ultimately have news: "length ?news = length ps" "set ?news \<inter> set inos = {}"
      "\<forall>i < length ps. restarting_well (fst (envs i)) \<and> e_listen (fst (envs i)) = Inr (?news ! i)"
      by auto
    obtain c1 where c1: "main_run [SignalArrives SIGHUP, MainTakes envs env] c = Running c1"
      "at_rest os0 ps ?news files c1"
      using hang_up_at_rest [OF Cons.prems(1-3) news] by blast
    have "set ?news \<inter> fst ` set (unix_rows os0) = {}"
      "fst ` set (unix_rows os0) \<union> set ?news \<subseteq> inuse \<union> set ?news"
      using calm(3) Cons.prems(4) by auto
    then show ?thesis
      using Cons.IH [OF c1(2) calm(2) _ _ calm(4)]
        main_run_append [OF c1(1), of "concat (map episode_events es)"] HangUp by simp
  qed
qed auto

section \<open>Properties\<close>


lemma sample_restarting: "restarting_well (sample_env i)"
  by (simp add: restarting_well_def is_ok_def sample_env_def)

definition sample_history :: "episode list" where
  "sample_history = [QuietEvent (PeriodicTick (Inr [sample_ghw]) (\<lambda>i. sample_host)),
     HangUp (\<lambda>n. (sample_env (50 + word_of_nat n), sample_env 0)) sample_cdi,
     QuietEvent (WatcherLooks 0 (sample_env 7) (sample_env 8))]"

lemma sample_main_paths:
  assumes "main_start sample_main default_options [] sample_os = Running c"
  shows "map socketPath (resourceServers (sys_rm c)) =
    [''/var/lib/kubelet/device-plugins/hca_a.sock'', ''/var/lib/kubelet/device-plugins/hca_b.sock'']"
proof -
  have cfg: "me_ReadFile sample_main (configFilePath default_options) = Inr []"
    "me_Unmarshal sample_main [] = Inr \<lparr>CfgPeriodicUpdateInterval = Some 60,
        ConfigList = [sample_config, device_config]\<rparr>"
    by (simp_all add: sample_main_def)
  have names: "path_Join [getDeprecatedSockDir, ''hca_a.sock''] = ''/var/lib/kubelet/device-plugins/hca_a.sock''"
    "path_Join [getDeprecatedSockDir, ''hca_b.sock''] = ''/var/lib/kubelet/device-plugins/hca_b.sock''"
    by code_simp+
  show ?thesis
    using main_start_paths [OF assms cfg] names
    by (simp add: sample_main_def detectPluginWatchMode_def sample_config_def device_config_def)
qed




end
