(* ===== verification/ThreadRuns.thy ===== *)
theory ThreadRuns
  imports Threads Shutdown
begin

text \<open>
  The sequential program is one schedule of its goroutines: every loop of the manager, every
  event of \<^verbatim>\<open>main_step\<close> and the start-up are runs of \<open>prog_step\<close> that end in the state the
  sequential definitions compute.  Then the properties of the program as goroutines.
\<close>

section \<open>Runs\<close>

lemma run_one: "prog_step t c c' \<Longrightarrow> prog_run [t] c c'"
  by (auto intro: prog_run.intros)

lemma run_then: "prog_run ts c c' \<Longrightarrow> prog_step t c' c'' \<Longrightarrow> prog_run (ts @ [t]) c c''"
  using prog_run_append run_one by blast

lemma prog_step_servers: "prog_step t c c' \<Longrightarrow> n_servers c' = n_servers c"
proof (induction rule: prog_step.induct)
  case (tick_fails c pci err rm logged)
  then show ?case using Discover_frame by (simp add: n_servers_def)
next
  case (tick c pci rm logged)
  then show ?case using Discover_frame by (simp add: n_servers_def)
qed simp_all

lemma prog_run_servers: "prog_run ts c c' \<Longrightarrow> n_servers c' = n_servers c"
  by (induction rule: prog_run.induct) (simp_all add: prog_step_servers)

text \<open>All servers and the machine at once.\<close>

definition set_servers :: "resourceServer list \<Rightarrow> osys \<Rightarrow> prog \<Rightarrow> prog" where
  "set_servers servers os c =
     c\<lparr>p_rm := (p_rm c)\<lparr>resourceServers := servers\<rparr>, p_mach := os\<rparr>"

lemma put_server_split:
  "resourceServers (p_rm c) = pre @ s # rest \<Longrightarrow> n = length pre \<Longrightarrow>
     put_server n s' os c = set_servers (pre @ s' # rest) os c \<and> n < n_servers c \<and> prog_server c n = s"
  by (simp add: put_server_def set_servers_def n_servers_def prog_server_def)

lemma set_servers_fields [simp]:
  "resourceServers (p_rm (set_servers l os c)) = l" "p_mach (set_servers l os c) = os"
  "p_main (set_servers l os c) = p_main c" "p_upd (set_servers l os c) = p_upd c"
  "p_stop (set_servers l os c) = p_stop c" "p_watch (set_servers l os c) = p_watch c"
  "p_mu (set_servers l os c) = p_mu c" "p_calls (set_servers l os c) = p_calls c"
  "p_sigs (set_servers l os c) = p_sigs c" "p_files (set_servers l os c) = p_files c"
  "p_lists (set_servers l os c) = p_lists c" "p_lw (set_servers l os c) = p_lw c"
  "n_servers (set_servers l os c) = length l" "prog_server (set_servers l os c) i = l ! i"
  "rmWatchMode (p_rm (set_servers l os c)) = rmWatchMode (p_rm c)"
  "configList (p_rm (set_servers l os c)) = configList (p_rm c)"
  "set_servers l' os' (set_servers l os c) = set_servers l' os' c"
  "set_servers l os (c\<lparr>p_main := m\<rparr>) = (set_servers l os c)\<lparr>p_main := m\<rparr>"
  "set_servers l os (c\<lparr>p_watch := wt\<rparr>) = (set_servers l os c)\<lparr>p_watch := wt\<rparr>"
  "set_servers l os (c\<lparr>p_upd := u\<rparr>) = (set_servers l os c)\<lparr>p_upd := u\<rparr>"
  by (simp_all add: set_servers_def n_servers_def prog_server_def)

lemma set_servers_same:
  "set_servers (resourceServers (p_rm c)) (p_mach c) c = c"
  by (simp add: set_servers_def)

lemma put_view_srv:
  "put_view n ((server_view n c)\<lparr>ws_srv := s, ws_mach := os\<rparr>) c = put_server n s os c"
  by (simp add: put_view_def)

section \<open>The loops of the manager\<close>

lemma restart_loop_run:
  assumes "restart_loop envs n rest os = (err, servers, os')" "p_main c = MRestart n"
    and "resourceServers (p_rm c) = pre @ rest" "n = length pre" "p_mach c = os"
    and "\<forall>i. p_stop c i = StopIdle" "\<forall>i. p_mu c i = None"
  shows "\<exists>ts. prog_run ts c ((set_servers (pre @ servers) os' c)\<lparr>p_main :=
    (case err of None \<Rightarrow> MRestart (n + length rest) | Some x \<Rightarrow> MExit (FatalRestart x))\<rparr>)"
  using assms
proof (induction rest arbitrary: n os c pre err servers os')
  case Nil
  then have "(set_servers (pre @ servers) os' c)\<lparr>p_main := MRestart n\<rparr> = c"
    by (simp add: set_servers_def)
  then show ?case using Nil run_none [of c] by (intro exI [of _ "[]"]) simp
next
  case (Cons s rest)
  obtain r s1 os1 where st: "Restart (fst (envs n)) (snd (envs n)) s os = (r, s1, os1)"
    by (cases "Restart (fst (envs n)) (snd (envs n)) s os") auto
  note P = put_server_split [OF Cons.prems(3,4), of s1 os1]
  have "ws_do (Restarts r) (server_view n c) ((server_view n c)\<lparr>ws_srv := s1, ws_mach := os1\<rparr>)"
    using st P Cons.prems(5-7) by (intro main_restart) auto
  then have one: "prog_step MainThread c ((set_servers (pre @ s1 # rest) os1 c)\<lparr>p_main :=
      (case r of None \<Rightarrow> MRestart (Suc n) | Some x \<Rightarrow> MExit (FatalRestart x))\<rparr>)"
    using restart_one [OF Cons.prems(2)] P unfolding put_view_srv [symmetric] by metis
  show ?case
  proof (cases r)
    case (Some x)
    then show ?thesis using Cons.prems(1) st run_one [OF one] by auto
  next
    case None
    obtain err2 servers2 os2 where more: "restart_loop envs (Suc n) rest os1 = (err2, servers2, os2)"
      by (cases "restart_loop envs (Suc n) rest os1") auto
    have res: "err = err2" "servers = s1 # servers2" "os' = os2"
      using Cons.prems(1) st None more by auto
    let ?c = "(set_servers (pre @ s1 # rest) os1 c)\<lparr>p_main := MRestart (Suc n)\<rparr>"
    have len: "n + length (s # rest) = Suc n + length rest" by simp
    obtain ts where R: "prog_run ts ?c ((set_servers ((pre @ [s1]) @ servers2) os2 ?c)\<lparr>p_main :=
        (case err2 of None \<Rightarrow> MRestart (Suc n + length rest) | Some x \<Rightarrow> MExit (FatalRestart x))\<rparr>)"
      using Cons.IH [OF more, of ?c "pre @ [s1]"] Cons.prems by auto
    show ?thesis unfolding len res using run_more [OF one] R None by auto
  qed
qed

lemma start_loop_run:
  assumes "start_loop envs (rmWatchMode (p_rm c)) n rest os = Returns r" "p_main c = MStart n"
    and "resourceServers (p_rm c) = pre @ rest" "n = length pre" "p_mach c = os"
    and "\<forall>i. p_mu c i = None"
  shows "\<exists>ts c'. prog_run ts c c' \<and>
    (case st_err r of
       None \<Rightarrow> c' = (set_servers (pre @ st_servers r) (st_mach r) c)
         \<lparr>p_main := MStart (n + length rest),
          p_watch := (\<lambda>i. if i \<in> set (st_watched r) then WSelect else p_watch c i)\<rparr>
     | Some x \<Rightarrow> p_main c' = MExit (FatalStart x) \<and> p_mach c' = st_mach r \<and> p_files c' = p_files c)"
  using assms
proof (induction rest arbitrary: n os c pre r)
  case Nil
  then show ?case
    using run_none [of c] set_servers_same [of c] by (auto intro!: exI [of _ "[]"] exI [of _ c])
next
  case (Cons s rest)
  note P = put_server_split [OF Cons.prems(3,4)]
  obtain r1 s1 os1 where st: "Start (fst (envs n)) (snd (envs n)) s os = Returns (r1, s1, os1)"
    using Cons.prems(1) by (auto split: outcome.splits)
  have here: "Start (fst (envs n)) (snd (envs n)) (prog_server c n) (p_mach c) = Returns (r1, s1, os1)"
    using st P Cons.prems(5) by simp
  have mu: "p_mu c n = None" using Cons.prems(6) by simp
  have n: "n < n_servers c" using P by blast
  show ?case
  proof (cases r1)
    case (Some x)
    have "prog_step MainThread c ((put_server n s1 os1 c)\<lparr>p_main := MExit (FatalStart x)\<rparr>)"
      using start_fails [OF Cons.prems(2) n mu] here Some by simp
    from run_one [OF this] show ?thesis
      using Cons.prems(1) st Some by fastforce
  next
    case None
    let ?w = "if rmWatchMode (p_rm c) then p_watch c else (p_watch c)(n := WSelect)"
    let ?c = "(set_servers (pre @ s1 # rest) os1 c)\<lparr>p_main := MStart (Suc n), p_watch := ?w\<rparr>"
    have one: "prog_step MainThread c ?c"
      using start_one [OF Cons.prems(2) n mu] here None P by simp
    obtain q where q: "start_loop envs (rmWatchMode (p_rm c)) (Suc n) rest os1 = Returns q"
      "r = q\<lparr>st_servers := s1 # st_servers q,
             st_watched := (if \<not> rmWatchMode (p_rm c) then n # st_watched q else st_watched q)\<rparr>"
      using Cons.prems(1) st None by (auto split: outcome.splits)
    obtain ts c' where R: "prog_run ts ?c c'"
      "case st_err q of
         None \<Rightarrow> c' = (set_servers ((pre @ [s1]) @ st_servers q) (st_mach q) ?c)
           \<lparr>p_main := MStart (Suc n + length rest),
            p_watch := (\<lambda>i. if i \<in> set (st_watched q) then WSelect else p_watch ?c i)\<rparr>
       | Some x \<Rightarrow> p_main c' = MExit (FatalStart x) \<and> p_mach c' = st_mach q \<and> p_files c' = p_files ?c"
      using Cons.IH [of ?c "Suc n" os1 q "pre @ [s1]"] Cons.prems q(1) by auto
    have "(\<lambda>i. if i \<in> set (st_watched q) then WSelect else p_watch ?c i) =
        (\<lambda>i. if i \<in> set (st_watched r) then WSelect else p_watch c i)"
      using q(2) by auto
    then have "case st_err r of
       None \<Rightarrow> c' = (set_servers (pre @ st_servers r) (st_mach r) c)
         \<lparr>p_main := MStart (n + length (s # rest)),
          p_watch := (\<lambda>i. if i \<in> set (st_watched r) then WSelect else p_watch c i)\<rparr>
     | Some x \<Rightarrow> p_main c' = MExit (FatalStart x) \<and> p_mach c' = st_mach r \<and> p_files c' = p_files c"
      using R(2) q(2) by (cases "st_err q") simp_all
    then show ?thesis using run_more [OF one R(1)] by blast
  qed
qed


lemma start_loop_length:
  "start_loop envs wm n servers os = Returns r \<Longrightarrow> length (st_servers r) = length servers"
  by (induction servers arbitrary: n os r) (auto split: outcome.splits option.splits)

text \<open>One server is stopped: the whole of \<^verbatim>\<open>Stop\<close>, and the watcher's receive where there is
  one.\<close>

lemma stop_do: "p_main c = MStop n \<Longrightarrow> n < n_servers c \<Longrightarrow> ws_do Stops (server_view n c) w \<Longrightarrow>
    prog_run ts (put_view n w c) c' \<Longrightarrow> prog_run (MainThread # ts) c c'"
  using run_more stop_one by blast

definition at_server :: "nat \<Rightarrow> prog \<Rightarrow> resourceServer \<Rightarrow> osys \<Rightarrow> stop_pc \<Rightarrow> watch_pc \<Rightarrow> goroutine option \<Rightarrow> prog" where
  "at_server n c s os sp wp mu =
     put_view n \<lparr>ws_srv = s, ws_mach = os, ws_stop = sp, ws_watch = wp, lifecycleMu = mu\<rparr> c"

lemma at_server_simps [simp]:
  "p_main (at_server n c s os sp wp mu) = p_main c" "p_mach (at_server n c s os sp wp mu) = os"
  "n_servers (at_server n c s os sp wp mu) = n_servers c"
  "p_stop (at_server n c s os sp wp mu) n = sp"
  by (simp_all add: at_server_def)

lemma view_at_server:
  "n < n_servers c \<Longrightarrow> server_view n (at_server n c s os sp wp mu) =
     \<lparr>ws_srv = s, ws_mach = os, ws_stop = sp, ws_watch = wp, lifecycleMu = mu\<rparr>"
  by (simp add: at_server_def view_put_view)

lemma put_at_server:
  "put_view n w (at_server n c s os sp wp mu) =
     at_server n c (ws_srv w) (ws_mach w) (ws_stop w) (ws_watch w) (lifecycleMu w)"
  by (simp add: at_server_def put_view_def put_server_def)

lemma at_server_self:
  "n < n_servers c \<Longrightarrow>
     at_server n c (prog_server c n) (p_mach c) (p_stop c n) (p_watch c n) (p_mu c n) = c"
  by (simp add: at_server_def put_view_def put_server_def prog_server_def)

lemma stop_at:
  assumes "p_main c = MStop n" "n < n_servers c"
    and "ws_do Stops \<lparr>ws_srv = s, ws_mach = os, ws_stop = sp, ws_watch = wp, lifecycleMu = mu\<rparr>
      \<lparr>ws_srv = s', ws_mach = os', ws_stop = sp', ws_watch = wp', lifecycleMu = mu'\<rparr>"
  shows "prog_step MainThread (at_server n c s os sp wp mu) (at_server n c s' os' sp' wp' mu')"
proof -
  have "prog_step MainThread (at_server n c s os sp wp mu)
      (put_view n \<lparr>ws_srv = s', ws_mach = os', ws_stop = sp', ws_watch = wp', lifecycleMu = mu'\<rparr>
        (at_server n c s os sp wp mu))"
    using assms by (intro stop_one) (simp_all add: view_at_server)
  then show ?thesis by (simp add: put_at_server)
qed

text \<open>The rules of \<^verbatim>\<open>Stop\<close>, field by field.\<close>

abbreviation ws_at :: "resourceServer \<Rightarrow> osys \<Rightarrow> stop_pc \<Rightarrow> watch_pc \<Rightarrow> goroutine option \<Rightarrow> ws" where
  "ws_at s os sp wp mu \<equiv>
     \<lparr>ws_srv = s, ws_mach = os, ws_stop = sp, ws_watch = wp, lifecycleMu = mu\<rparr>"

lemma stop_fields:
  "ws_do Stops (ws_at s os StopIdle wp mu) (ws_at s os StopLock1 wp mu)"
  "ws_do Stops (ws_at s os StopLock1 wp None) (ws_at s os StopCheck wp (Some StopRoutine))"
  "\<not> running s \<Longrightarrow> ws_do Stops (ws_at s os StopCheck wp mu) (ws_at s os (StopDone None) wp None)"
  "running s \<Longrightarrow> \<not> watchMode s \<Longrightarrow>
     ws_do Stops (ws_at s os StopCheck wp mu) (ws_at s os StopReady wp None)"
  "running s \<Longrightarrow> watchMode s \<Longrightarrow>
     ws_do Stops (ws_at s os StopCheck wp mu) (ws_at s os StopLock2 wp None)"
  "ws_do Stops (ws_at s os StopReady wp mu) (ws_at s os StopSend wp mu)"
  "ws_do Stops (ws_at s os StopSend WSelect mu) (ws_at s os StopLock2 WDone mu)"
  "ws_do Stops (ws_at s os StopLock2 wp None) (ws_at s os StopRun wp (Some StopRoutine))"
  "stopLocked e s os = (r, s', os') \<Longrightarrow>
     ws_do Stops (ws_at s os StopRun wp mu) (ws_at s' os' (StopDone r) wp None)"
  using stop_call [of "ws_at s os StopIdle wp mu"] stop_lock1 [of "ws_at s os StopLock1 wp None"]
    stop_check [of "ws_at s os StopCheck wp mu"] stop_wait [of "ws_at s os StopReady wp mu"]
    rendezvous [of "ws_at s os StopSend WSelect mu"] stop_lock2 [of "ws_at s os StopLock2 wp None"]
    stop_run [of "ws_at s os StopRun wp mu" e r s' os']
  by simp_all

lemma stop_server_run:
  assumes st: "Stop watcher e (prog_server c n) (p_mach c) = Some (r, s', os')"
    and pc: "p_main c = MStop n" "n < n_servers c" "p_stop c n = StopIdle" "p_mu c n = None"
    and w: "watcher \<Longrightarrow> p_watch c n = WSelect"
  shows "\<exists>ts wp. prog_run ts c (at_server n c s' os' (StopDone r) wp None)"
proof -
  let ?s = "prog_server c n" and ?os = "p_mach c" and ?w = "p_watch c n"
  note at = stop_at [OF pc(1,2)] and F = stop_fields
  have self: "at_server n c ?s ?os StopIdle ?w None = c"
    using at_server_self [OF pc(2)] pc(3,4) by simp
  have "prog_run [MainThread, MainThread] (at_server n c ?s ?os StopIdle ?w None)
      (at_server n c ?s ?os StopCheck ?w (Some StopRoutine))"
    by (rule run_more [OF at [OF F(1)] run_one [OF at [OF F(2)]]])
  then have called: "prog_run [MainThread, MainThread] c (at_server n c ?s ?os StopCheck ?w (Some StopRoutine))"
    unfolding self .
  have ended: "prog_run [MainThread, MainThread] (at_server n c ?s ?os StopLock2 wp None)
      (at_server n c s' os' (StopDone r) wp None)" if "running ?s" for wp
  proof -
    have "stopLocked e ?s ?os = (r, s', os')"
      using st that by (auto simp: Stop_def running_def Let_def split: if_splits)
    from run_more [OF at [OF F(8)] run_one [OF at [OF F(9) [OF this]]]] show ?thesis .
  qed
  consider "\<not> running ?s" | "running ?s" "watchMode ?s" | "running ?s" "\<not> watchMode ?s" by blast
  then show ?thesis
  proof cases
    case 1
    then have "r = None" "s' = ?s" "os' = ?os"
      using st by (auto simp: Stop_def running_def Let_def split: if_splits)
    then show ?thesis using run_then [OF called at [OF F(3) [OF 1]]] by blast
  next
    case 2
    from prog_run_append [OF run_then [OF called at [OF F(5) [OF 2]]] ended [OF 2(1)]]
    show ?thesis by blast
  next
    case 3
    then have sel: "?w = WSelect"
      using st w by (auto simp: Stop_def running_def Let_def split: if_splits)
    have "prog_run [MainThread, MainThread] (at_server n c ?s ?os StopReady ?w None)
        (at_server n c ?s ?os StopLock2 WDone None)"
      using run_more [OF at [OF F(6)] run_one [OF at [OF F(7)]]] unfolding sel .
    from prog_run_append [OF run_then [OF called at [OF F(4) [OF 3]]]
        prog_run_append [OF this ended [OF 3(1)]]]
    show ?thesis by blast
  qed
qed

lemma stop_loop_run:
  assumes "stop_loop envs watched n rest os = Some (err, servers, os')" "p_main c = MStop n"
    and "resourceServers (p_rm c) = pre @ rest" "n = length pre" "p_mach c = os"
    and "\<forall>i \<ge> n. p_stop c i = StopIdle" "\<forall>i. p_mu c i = None"
    and "\<forall>i \<in> set watched. n \<le> i \<longrightarrow> p_watch c i = WSelect"
  shows "\<exists>ts c'. prog_run ts c c' \<and>
    p_main c' = (case err of None \<Rightarrow> MStop (n + length rest) | Some x \<Rightarrow> MExit (ShutDown (Some x))) \<and>
    p_rm c' = (p_rm c)\<lparr>resourceServers := pre @ servers\<rparr> \<and> p_mach c' = os' \<and>
    p_files c' = p_files c \<and> p_calls c' = p_calls c"
  using assms
proof (induction rest arbitrary: n os c pre err servers os')
  case Nil
  then show ?case using run_none [of c] by (auto intro!: exI [of _ "[]"] exI [of _ c])
next
  case (Cons s rest)
  have P: "n < n_servers c" "prog_server c n = s"
    using put_server_split [OF Cons.prems(3,4)] by blast+
  obtain r s1 os1 where st: "Stop (n \<in> set watched) (envs n) s os = Some (r, s1, os1)"
    using Cons.prems(1) by (auto split: option.splits prod.splits)
  obtain ts wp where one: "prog_run ts c (at_server n c s1 os1 (StopDone r) wp None)"
    using stop_server_run [of "n \<in> set watched" "envs n" c n r s1 os1] st P Cons.prems(2,5-8) by auto
  let ?d = "at_server n c s1 os1 (StopDone r) wp None"
  let ?c = "?d\<lparr>p_main := (case r of None \<Rightarrow> MStop (Suc n) | Some x \<Rightarrow> MExit (ShutDown (Some x)))\<rparr>"
  have "prog_step MainThread ?d ?c"
    using stop_next [of ?d n r] P(1) Cons.prems(2) by simp
  note run = run_then [OF one this]
  have rm: "p_rm ?c = (p_rm c)\<lparr>resourceServers := pre @ s1 # rest\<rparr>"
    using Cons.prems(3,4) by (simp add: at_server_def put_view_def put_server_def)
  have fr: "p_mach ?c = os1" "p_files ?c = p_files c" "p_calls ?c = p_calls c"
    "\<forall>i. p_mu ?c i = None" "\<forall>i \<ge> Suc n. p_stop ?c i = StopIdle"
    "\<forall>i \<ge> Suc n. p_watch ?c i = p_watch c i"
    using Cons.prems(6,7) by (simp_all add: at_server_def put_view_def put_server_def)
  show ?case
  proof (cases r)
    case (Some x)
    then have "err = Some x" "servers = s1 # rest" "os' = os1" using Cons.prems(1) st by auto
    then show ?thesis using run rm fr(1-3) Some by fastforce
  next
    case None
    obtain err2 servers2 os2 where
      more: "stop_loop envs watched (Suc n) rest os1 = Some (err2, servers2, os2)"
      and res: "err = err2" "servers = s1 # servers2" "os' = os2"
      using Cons.prems(1) st None by (auto split: option.splits)
    have "\<forall>i \<in> set watched. Suc n \<le> i \<longrightarrow> p_watch ?c i = WSelect"
      using Cons.prems(8) fr(6) by auto
    then obtain us c' where R: "prog_run us ?c c'"
      "p_main c' = (case err2 of None \<Rightarrow> MStop (Suc n + length rest) | Some x \<Rightarrow> MExit (ShutDown (Some x)))"
      "p_rm c' = (p_rm ?c)\<lparr>resourceServers := (pre @ [s1]) @ servers2\<rparr>" "p_mach c' = os2"
      "p_files c' = p_files ?c" "p_calls c' = p_calls ?c"
      using Cons.IH [OF more, of ?c "pre @ [s1]"] None rm fr(1,4,5) Cons.prems(4) by auto
    have len: "n + length (s # rest) = Suc n + length rest" by simp
    have "p_rm c' = (p_rm c)\<lparr>resourceServers := pre @ servers\<rparr>" using R(3) rm res by simp
    moreover have "p_files c' = p_files c" "p_calls c' = p_calls c" using R(5,6) fr(2,3) by simp_all
    ultimately show ?thesis
      using prog_run_append [OF run R(1)] R(2,4) unfolding len res by blast
  qed
qed


lemma stop_loop_length:
  "stop_loop envs watched n servers os = Some (err, servers', os') \<Longrightarrow> length servers' = length servers"
  by (induction servers arbitrary: n os err servers' os')
     (auto split: option.splits prod.splits)

text \<open>One server is updated: the locked part, and the announcement where there is one.\<close>

lemma update_one_run:
  assumes al: "prog_alive c" and u: "p_upd c = UAt n" and n: "n < n_servers c"
    and conf: "n < length (configList (p_rm c))"
  defines "ds h \<equiv> GetFilteredDevices (GetDevices h (p_rm c)) (ConfSelectors (configList (p_rm c) ! n))"
  shows "\<exists>ts. prog_run ts c ((put_server n (UpdateDevices (ds h) (prog_server c n)) (p_mach c) c)
    \<lparr>p_upd := UAt (Suc n)\<rparr>)"
proof -
  obtain need s where st: "update_locked (ds h) (prog_server c n) = (need, s)" by force
  let ?c1 = "(put_server n s (p_mach c) c)\<lparr>p_upd := (if need then UNotify n else UAt (Suc n))\<rparr>"
  have one: "prog_step UpdateThread c ?c1"
    using update_one [OF al u n conf meta_eq_to_obj_eq [OF ds_def] st] .
  show ?thesis
  proof (cases need)
    case False
    then show ?thesis using run_one [OF one] st by (auto simp: UpdateDevices_def)
  next
    case True
    have "prog_step UpdateThread ?c1
        ((put_server n (notifyUpdate (prog_server ?c1 n)) (p_mach ?c1) ?c1)\<lparr>p_upd := UAt (Suc n)\<rparr>)"
      by (rule announce) (use al True in \<open>simp_all add: prog_alive_def\<close>)
    moreover have "(put_server n (notifyUpdate (prog_server ?c1 n)) (p_mach ?c1) ?c1)\<lparr>p_upd := UAt (Suc n)\<rparr> =
        (put_server n (UpdateDevices (ds h) (prog_server c n)) (p_mach c) c)\<lparr>p_upd := UAt (Suc n)\<rparr>"
      using st True n by (simp add: UpdateDevices_def put_server_def n_servers_def prog_server_def)
    ultimately show ?thesis using run_more [OF one run_one] by metis
  qed
qed

lemma update_loop_run:
  assumes "update_loop hs rm n rest = Returns servers" "p_upd c = UAt n" "prog_alive c"
    and "p_rm c = rm\<lparr>resourceServers := pre @ rest\<rparr>" "n = length pre"
  shows "\<exists>ts. prog_run ts c
    ((set_servers (pre @ servers) (p_mach c) c)\<lparr>p_upd := UAt (n + length rest)\<rparr>)"
  using assms
proof (induction rest arbitrary: n c pre servers)
  case Nil
  then have "(set_servers (pre @ servers) (p_mach c) c)\<lparr>p_upd := UAt (n + length [])\<rparr> = c"
    by (simp add: set_servers_def)
  then show ?case using run_none [of c] by metis
next
  case (Cons s rest)
  let ?ds = "GetFilteredDevices (GetDevices (hs n) (p_rm c)) (ConfSelectors (configList (p_rm c) ! n))"
  let ?s = "UpdateDevices ?ds s"
  have rs: "resourceServers (p_rm c) = pre @ s # rest" using Cons.prems(4) by simp
  note P = put_server_split [OF rs Cons.prems(5), of ?s "p_mach c"]
  have conf: "n < length (configList (p_rm c))" and dev: "GetDevices (hs n) (p_rm c) = GetDevices (hs n) rm"
    using Cons.prems(1,4) by (auto simp: GetDevices_def Let_def split: if_splits)
  obtain servers2 where more: "update_loop hs rm (Suc n) rest = Returns servers2" "servers = ?s # servers2"
    using Cons.prems(1,4) conf dev by (auto simp: Let_def split: outcome.splits)
  let ?c = "(set_servers (pre @ ?s # rest) (p_mach c) c)\<lparr>p_upd := UAt (Suc n)\<rparr>"
  obtain us where one: "prog_run us c ?c"
    using update_one_run [OF Cons.prems(3,2) _ conf, of "hs n"] P by auto
  have len: "n + length (s # rest) = Suc n + length rest" by simp
  have "prog_alive ?c" using Cons.prems(3) by (simp add: prog_alive_def)
  moreover have "p_rm ?c = rm\<lparr>resourceServers := (pre @ [?s]) @ rest\<rparr>"
    using Cons.prems(4) by (simp add: set_servers_def)
  ultimately obtain ts where "prog_run ts ?c
      ((set_servers ((pre @ [?s]) @ servers2) (p_mach ?c) ?c)\<lparr>p_upd := UAt (Suc n + length rest)\<rparr>)"
    using Cons.IH [OF more(1), of ?c "pre @ [?s]"] Cons.prems(5) by auto
  then show ?case unfolding len more(2) using prog_run_append [OF one] by auto
qed

section \<open>The sequential program\<close>

text \<open>The state between two events: main waits for a signal, the watchers and the periodic
  update are at their \<^verbatim>\<open>select\<close>; \<open>cs\<close> are the registration reports in flight.\<close>

definition prog_of :: "(nat \<times> bool) list \<Rightarrow> sys \<Rightarrow> prog" where
  "prog_of cs c =
     \<lparr>p_rm = sys_rm c, p_files = sys_files c, p_mach = sys_mach c, p_sigs = Some (sys_sigs c),
      p_main = MWait,
      p_upd = (if sint (PeriodicUpdateInterval (sys_rm c)) > 0 then UWait else UOff),
      p_stop = (\<lambda>i. StopIdle), p_watch = (\<lambda>i. if i \<in> set (sys_watched c) then WSelect else WDone),
      p_mu = (\<lambda>i. None), p_calls = cs, p_lists = [], p_lw = (\<lambda>i. no_streams)\<rparr>"

lemma prog_of_simps [simp]:
  "p_rm (prog_of cs c) = sys_rm c" "p_files (prog_of cs c) = sys_files c"
  "p_mach (prog_of cs c) = sys_mach c" "p_sigs (prog_of cs c) = Some (sys_sigs c)"
  "p_main (prog_of cs c) = MWait" "p_calls (prog_of cs c) = cs"
  "p_lists (prog_of cs c) = []" "p_lw (prog_of cs c) i = no_streams"
  "p_stop (prog_of cs c) i = StopIdle" "p_mu (prog_of cs c) i = None"
  "p_watch (prog_of cs c) i = (if i \<in> set (sys_watched c) then WSelect else WDone)"
  "p_upd (prog_of cs c) = (if sint (PeriodicUpdateInterval (sys_rm c)) > 0 then UWait else UOff)"
  "prog_alive (prog_of cs c)" "n_servers (prog_of cs c) = length (resourceServers (sys_rm c))"
  "prog_server (prog_of cs c) i = resourceServers (sys_rm c) ! i"
  by (simp_all add: prog_of_def prog_alive_def n_servers_def prog_server_def)

lemma prog_of_eqI:
  assumes "p_rm d = sys_rm c" "p_files d = sys_files c" "p_mach d = sys_mach c"
    "p_sigs d = Some (sys_sigs c)" "p_main d = MWait" "p_calls d = cs"
    "\<And>i. p_stop d i = StopIdle" "\<And>i. p_mu d i = None"
    "\<And>i. p_watch d i = (if i \<in> set (sys_watched c) then WSelect else WDone)"
    "p_upd d = (if sint (PeriodicUpdateInterval (sys_rm c)) > 0 then UWait else UOff)"
    "p_lists d = []" "\<And>i. p_lw d i = no_streams"
  shows "d = prog_of cs c"
  using assms by (intro prog.equality) (auto simp: prog_of_def)

text \<open>What a sequential outcome is as a state of the goroutines.\<close>

definition reaches :: "(nat \<times> bool) list \<Rightarrow> prog \<Rightarrow> main_outcome \<Rightarrow> bool" where
  "reaches cs d r \<longleftrightarrow>
     (case r of
        Running c \<Rightarrow> \<exists>ts. prog_run ts d (prog_of cs c)
      | Finished x files os \<Rightarrow>
          \<exists>ts d'. prog_run ts d d' \<and> p_main d' = MExit x \<and> p_files d' = files \<and> p_mach d' = os
      | _ \<Rightarrow> False)"

lemma reaches_running: "prog_run ts d (prog_of cs c) \<Longrightarrow> reaches cs d (Running c)"
  by (auto simp: reaches_def)

lemma reaches_finished:
  "prog_run ts d d' \<Longrightarrow> p_main d' = MExit x \<Longrightarrow> p_files d' = files \<Longrightarrow> p_mach d' = os \<Longrightarrow>
     reaches cs d (Finished x files os)"
  by (auto simp: reaches_def)

lemma reaches_after: "prog_run ts d d' \<Longrightarrow> reaches cs d' r \<Longrightarrow> reaches cs d r"
  unfolding reaches_def by (auto split: main_outcome.splits dest: prog_run_append)

lemma cdi_cleanup_prog_of:
  "cdi_cleanup env (prog_of cs c) = (if rmUseCdi (sys_rm c)
     then CleanupSpecs env cdiResourcePrefix cdiResourceKind (sys_files c) else (None, sys_files c))"
  by (cases "rmUseCdi (sys_rm c)") (simp_all add: cdi_cleanup_def)

lemma hangup_run:
  assumes "buffered (sys_sigs c) = SIGHUP # rest"
  shows "reaches cs (prog_of cs c)
    (handle_signal envs env SIGHUP (c\<lparr>sys_sigs := (sys_sigs c)\<lparr>buffered := rest\<rparr>\<rparr>))"
proof -
  let ?d = "prog_of cs c" and ?ch = "(sys_sigs c)\<lparr>buffered := rest\<rparr>"
  obtain err files where cl: "cdi_cleanup env ?d = (err, files)" by force
  note cl' = cl [unfolded cdi_cleanup_prog_of]
  have taken: "prog_run [MainThread] ?d (?d\<lparr>p_sigs := Some ?ch, p_files := files,
      p_main := (case err of None \<Rightarrow> MRestart 0 | Some x \<Rightarrow> MExit (FatalRestart x))\<rparr>)"
    using take_hangup [of ?d "sys_sigs c" rest env err files] assms cl run_one by simp
  show ?thesis
  proof (cases err)
    case (Some x)
    then show ?thesis
      using cl' reaches_finished [OF taken] by (simp add: handle_signal_def RestartAllServers_def)
  next
    case None
    let ?c = "?d\<lparr>p_sigs := Some ?ch, p_files := files, p_main := MRestart 0\<rparr>"
    obtain err2 servers os2 where rl:
      "restart_loop envs 0 (resourceServers (sys_rm c)) (sys_mach c) = (err2, servers, os2)"
      by (cases "restart_loop envs 0 (resourceServers (sys_rm c)) (sys_mach c)") auto
    have len: "length servers = length (resourceServers (sys_rm c))"
      using list_all2_lengthD [OF restart_loop_sound [OF rl]] by simp
    obtain ts where R: "prog_run ts ?c ((set_servers servers os2 ?c)\<lparr>p_main :=
        (case err2 of None \<Rightarrow> MRestart (length (resourceServers (sys_rm c)))
         | Some x \<Rightarrow> MExit (FatalRestart x))\<rparr>)"
      using restart_loop_run [OF rl, of ?c "[]", unfolded add_0] by auto
    note run = prog_run_append [OF taken [unfolded None, simplified] R]
    show ?thesis
    proof (cases err2)
      case (Some x)
      then show ?thesis
        using rl cl' None reaches_finished [OF run]
        by (simp add: handle_signal_def RestartAllServers_def)
    next
      case ok: None
      let ?e = "(set_servers servers os2 ?c)\<lparr>p_main := MRestart (length (resourceServers (sys_rm c)))\<rparr>"
      let ?c2 = "c\<lparr>sys_sigs := ?ch, sys_rm := (sys_rm c)\<lparr>resourceServers := servers\<rparr>,
        sys_files := files, sys_mach := os2\<rparr>"
      have "?e\<lparr>p_main := MWait\<rparr> = prog_of cs ?c2"
        by (simp add: prog_of_def set_servers_def)
      moreover have "prog_step MainThread ?e (?e\<lparr>p_main := MWait\<rparr>)"
        by (rule restarted) (use len in auto)
      ultimately have last: "prog_step MainThread ?e (prog_of cs ?c2)" by metis
      have "prog_run ([MainThread] @ ts) ?d ?e" using run ok by simp
      note there = run_then [OF this last]
      show ?thesis
        using reaches_running [OF there] rl cl' None ok
        by (simp add: handle_signal_def RestartAllServers_def)
    qed
  qed
qed

lemma end_run:
  assumes sig: "buffered (sys_sigs c) = sig # rest" "sig \<noteq> SIGHUP" and inv: "sys_inv c"
  shows "reaches cs (prog_of cs c)
    (handle_signal envs env sig (c\<lparr>sys_sigs := (sys_sigs c)\<lparr>buffered := rest\<rparr>\<rparr>))"
proof -
  let ?d = "prog_of cs c" and ?ch = "(sys_sigs c)\<lparr>buffered := rest\<rparr>"
  let ?d1 = "?d\<lparr>p_sigs := Some ?ch, p_main := MTicker\<rparr>"
  obtain err files where cl: "cdi_cleanup env ?d = (err, files)" by force
  note cl' = cl [unfolded cdi_cleanup_prog_of]
  have h: "handle_signal envs env sig (c\<lparr>sys_sigs := ?ch\<rparr>) =
      (case StopAllServers (\<lambda>n. fst (envs n)) env (sys_watched c) (sys_rm c) (sys_files c) (sys_mach c) of
         None \<Rightarrow> Blocked
       | Some (err, rm1, files1, os1) \<Rightarrow> Finished (ShutDown err) files1 os1)"
    using sig(2)
    by (cases sig) (auto simp: handle_signal_def PeriodicUpdate_def stopPeriodicUpdate_def)
  have "prog_step MainThread ?d ?d1" using take_end [of ?d "sys_sigs c" sig rest] sig by simp
  moreover have "cdi_cleanup env ?d1 = (err, files)" using cl by (cases "rmUseCdi (sys_rm c)") (simp_all add: cdi_cleanup_def)
  then have "prog_step MainThread ?d1 (?d1\<lparr>p_upd := UOff, p_files := files,
      p_main := (case err of None \<Rightarrow> MStop 0 | Some x \<Rightarrow> MExit (ShutDown (Some x)))\<rparr>)"
    by (intro end_updates) simp_all
  ultimately have taken: "prog_run [MainThread, MainThread] ?d (?d1\<lparr>p_upd := UOff, p_files := files,
      p_main := (case err of None \<Rightarrow> MStop 0 | Some x \<Rightarrow> MExit (ShutDown (Some x)))\<rparr>)"
    using run_more run_one by blast
  show ?thesis
  proof (cases err)
    case (Some x)
    then show ?thesis
      using cl' reaches_finished [OF taken] unfolding h by (simp add: StopAllServers_def)
  next
    case None
    let ?c = "?d\<lparr>p_sigs := Some ?ch, p_upd := UOff, p_files := files, p_main := MStop 0\<rparr>"
    obtain q where "StopAllServers (\<lambda>n. fst (envs n)) env (sys_watched c) (sys_rm c) (sys_files c)
        (sys_mach c) = Some q"
      using stop_all_returns [OF inv] by blast
    then obtain err2 servers os2 where sl: "stop_loop (\<lambda>n. fst (envs n)) (sys_watched c) 0
        (resourceServers (sys_rm c)) (sys_mach c) = Some (err2, servers, os2)"
      using cl' None by (cases "stop_loop (\<lambda>n. fst (envs n)) (sys_watched c) 0
        (resourceServers (sys_rm c)) (sys_mach c)") (auto simp: StopAllServers_def)
    obtain ts d' where R: "prog_run ts ?c d'"
      "p_main d' = (case err2 of None \<Rightarrow> MStop (length (resourceServers (sys_rm c)))
         | Some x \<Rightarrow> MExit (ShutDown (Some x)))"
      "p_rm d' = (sys_rm c)\<lparr>resourceServers := servers\<rparr>" "p_mach d' = os2" "p_files d' = files"
      using stop_loop_run [OF sl, of ?c "[]", unfolded add_0] by auto
    note run = prog_run_append [OF taken [unfolded None, simplified] R(1)]
    have h': "handle_signal envs env sig (c\<lparr>sys_sigs := ?ch\<rparr>) = Finished (ShutDown err2) files os2"
      using sl cl' None unfolding h by (auto simp: StopAllServers_def)
    show ?thesis
    proof (cases err2)
      case (Some x)
      then show ?thesis unfolding h' using R(2,4,5) by (intro reaches_finished [OF run]) simp_all
    next
      case ok: None
      have nd: "n_servers d' = length (resourceServers (sys_rm c))"
        using R(3) stop_loop_length [OF sl] by (simp add: n_servers_def)
      have last: "prog_step MainThread d' (d'\<lparr>p_main := MExit (ShutDown None)\<rparr>)"
        by (rule stopped) (use R(2) ok nd in auto)
      show ?thesis
        unfolding h' using R(4,5) ok by (intro reaches_finished [OF run_then [OF run last]]) simp_all
    qed
  qed
qed

lemma tick_run:
  assumes inv: "sys_inv c"
  shows "reaches cs (prog_of cs c) (main_step (PeriodicTick pci hs) c)"
proof (cases "sint (PeriodicUpdateInterval (sys_rm c)) > 0")
  case False
  then have "main_step (PeriodicTick pci hs) c = Running c" by (simp add: PeriodicUpdate_def)
  then show ?thesis using reaches_running [OF run_none] by simp
next
  case on: True
  let ?d = "prog_of cs c"
  have len: "length (resourceServers (sys_rm c)) \<le> length (configList (sys_rm c))"
    using inv by (simp add: sys_inv_def)
  show ?thesis
  proof (cases pci)
    case (Inl e)
    then have "main_step (PeriodicTick pci hs) c = Running (c\<lparr>sys_rm := sys_rm c\<rparr>)"
      using on by (simp add: PeriodicUpdate_def periodic_tick_def DiscoverHostDevices_def)
    then show ?thesis using reaches_running [OF run_none] by simp
  next
    case (Inr ds)
    let ?rm = "(sys_rm c)\<lparr>deviceList := fst (discover_loop ds)\<rparr>"
    let ?d1 = "?d\<lparr>p_rm := ?rm, p_upd := UAt 0\<rparr>"
    have disc: "DiscoverHostDevices pci (sys_rm c) = (None, ?rm, snd (discover_loop ds))"
      using Inr by (simp add: DiscoverHostDevices_def split_beta)
    have one: "prog_step UpdateThread ?d ?d1"
      using tick [of ?d pci ?rm "snd (discover_loop ds)"] disc on by simp
    obtain rm' where t: "periodic_tick pci hs (sys_rm c) = Returns rm'"
      using periodic_tick_sound [OF len] by blast
    then obtain servers where u: "update_loop hs ?rm 0 (resourceServers (sys_rm c)) = Returns servers"
      and rm': "rm' = ?rm\<lparr>resourceServers := servers\<rparr>"
      using disc by (auto simp: periodic_tick_def split: outcome.splits)
    obtain ts where R: "prog_run ts ?d1 ((set_servers servers (sys_mach c) ?d1)
        \<lparr>p_upd := UAt (length (resourceServers (sys_rm c)))\<rparr>)"
      using update_loop_run [OF u, of ?d1 "[]", unfolded add_0] by (auto simp: prog_alive_def)
    let ?d2 = "(set_servers servers (sys_mach c) ?d1)\<lparr>p_upd := UAt (length (resourceServers (sys_rm c)))\<rparr>"
    have ls: "length servers = length (resourceServers (sys_rm c))"
      using update_loop_Returns [of 0 "resourceServers (sys_rm c)" ?rm hs] u len by auto
    have "prog_step UpdateThread ?d2 (?d2\<lparr>p_upd := UWait\<rparr>)"
      by (rule updated) (use ls in \<open>auto simp: prog_alive_def\<close>)
    moreover have "?d2\<lparr>p_upd := UWait\<rparr> = prog_of cs (c\<lparr>sys_rm := rm'\<rparr>)"
      using on by (simp add: prog_of_def set_servers_def rm')
    ultimately have last: "prog_step UpdateThread ?d2 (prog_of cs (c\<lparr>sys_rm := rm'\<rparr>))" by metis
    have "main_step (PeriodicTick pci hs) c = Running (c\<lparr>sys_rm := rm'\<rparr>)"
      using on t by (simp add: PeriodicUpdate_def)
    then show ?thesis
      using reaches_running [OF run_then [OF run_more [OF one R] last]] by simp
  qed
qed

text \<open>The rules of the watcher, field by field.\<close>

lemma watch_fields:
  "sp \<noteq> StopSend \<Longrightarrow> os_Lstat_path e (socketPath s) os = LstatOk \<Longrightarrow>
     ws_do Watches (ws_at s os sp WSelect mu) (ws_at s os sp WSleep mu)"
  "sp \<noteq> StopSend \<Longrightarrow> os_Lstat_path e (socketPath s) os \<noteq> LstatOk \<Longrightarrow>
     ws_do Watches (ws_at s os sp WSelect mu) (ws_at s os sp WLock mu)"
  "ws_do Watches (ws_at s os sp WLock None) (ws_at s os sp WRun (Some WatchRoutine))"
  "Restart e e2 s os = (r, s', os') \<Longrightarrow>
     ws_do Watches (ws_at s os sp WRun mu) (ws_at s' os' sp WSleep None)"
  "ws_do Watches (ws_at s os sp WSleep mu) (ws_at s os sp WSelect mu)"
  using watch_present [of "ws_at s os sp WSelect mu" e] watch_missing [of "ws_at s os sp WSelect mu" e]
    watch_lock [of "ws_at s os sp WLock None"] watch_run [of "ws_at s os sp WRun mu" e e2 r s' os']
    watch_wake [of "ws_at s os sp WSleep mu"]
  by simp_all

lemma watch_at:
  assumes "prog_alive c" "n < n_servers c"
    and "ws_do Watches (ws_at s os sp wp mu) (ws_at s' os' sp' wp' mu')"
  shows "prog_step (WatchThread n) (at_server n c s os sp wp mu) (at_server n c s' os' sp' wp' mu')"
proof -
  have "prog_step (WatchThread n) (at_server n c s os sp wp mu)
      (put_view n (ws_at s' os' sp' wp' mu') (at_server n c s os sp wp mu))"
    using assms by (intro watch) (simp_all add: view_at_server prog_alive_def)
  then show ?thesis by (simp add: put_at_server)
qed

lemma watcher_run:
  assumes inv: "sys_inv c"
  shows "reaches cs (prog_of cs c) (main_step (WatcherLooks i e e2) c)"
proof (cases "i \<in> set (sys_watched c) \<and> i < length (resourceServers (sys_rm c))")
  case False
  then show ?thesis using reaches_running [OF run_none] by auto
next
  case True
  let ?d = "prog_of cs c" and ?s = "resourceServers (sys_rm c) ! i" and ?os = "sys_mach c"
  have al: "prog_alive ?d" "i < n_servers ?d" using True by simp_all
  note at = watch_at [OF al] and F = watch_fields
  obtain b s' os' where w: "watch_round e e2 None ?s ?os = (b, s', os')"
    by (cases "watch_round e e2 None ?s ?os") auto
  have self: "at_server i ?d ?s ?os StopIdle WSelect None = ?d"
    using at_server_self [OF al(2)] True by simp
  have idle: "StopIdle \<noteq> StopSend" by simp
  have last: "at_server i ?d s' os' StopIdle WSelect None = prog_of cs (set_server i s' os' c)"
    using True
    by (auto simp: at_server_def put_view_def put_server_def prog_of_def set_server_def fun_eq_iff)
  have "\<exists>ts. prog_run ts (at_server i ?d ?s ?os StopIdle WSelect None)
      (at_server i ?d s' os' StopIdle WSelect None)"
  proof (cases "os_Lstat_path e (socketPath ?s) ?os = LstatOk")
    case present: True
    then have "s' = ?s" "os' = ?os" using w by (simp_all add: watch_round_def)
    then show ?thesis
      using run_more [OF at [OF F(1) [OF idle present]] run_one [OF at [OF F(5)]]] by auto
  next
    case missing: False
    obtain r where "Restart e e2 ?s ?os = (r, s', os')"
      using w missing
      by (cases "Restart e e2 ?s ?os") (auto simp: watch_round_def split: lstat_answer.splits)
    then show ?thesis
      using run_more [OF at [OF F(2) [OF idle missing]] run_more [OF at [OF F(3)]
          run_more [OF at [OF F(4)] run_one [OF at [OF F(5)]]]]] by blast
  qed
  then obtain ts where "prog_run ts ?d (prog_of cs (set_server i s' os' c))"
    unfolding self last by blast
  then show ?thesis using reaches_running w True by simp
qed

lemma notify_run:
  assumes inv: "sys_inv c"
  shows "reaches cs (prog_of cs c) (main_step (KubeletNotifies i ok) c)"
proof (cases "i < length (resourceServers (sys_rm c)) \<and> watchMode (resourceServers (sys_rm c) ! i) \<and>
    own_listener (resourceServers (sys_rm c) ! i) \<noteq> None")
  case False
  then have "main_step (KubeletNotifies i ok) c = Running c" by auto
  then show ?thesis using reaches_running [OF run_none] by simp
next
  case True
  let ?s = "resourceServers (sys_rm c) ! i"
  obtain s os where n: "NotifyRegistrationStatus ok ?s (sys_mach c) = Returns (s, os)"
    using Notify_sound True by blast
  let ?d = "prog_of cs c" and ?d1 = "prog_of ((i, ok) # cs) c"
  have "prog_step OutsideWorld ?d (?d\<lparr>p_calls := (i, ok) # p_calls ?d\<rparr>)"
    by (rule kubelet_calls) (use True in auto)
  then have one: "prog_step OutsideWorld ?d ?d1" by (simp add: prog_of_def)
  have "prog_step OutsideWorld ?d1 ((put_server i s os ?d1)\<lparr>p_calls := remove1 (i, ok) (p_calls ?d1)\<rparr>)"
    by (rule call_runs) (use n in auto)
  moreover have "(put_server i s os ?d1)\<lparr>p_calls := remove1 (i, ok) (p_calls ?d1)\<rparr> =
      prog_of cs (set_server i s os c)"
    by (simp add: prog_of_def put_server_def set_server_def)
  ultimately have "prog_step OutsideWorld ?d1 (prog_of cs (set_server i s os c))" by metis
  then show ?thesis using reaches_running [OF run_more [OF one run_one]] n True by simp
qed

lemma main_step_run:
  assumes inv: "sys_inv c"
  shows "reaches cs (prog_of cs c) (main_step e c)"
proof (cases e)
  case (SignalArrives sig)
  let ?d = "prog_of cs c"
  have "prog_step OutsideWorld ?d (?d\<lparr>p_sigs := Some (signal_arrives sig (sys_sigs c))\<rparr>)"
    by (rule signal_queued) simp_all
  then have "prog_step OutsideWorld ?d (prog_of cs (c\<lparr>sys_sigs := signal_arrives sig (sys_sigs c)\<rparr>))"
    by (simp add: prog_of_def)
  then show ?thesis using SignalArrives reaches_running [OF run_one] by simp
next
  case (MainTakes envs env)
  show ?thesis
  proof (cases "buffered (sys_sigs c)")
    case Nil
    then show ?thesis using MainTakes reaches_running [OF run_none] by simp
  next
    case (Cons sig rest)
    then show ?thesis
      using hangup_run end_run [OF Cons _ inv] MainTakes by (cases "sig = SIGHUP") auto
  qed
qed (use tick_run watcher_run notify_run inv in simp_all)

lemma main_run_run:
  "sys_inv c \<Longrightarrow> reaches cs (prog_of cs c) (main_run es c)"
proof (induction es arbitrary: c)
  case Nil
  then show ?case using reaches_running [OF run_none] by simp
next
  case (Cons e es)
  note S = main_step_run [OF Cons.prems, of cs e]
  show ?case
  proof (cases "main_step e c")
    case (Running c1)
    then have "sys_inv c1" using main_step_good [OF Cons.prems, of e] by simp
    moreover obtain ts where "prog_run ts (prog_of cs c) (prog_of cs c1)"
      using S Running by (auto simp: reaches_def)
    ultimately show ?thesis using Cons.IH reaches_after Running by simp
  qed (use S in \<open>simp_all add: reaches_def\<close>)
qed


lemma boot_simps [simp]:
  "p_rm (boot out os) = out_rm out" "p_files (boot out os) = out_files out" "p_mach (boot out os) = os"
  "p_main (boot out os) = MStart 0" "p_mu (boot out os) i = None" "p_watch (boot out os) i = WDone"
  by (simp_all add: boot_def)

lemma start_run:
  assumes prep: "main_prepare env oo files = Inr out"
  shows "reaches [] (boot out os) (main_start env oo files os)"
proof -
  let ?d = "boot out os" and ?servers = "resourceServers (out_rm out)"
  have "main_start env oo files os \<noteq> Panicked" using main_start_no_panic by blast
  then obtain r where sl: "start_loop (me_start env) (rmWatchMode (out_rm out)) 0 ?servers os = Returns r"
    by (cases "start_loop (me_start env) (rmWatchMode (out_rm out)) 0 ?servers os")
       (auto simp: main_start_def prep StartAllServers_def)
  have st: "main_start env oo files os = (case st_err r of
      Some e \<Rightarrow> Finished (FatalStart e) (out_files out) (st_mach r)
    | None \<Rightarrow> Running \<lparr>sys_rm = (out_rm out)\<lparr>resourceServers := st_servers r\<rparr>,
        sys_files = out_files out, sys_watched = st_watched r, sys_mach = st_mach r,
        sys_sigs = Notify (NewSignalNotifier [SIGHUP, SIGINT, SIGTERM, SIGQUIT])\<rparr>)"
    by (simp add: main_start_def prep StartAllServers_def sl split: option.split)
  obtain ts d where R: "prog_run ts ?d d"
    "case st_err r of
       None \<Rightarrow> d = (set_servers (st_servers r) (st_mach r) ?d)
         \<lparr>p_main := MStart (length ?servers),
          p_watch := (\<lambda>i. if i \<in> set (st_watched r) then WSelect else p_watch ?d i)\<rparr>
     | Some x \<Rightarrow> p_main d = MExit (FatalStart x) \<and> p_mach d = st_mach r \<and> p_files d = p_files ?d"
    using start_loop_run [of "me_start env" ?d 0 ?servers os r "[]", unfolded add_0 append_Nil] sl
    by auto
  show ?thesis
  proof (cases "st_err r")
    case (Some x)
    then show ?thesis
      unfolding st using R(2) reaches_finished [OF R(1)] by simp
  next
    case None
    let ?c = "\<lparr>sys_rm = (out_rm out)\<lparr>resourceServers := st_servers r\<rparr>,
        sys_files = out_files out, sys_watched = st_watched r, sys_mach = st_mach r,
        sys_sigs = Notify (NewSignalNotifier [SIGHUP, SIGINT, SIGTERM, SIGQUIT])\<rparr>"
    have d: "d = (set_servers (st_servers r) (st_mach r) ?d)\<lparr>p_main := MStart (length ?servers),
        p_watch := (\<lambda>i. if i \<in> set (st_watched r) then WSelect else WDone)\<rparr>"
      using R(2) None by (simp cong: if_cong)
    have "length (st_servers r) = length ?servers" by (rule start_loop_length [OF sl])
    then have n: "n_servers d = length ?servers" by (simp add: d)
    let ?e = "d\<lparr>p_main := MWait,
       p_upd := (if sint (PeriodicUpdateInterval (p_rm d)) > 0 then UWait else UOff),
       p_sigs := Some (Notify (NewSignalNotifier [SIGHUP, SIGINT, SIGTERM, SIGQUIT]))\<rparr>"
    have "?e = prog_of [] ?c" by (simp add: d prog_of_def set_servers_def boot_def)
    moreover have "p_main d = MStart (length ?servers)" by (simp add: d)
    then have "prog_step MainThread d ?e" by (rule started) (simp add: n)
    ultimately have last: "prog_step MainThread d (prog_of [] ?c)" by metis
    show ?thesis unfolding st None using reaches_running [OF run_then [OF R(1) last]] by simp
  qed
qed


section \<open>Properties\<close>


lemma sample_prepared: "\<exists>out. main_prepare sample_main default_options [] = Inr out"
proof -
  obtain c where "main_start sample_main default_options [] sample_os = Running c"
    using main_start_works [OF sample_main_working] by blast
  then show ?thesis by (auto simp: main_start_def split: sum.splits)
qed




text \<open>Such a state is reached when a signal ends the program while the refusal is in flight.\<close>

lemma main_start_modes:
  assumes "main_start env oo files os = Running c"
  shows "rmWatchMode (sys_rm c) = detectPluginWatchMode (me_Stat env) (getActiveSockDir (optKubeletRootDir oo)) \<and>
    rmUseCdi (sys_rm c) = optUseCdi oo \<and>
    sys_sigs c = Notify (NewSignalNotifier [SIGHUP, SIGINT, SIGTERM, SIGQUIT])"
proof (rule main_start_servers [OF assms])
  fix rm1 rm :: resourceManager and out :: init_out and r :: started
  assume read: "ReadConfig (me_ReadFile env) (me_Unmarshal env)
       (NewResourceManager (me_Stat env) (configFilePath oo) (optKubeletRootDir oo) (optUseCdi oo))
       = (None, rm1)"
    and rm: "rm = rm1\<lparr>configList := map (normalise (defaultResourcePrefix rm1)) (configList rm1),
              deviceList := deviceList rm\<rparr>"
    and c: "c = \<lparr>sys_rm = rm\<lparr>resourceServers := st_servers r\<rparr>, sys_files = out_files out,
          sys_watched = st_watched r, sys_mach = st_mach r,
          sys_sigs = Notify (NewSignalNotifier [SIGHUP, SIGINT, SIGTERM, SIGQUIT])\<rparr>"
  have "rmWatchMode rm1 = detectPluginWatchMode (me_Stat env) (getActiveSockDir (optKubeletRootDir oo)) \<and>
      rmUseCdi rm1 = optUseCdi oo"
    using read by (auto simp: ReadConfig_def Let_def NewResourceManager_def split: sum.splits)
  moreover have "rmWatchMode rm = rmWatchMode rm1" "rmUseCdi rm = rmUseCdi rm1"
    by (subst rm, simp)+
  ultimately show ?thesis by (simp add: c)
qed

lemma Stop_ends:
  assumes "Stop w e s os = Some (r, s', os')"
  shows "rsc_GetServer s' = None"
proof (cases "running s")
  case True
  then have "stopLocked e s os = (r, s', os')"
    using assms by (auto simp: Stop_def running_def Let_def split: if_splits)
  then show ?thesis using stopLocked_not_running GetServer_running by blast
next
  case False
  then have "s' = s" using assms by (auto simp: Stop_def running_def Let_def split: if_splits)
  then show ?thesis using False GetServer_running by blast
qed

lemma end_begins:
  assumes run: "prog_reach env oo files d" and pc: "p_main d = MWait"
    and ch: "p_sigs d = Some (Notify (NewSignalNotifier [SIGHUP, SIGINT, SIGTERM, SIGQUIT]))"
  shows "prog_reach env oo files (d\<lparr>p_main := MTicker\<rparr>)"
proof -
  let ?ch = "Notify (NewSignalNotifier [SIGHUP, SIGINT, SIGTERM, SIGQUIT])"
  let ?d1 = "d\<lparr>p_sigs := Some (?ch\<lparr>buffered := [SIGTERM]\<rparr>)\<rparr>"
  have sig: "signal_arrives SIGTERM ?ch = ?ch\<lparr>buffered := [SIGTERM]\<rparr>" "?ch\<lparr>buffered := []\<rparr> = ?ch"
    by (simp_all add: signal_arrives_def Notify_def NewSignalNotifier_def)
  have "prog_step OutsideWorld d ?d1"
    using signal_queued [of d ?ch SIGTERM] sig(1) pc ch by (simp add: prog_alive_def)
  moreover have "prog_step MainThread ?d1 (?d1\<lparr>p_sigs := Some (?ch\<lparr>buffered := []\<rparr>), p_main := MTicker\<rparr>)"
    using take_end [of ?d1 "?ch\<lparr>buffered := [SIGTERM]\<rparr>" SIGTERM "[]"] pc by simp
  moreover have "?d1\<lparr>p_sigs := Some (?ch\<lparr>buffered := []\<rparr>), p_main := MTicker\<rparr> = d\<lparr>p_main := MTicker\<rparr>"
    using ch unfolding sig(2) by (cases d) simp
  ultimately show ?thesis using moved [OF moved [OF run]] by metis
qed

lemma refusal_outlives_server:
  assumes run: "prog_reach env oo files (prog_of [] c)" and inv: "sys_inv c"
    and wm: "rmWatchMode (sys_rm c)" and ne: "resourceServers (sys_rm c) \<noteq> []"
    and lis: "own_listener (resourceServers (sys_rm c) ! 0) \<noteq> None"
    and ch: "sys_sigs c = Notify (NewSignalNotifier [SIGHUP, SIGINT, SIGTERM, SIGQUIT])"
    and cdi: "\<not> rmUseCdi (sys_rm c)"
  shows "\<exists>d. prog_reach env oo files d \<and> prog_alive d \<and> (0, False) \<in> set (p_calls d) \<and>
    rsc_GetServer (prog_server d 0) = None"
proof -
  let ?s = "resourceServers (sys_rm c) ! 0" and ?d = "prog_of [] c"
  have pos: "0 < length (resourceServers (sys_rm c))" using ne by simp
  have wm0: "watchMode ?s" using inv wm nth_mem [OF pos] by (simp add: sys_inv_def)
  have "prog_step OutsideWorld ?d (?d\<lparr>p_calls := (0, False) # p_calls ?d\<rparr>)"
    by (rule kubelet_calls) (use pos wm0 lis in auto)
  then have "prog_reach env oo files (prog_of [(0, False)] c)"
    using moved [OF run] by (simp add: prog_of_def)
  then have r3: "prog_reach env oo files ((prog_of [(0, False)] c)\<lparr>p_main := MTicker\<rparr>)"
    using end_begins ch by simp
  let ?d3 = "(prog_of [(0, False)] c)\<lparr>p_main := MTicker\<rparr>"
  let ?d4 = "?d3\<lparr>p_upd := UOff, p_files := sys_files c, p_main := MStop 0\<rparr>"
  have cl: "cdi_cleanup undefined ?d3 = (None, sys_files c)" using cdi by (simp add: cdi_cleanup_def)
  have "prog_step MainThread ?d3 ?d4"
    using end_updates [of ?d3 undefined None "sys_files c"] cl by simp
  note r4 = moved [OF r3 this]
  obtain r s os where st: "Stop False undefined ?s (sys_mach c) = Some (r, s, os)"
    using Stop_returns [of "[]" 0 ?s undefined "sys_mach c"] wm0 by (auto simp: stoppable_def)
  obtain ts wp where R: "prog_run ts ?d4 (at_server 0 ?d4 s os (StopDone r) wp None)"
    using stop_server_run [of False undefined ?d4 0 r s os] st pos by auto
  let ?d5 = "at_server 0 ?d4 s os (StopDone r) wp None"
  have "rsc_GetServer s = None" by (rule Stop_ends [OF st])
  moreover have "prog_server ?d5 0 = s" "p_calls ?d5 = [(0, False)]" "prog_alive ?d5"
    using pos by (simp_all add: at_server_def prog_alive_def)
  ultimately show ?thesis using prog_run_reach [OF R r4] by (intro exI [of _ ?d5]) simp
qed

text \<open>A running program, for the instances below.\<close>

lemma running_program:
  assumes run: "main_start env oo files os = Running c"
  shows "prog_reach env oo files (prog_of [] c)"
proof -
  obtain out where prep: "main_prepare env oo files = Inr out"
    using run by (auto simp: main_start_def split: sum.splits)
  obtain ts where "prog_run ts (boot out os) (prog_of [] c)"
    using start_run [OF prep, of os] run by (auto simp: reaches_def)
  then show ?thesis using prog_run_reach booted [OF prep] by blast
qed

definition sample_watch_main :: main_env where
  "sample_watch_main = sample_main\<lparr>me_Stat := (\<lambda>d. None)\<rparr>"

lemma sample_watch_working:
  "working sample_watch_main default_options
     \<lparr>CfgPeriodicUpdateInterval = Some 60, ConfigList = [sample_config, device_config]\<rparr> sample_os"
  using sample_main_working by (simp add: working_def sample_watch_main_def)


text \<open>C4: Shutting down always completes.  From the moment main has taken a terminating
  signal, under any schedule and whatever the machine, the kubelet and the devices do in between:
  main takes at most \<open>8 n + 2\<close> steps, \<open>n\<close> being the number of servers; as long as it has not
  exited, the goroutine it waits for (itself, a watcher, the periodic update) can move; and if
  only that goroutine moves, main exits, after at most \<open>(8 n + 3) (2 n + 5)\<close> steps.\<close>

theorem shutdown_completes:
  assumes "prog_reach env oo files c" "shutting_down c" "prog_run ts c c'" "shutting_down c'"
  shows "count_list ts MainThread \<le> 8 * n_servers c + 2 \<and>
    (\<exists>c''. prog_step (awaited c') c' c'') \<and>
    (\<forall>k c''. awaited_run k c' c'' \<longrightarrow> k \<le> (8 * n_servers c + 3) * (2 * n_servers c + 5) \<and>
       (shutting_down c'' \<or> shut_down c'')) \<and>
    (\<exists>k c''. awaited_run k c' c'' \<and> shut_down c'')"
proof -
  have reach: "prog_reach env oo files c'" by (rule prog_run_reach [OF assms(3,1)])
  note I = prog_reach_inv [OF reach] and R = shutdown_run [OF assms(3,2)]
  have "count_list ts MainThread \<le> 8 * n_servers c + 2"
    using R main_left_bound [of c] by simp
  moreover have "k \<le> (8 * n_servers c + 3) * (2 * n_servers c + 5) \<and> (shutting_down c'' \<or> shut_down c'')"
    if "awaited_run k c' c''" for k c''
    using awaited_run_work [OF that I] assms(4) work_left_bound [of c'] R by simp
  ultimately show ?thesis
    using awaited_step [OF I assms(4)] shutdown_finishes [OF I assms(4)] by blast
qed


lemma shutdown_completes_witness:
  "\<exists>c k c'. prog_reach sample_main default_options [] c \<and> shutting_down c \<and>
     awaited_run k c c' \<and> shut_down c'"
proof -
  obtain c where c: "main_start sample_main default_options [] sample_os = Running c"
    using main_start_works [OF sample_main_working] by blast
  note run = end_begins [OF running_program [OF c]]
  have "prog_reach sample_main default_options [] ((prog_of [] c)\<lparr>p_main := MTicker\<rparr>)"
    using run main_start_modes [OF c] by simp
  moreover have "shutting_down ((prog_of [] c)\<lparr>p_main := MTicker\<rparr>)" by (simp add: shutting_down_def)
  ultimately show ?thesis using shutdown_completes [OF _ _ run_none] by blast
qed

text \<open>C21: When the program has exited on a terminating signal without an error, nothing of it is
  left that could bind a socket again, whatever the interleaving was: every server is stopped,
  every watcher has returned, no lifecycle lock is held and the periodic update has ended.\<close>

theorem exit_leaves_nothing_running:
  assumes "prog_reach env oo files c" "p_main c = MExit (ShutDown None)" "i < n_servers c"
  shows "rsc_GetServer (prog_server c i) = None \<and> p_watch c i = WDone \<and> p_mu c i = None \<and>
    p_upd c = UOff"
proof -
  have inv: "ws_inv (server_view i c) \<and> (\<exists>r. p_stop c i = StopDone r)" and off: "p_upd c = UOff"
    using prog_reach_inv [OF assms(1)] assms(2,3) by (auto simp: main_moves server_phase_def)
  then have "\<not> running (prog_server c i)" "p_watch c i = WDone"
    "p_mu c i \<noteq> Some StopRoutine" "p_mu c i \<noteq> Some WatchRoutine"
    by (auto simp: ws_inv_def)
  moreover have "p_mu c i = None"
    using calculation(3,4) by (cases "p_mu c i"; cases "the (p_mu c i)") auto
  ultimately show ?thesis using off GetServer_running by blast
qed

lemma stopLocked_no_error:
  "e_remove e = None \<Longrightarrow> stopLocked e s os = (r, s', os') \<Longrightarrow> r = None"
  by (auto simp: stopLocked_def stopAndRemoveOwnedSocketLocked_def stop_unlink_def os_Remove_def Let_def
      split: if_splits prod.splits option.splits)

lemma stop_loop_no_error:
  "\<forall>n. e_remove (envs n) = None \<Longrightarrow> stop_loop envs watched n servers os = Some (err, servers', os') \<Longrightarrow>
     err = None"
proof (induction servers arbitrary: n os servers' os')
  case (Cons s rest)
  obtain r s1 os1 where st: "Stop (n \<in> set watched) (envs n) s os = Some (r, s1, os1)"
    using Cons.prems(2) by (auto split: option.splits prod.splits)
  then have "r = None"
    using stopLocked_no_error [OF spec [OF Cons.prems(1)], of n] by (auto simp: Stop_def Let_def split: if_splits)
  then show ?case using Cons.IH [OF Cons.prems(1)] Cons.prems(2) st by (auto split: option.splits)
qed simp

lemma exit_leaves_nothing_running_witness:
  "\<exists>c. prog_reach sample_main default_options [] c \<and> p_main c = MExit (ShutDown None) \<and>
     p_watch c 0 = WDone \<and> rsc_GetServer (prog_server c 0) = None"
proof -
  obtain c where c: "main_start sample_main default_options [] sample_os = Running c"
    using main_start_works [OF sample_main_working] by blast
  let ?envs = "\<lambda>n. (sample_env 0, sample_env 0)" and ?rs = "resourceServers (sys_rm c)"
  let ?events = "[SignalArrives SIGTERM, MainTakes ?envs sample_cdi]"
  have inv: "sys_inv c" using main_start_inv [OF c] by blast
  note M = main_start_modes [OF c]
  have cdi: "\<not> rmUseCdi (sys_rm c)" using M by (simp add: default_options_def)
  obtain q where "StopAllServers (\<lambda>n. fst (?envs n)) sample_cdi (sys_watched c) (sys_rm c)
      (sys_files c) (sys_mach c) = Some q"
    using stop_all_returns [OF inv] by blast
  then obtain err servers os where
    sl: "stop_loop (\<lambda>n. fst (?envs n)) (sys_watched c) 0 ?rs (sys_mach c) = Some (err, servers, os)"
    using cdi by (cases "stop_loop (\<lambda>n. fst (?envs n)) (sys_watched c) 0 ?rs (sys_mach c)")
      (auto simp: StopAllServers_def)
  have "err = None" by (rule stop_loop_no_error [OF _ sl]) (simp add: sample_env_def)
  then have "main_run ?events c = Finished (ShutDown None) (sys_files c) os"
    using M sl cdi
    by (simp add: signal_arrives_def Notify_def NewSignalNotifier_def handle_signal_def
        PeriodicUpdate_def stopPeriodicUpdate_def StopAllServers_def)
  then obtain ts d where d: "prog_run ts (prog_of [] c) d" "p_main d = MExit (ShutDown None)"
    using main_run_run [OF inv, of "[]" ?events] by (auto simp: reaches_def)
  have reach: "prog_reach sample_main default_options [] d"
    by (rule prog_run_reach [OF d(1) running_program [OF c]])
  have "?rs \<noteq> []" using sample_main_paths [OF c] by auto
  then have "0 < n_servers d" using prog_run_servers [OF d(1)] by simp
  then show ?thesis using exit_leaves_nothing_running [OF reach d(2)] reach d(2) by blast
qed

end
