(* ===== verification/ThreadStreams.thy ===== *)
theory ThreadStreams
  imports ThreadRuns
begin

text \<open>
  The inventory protocol inside the whole program: every step of the goroutines is, for the
  inventory of each server, a step of the protocol or none at all, so what the protocol
  guarantees holds of the program under any schedule, restarts and shutdown included.  And what
  the calls that outlive their server do to the CDI specs.
\<close>

section \<open>Every step of the program is a protocol step or none\<close>

lemma ws_do_same: "ws_do a w w' \<Longrightarrow> same_server (ws_srv w) (ws_srv w')"
proof (induction rule: ws_do.induct)
  case (main_restart c e e2 r s os)
  then show ?case using restart_op.op_server by simp
next
  case (stop_run c e r s os)
  then show ?case using stop_op.op_server by simp
next
  case (watch_run c e e2 r s os)
  then show ?case using restart_op.op_server by simp
qed simp_all

definition inventory_kept :: "proto \<Rightarrow> proto \<Rightarrow> bool" where
  "inventory_kept v v' \<longleftrightarrow> (\<exists>s. same_server (srv v) s \<and> v' = v\<lparr>srv := s\<rparr>)"

lemma inventory_kept_refl [simp]: "inventory_kept v v"
  unfolding inventory_kept_def by (rule exI [of _ "srv v"]) simp

lemma inventory_keptI: "same_server (srv v) s \<Longrightarrow> inventory_kept v (v\<lparr>srv := s\<rparr>)"
  by (auto simp: inventory_kept_def)

lemma inventory_put_server:
  "i < n_servers c \<Longrightarrow> inventory_view j (put_server i s os c) =
     (if j = i then (inventory_view j c)\<lparr>srv := s\<rparr> else inventory_view j c)"
  by (simp add: inventory_view_def)

lemma inventory_put_view:
  "i < n_servers c \<Longrightarrow> inventory_view j (put_view i w c) =
     (if j = i then (inventory_view j c)\<lparr>srv := ws_srv w\<rparr> else inventory_view j c)"
  by (simp add: inventory_view_def)

lemma inventory_updates [simp]:
  "inventory_view i (c\<lparr>p_main := m\<rparr>) = inventory_view i c"
  "inventory_view i (c\<lparr>p_sigs := g\<rparr>) = inventory_view i c"
  "inventory_view i (c\<lparr>p_files := fs\<rparr>) = inventory_view i c"
  "inventory_view i (c\<lparr>p_watch := wt\<rparr>) = inventory_view i c"
  "inventory_view i (c\<lparr>p_calls := cs\<rparr>) = inventory_view i c"
  "inventory_view i (c\<lparr>p_lists := ls\<rparr>) = inventory_view i c"
  "inventory_view i (c\<lparr>p_mach := os\<rparr>) = inventory_view i c"
  "inventory_view i (c\<lparr>p_upd := u\<rparr>) = (inventory_view i c)\<lparr>flag := (u = UNotify i)\<rparr>"
  by (simp_all add: inventory_view_def)

lemma inventory_flag_same: "flag v = b \<Longrightarrow> v\<lparr>flag := b\<rparr> = v"
  by (cases v) simp

lemma inventory_put_inventory:
  assumes "i < n_servers c" "flag v = flag (inventory_view i c)"
  shows "inventory_view j (put_inventory i v c) = (if j = i then v else inventory_view j c)"
  using assms by (cases v) (auto simp: inventory_view_def put_inventory_def)

lemma pdo_stream_flag:
  "pdo multi a c c' \<Longrightarrow> a \<noteq> Updates \<Longrightarrow> a \<noteq> Announces \<Longrightarrow> flag c' = flag c"
  by (induction rule: pdo.induct) (simp_all add: proto_simps)

lemma prog_step_inventory:
  assumes step: "prog_step t c c'" and inv: "prog_inv c" and i: "i < n_servers c"
  shows "inventory_kept (inventory_view i c) (inventory_view i c') \<or>
    (\<exists>a. pdo True a (inventory_view i c) (inventory_view i c'))"
  using step
proof cases
  case (start_one n e e2 s os)
  then show ?thesis
    using start_op.op_server [OF Start_Returns [OF start_one(6)]]
    by (auto simp: inventory_put_server intro!: inventory_keptI)
next
  case (start_fails n e e2 err s os)
  then show ?thesis
    using start_op.op_server [OF Start_Returns [OF start_fails(6)]]
    by (auto simp: inventory_put_server intro!: inventory_keptI)
next
  case (started n)
  then have "p_upd c = UOff" using inv by (auto simp: main_moves)
  then show ?thesis using started by (auto simp: inventory_flag_same)
next
  case (restart_one n r w)
  then show ?thesis
    using ws_do_same [OF restart_one(5)] by (auto simp: inventory_put_view intro!: inventory_keptI)
next
  case (end_updates env err files)
  then have "p_upd c = UOff \<or> p_upd c = UWait" using inv by (auto simp: main_moves)
  then show ?thesis using end_updates by (auto simp: inventory_flag_same)
next
  case (stop_one n w)
  then show ?thesis
    using ws_do_same [OF stop_one(5)] by (auto simp: inventory_put_view intro!: inventory_keptI)
next
  case (watch k w)
  then show ?thesis
    using ws_do_same [OF watch(5)] by (auto simp: inventory_put_view intro!: inventory_keptI)
next
  case (tick_fails pci err rm logged)
  then have "inventory_view i (c\<lparr>p_rm := rm\<rparr>) = inventory_view i c"
    using Discover_frame [OF tick_fails(5)] by (simp add: inventory_view_def prog_server_def)
  then show ?thesis using tick_fails by simp
next
  case (tick pci rm logged)
  then have "inventory_view i (c\<lparr>p_rm := rm\<rparr>) = inventory_view i c"
    using Discover_frame [OF tick(5)] by (simp add: inventory_view_def prog_server_def)
  then show ?thesis using tick by (simp add: inventory_flag_same)
next
  case (update_one n ds h need s)
  show ?thesis
  proof (cases "i = n")
    case True
    have "pdo True Updates (inventory_view n c) ((inventory_view n c)\<lparr>srv := s, flag := need\<rparr>)"
      by (rule pdo.update) (use update_one in simp_all)
    then show ?thesis
      using update_one True by (auto simp: inventory_put_server intro!: exI [of _ Updates])
  next
    case False
    then show ?thesis using update_one by (auto simp: inventory_put_server inventory_flag_same)
  qed
next
  case (announce n)
  then have n: "n < n_servers c" using inv by (auto simp: main_moves)
  show ?thesis
  proof (cases "i = n")
    case True
    have "pdo True Announces (inventory_view n c)
        ((inventory_view n c)\<lparr>srv := notifyUpdate (srv (inventory_view n c)), flag := False\<rparr>)"
      by (rule pdo.notify) (use announce in simp)
    then show ?thesis
      using announce True n by (auto simp: inventory_put_server intro!: exI [of _ Announces])
  next
    case False
    then show ?thesis using announce n by (auto simp: inventory_put_server inventory_flag_same)
  qed
next
  case (updated n)
  then show ?thesis by (auto simp: inventory_flag_same)
next
  case (call_runs k ok s os)
  then have "k < n_servers c" using inv by (auto simp: prog_inv_def)
  then show ?thesis
    using call_runs Notify_parts [OF call_runs(5)]
    by (auto simp: inventory_put_server intro!: inventory_keptI)
next
  case (stream_begins k j v)
  then have k: "k < n_servers c" using inv by (auto simp: prog_inv_def)
  show ?thesis
    using stream_begins(2,5) inventory_put_inventory [OF k, of v i] pdo_stream_flag [OF stream_begins(5)]
    by (cases "i = k") auto
next
  case (stream_moves k j v)
  then show ?thesis
    using inventory_put_inventory [OF stream_moves(4), of v i] pdo_stream_flag [OF stream_moves(5)]
    by (cases "i = k") auto
next
  case (stream_writes k env r files j v)
  then show ?thesis
    using inventory_put_inventory [OF stream_writes(4), of v i] pdo_stream_flag [OF stream_writes(6)]
    by (cases "i = k") auto
qed simp_all

lemma kept_announced: "inventory_kept v v' \<Longrightarrow> announced v' = announced v"
  by (auto simp: inventory_kept_def announced_def announcing_def same_server_def device_list_def)

lemma kept_inventory_ok: "inventory_kept v v' \<Longrightarrow> inventory_ok (srv v) \<Longrightarrow> inventory_ok (srv v')"
  by (auto simp: inventory_kept_def intro: same_server_inventory)


lemma boot_inventory:
  assumes prep: "main_prepare env oo files = Inr out" and i: "i < n_servers (boot out os)"
  shows "inventory_ok (prog_server (boot out os) i) \<and> announced (inventory_view i (boot out os))"
proof -
  obtain rm1 rm2 found logged where p:
    "ReadConfig (me_ReadFile env) (me_Unmarshal env)
       (NewResourceManager (me_Stat env) (configFilePath oo) (optKubeletRootDir oo) (optUseCdi oo))
       = (None, rm1)" "ValidateConfigs rm1 = (None, rm2)"
    "InitServers (me_hosts env) (me_cdi env) (rm2\<lparr>deviceList := found\<rparr>) files = (None, out)"
    using prep by (rule main_prepare_parts)
  let ?rm = "rm2\<lparr>deviceList := found\<rparr>"
  have "resourceServers rm1 = []"
    using ReadConfig_frame [OF p(1)] by (simp add: NewResourceManager_def)
  then have "prepared ?rm" by (rule ValidateConfigs_prepared [OF p(2)])
  then obtain servers where b: "out_rm out = ?rm\<lparr>resourceServers := servers\<rparr>"
    "\<forall>i < length servers. built (me_hosts env) ?rm i (configList ?rm ! i) = Inr (servers ! i)"
    using InitServers_built [OF p(3)] by (auto simp: prepared_def)
  have "i < length servers" using i b(1) by (simp add: boot_def n_servers_def)
  then have "inventory_ok (servers ! i)" using b(2) built_fields by blast
  then show ?thesis
    using b(1) by (simp add: boot_def prog_server_def announced_def no_streams_def)
qed

lemma prog_reach_inventory:
  "prog_reach env oo files c \<Longrightarrow> i < n_servers c \<Longrightarrow>
     inventory_ok (prog_server c i) \<and> announced (inventory_view i c)"
proof (induction rule: prog_reach.induct)
  case (booted out os)
  then show ?case using boot_inventory by blast
next
  case (moved c t c')
  have i: "i < n_servers c" using prog_step_servers [OF moved.hyps(2)] moved.prems by simp
  note I = moved.IH [OF i]
  from prog_step_inventory [OF moved.hyps(2) prog_reach_inv [OF moved.hyps(1)] i]
  show ?case
  proof (elim disjE exE)
    assume k: "inventory_kept (inventory_view i c) (inventory_view i c')"
    then show ?thesis using I kept_inventory_ok [OF k] kept_announced [OF k] by simp
  next
    fix a assume a: "pdo True a (inventory_view i c) (inventory_view i c')"
    then show ?thesis using I pdo_inventory_ok [OF a] pdo_announced [OF a] by simp
  qed
qed

section \<open>Catching up\<close>

lemma stream_step:
  assumes "prog_alive c" "i < n_servers c" "pdo True (Moves j) (inventory_view i c) v"
  shows "\<exists>c'. prog_step (StreamThread i j) c c' \<and> prog_alive c' \<and> n_servers c' = n_servers c \<and>
    inventory_view i c' = v"
proof -
  have "flag v = flag (inventory_view i c)" using pdo_stream_flag [OF assms(3)] by simp
  then show ?thesis
    using stream_moves [OF assms] inventory_put_inventory [OF assms(2), of v i] assms(1)
    by (intro exI [of _ "put_inventory i v c"]) (simp add: prog_alive_def)
qed

lemma deliver_view [simp]:
  "delivered (goto j p (deliver j v)) = Some (device_list (srv v))"
  "srv (goto j p (deliver j v)) = srv v"
  by (simp_all add: proto_simps)

lemma send_brings_up:
  assumes "prog_alive c" "i < n_servers c" "strm (p_lw c i) j = SGot"
  shows "\<exists>c'. prog_run [StreamThread i j] c c' \<and>
    delivered (p_lw c' i) = Some (device_list (prog_server c' i)) \<and>
    device_list (prog_server c' i) = device_list (prog_server c i)"
proof -
  have "pdo True (Moves j) (inventory_view i c) (goto j SSpec (deliver j (inventory_view i c)))"
    by (rule pdo.send_ok) (use assms in simp)
  then obtain c' where c': "prog_step (StreamThread i j) c c'"
    "inventory_view i c' = goto j SSpec (deliver j (inventory_view i c))"
    using stream_step [OF assms(1,2)] by blast
  show ?thesis
    using run_one [OF c'(1)] by (intro exI [of _ c']) (simp add: c'(2) flip: inventory_view_simps)
qed

lemma receive_and_send:
  assumes al: "prog_alive c" "i < n_servers c" and j: "strm (p_lw c i) j = SWait"
    and pend: "0 < updateResource (prog_server c i)"
  shows "\<exists>c'. prog_run [StreamThread i j, StreamThread i j] c c' \<and>
    delivered (p_lw c' i) = Some (device_list (prog_server c' i)) \<and>
    device_list (prog_server c' i) = device_list (prog_server c i)"
proof -
  let ?v = "inventory_view i c"
  let ?v1 = "goto j SGot (?v\<lparr>srv := (srv ?v)\<lparr>updateResource := updateResource (srv ?v) - 1\<rparr>\<rparr>)"
  have "pdo True (Moves j) ?v ?v1" by (rule pdo.recv) (use j pend in simp_all)
  then obtain c1 where c1: "prog_step (StreamThread i j) c c1" "prog_alive c1" "i < n_servers c1"
    "inventory_view i c1 = ?v1"
    using stream_step [OF al] al(2) by metis
  have "strm (p_lw c1 i) j = SGot"
    using arg_cong [OF c1(4), of "\<lambda>v. strm v j"] by (simp add: goto_def)
  moreover have "device_list (prog_server c1 i) = device_list (prog_server c i)"
    using arg_cong [OF c1(4), of srv] by (simp add: goto_def)
  ultimately show ?thesis
    using send_brings_up [OF c1(2,3)] run_more [OF c1(1)] by fastforce
qed

section \<open>Calls that outlive the clean-up\<close>

text \<open>Once main stops servers, only a \<^verbatim>\<open>ListAndWatch\<close> call touches the spec files.\<close>

lemma stopping_step_files:
  "prog_step t c c' \<Longrightarrow> p_main c = MStop n \<Longrightarrow> \<forall>i j. t \<noteq> StreamThread i j \<Longrightarrow>
     p_files c' = p_files c \<and> ((\<exists>n'. p_main c' = MStop n') \<or> \<not> prog_alive c')"
  by (induction rule: prog_step.induct) (auto simp: prog_alive_def split: option.splits)

lemma dead_run: "prog_run ts c c' \<Longrightarrow> \<not> prog_alive c \<Longrightarrow> c' = c"
  by (induction rule: prog_run.induct) (auto simp: prog_alive_def elim: prog_step.cases)

lemma stopping_run_files:
  "prog_run ts c c' \<Longrightarrow> p_main c = MStop n \<Longrightarrow> \<forall>i j. StreamThread i j \<notin> set ts \<Longrightarrow>
     p_files c' = p_files c"
proof (induction arbitrary: n rule: prog_run.induct)
  case (run_more t c c' ts c'')
  have "\<forall>i j. t \<noteq> StreamThread i j" using run_more.prems(2) by auto
  note S = stopping_step_files [OF run_more.hyps(1) run_more.prems(1) this]
  show ?case
  proof (cases "prog_alive c'")
    case True
    then obtain n' where "p_main c' = MStop n'" using S by blast
    then show ?thesis using run_more.IH run_more.prems(2) S by simp
  next
    case False
    then show ?thesis using dead_run [OF run_more.hyps(2)] S by simp
  qed
qed simp

lemma awaited_no_stream: "awaited c \<noteq> StreamThread i j"
  by (auto simp: awaited_def split: main_pc.split update_pc.split)

lemma awaited_run_run:
  "awaited_run k c c' \<Longrightarrow> \<exists>ts. prog_run ts c c' \<and> (\<forall>i j. StreamThread i j \<notin> set ts)"
proof (induction rule: awaited_run.induct)
  case (aw_none c)
  then show ?case using run_none by (intro exI [of _ "[]"]) simp
next
  case (aw_more c c' k c'')
  then obtain ts where "prog_run ts c' c''" "\<forall>i j. StreamThread i j \<notin> set ts" by blast
  then show ?case
    using run_more [OF aw_more.hyps(1)] awaited_no_stream awaited_no_stream [symmetric]
    by (intro exI [of _ "awaited c # ts"]) auto
qed

lemma stopping_finishes:
  assumes "prog_inv c" "p_main c = MStop n"
  shows "\<exists>ts c'. prog_run ts c c' \<and> shut_down c' \<and> p_files c' = p_files c"
proof -
  have "shutting_down c" using assms(2) by (simp add: shutting_down_def)
  then obtain k c' where "awaited_run k c c'" "shut_down c'"
    using shutdown_finishes [OF assms(1)] by blast
  then show ?thesis using awaited_run_run stopping_run_files assms(2) by metis
qed

section \<open>Properties\<close>

text \<open>C10: No change of the device list is lost, in the whole program: under any schedule of
  start-up, updates, restarts, registrations, calls and shutdown, each server advertises no
  device or its \<^verbatim>\<open>rdmaHcaMax\<close> numbered ones, and what the kubelet saw last of it has the
  identifiers it advertises now, or an announcement of the difference is still on its way (the
  periodic update is about to notify, a notification is in the channel, or a call is about to
  send).\<close>

theorem program_loses_no_update:
  assumes "prog_reach env oo files c" "i < n_servers c"
  shows "map ID (device_list (prog_server c i)) =
      (if deviceSpec (prog_server c i) = [] then []
       else map (\<lambda>k. go_Itoa (int k)) [0 ..< nat (rdmaHcaMax (prog_server c i))]) \<and>
    updateResource (prog_server c i) \<le> 1 \<and>
    (\<forall>m. delivered (p_lw c i) = Some m \<longrightarrow>
       map ID m = map ID (device_list (prog_server c i)) \<or> p_upd c = UNotify i \<or>
       0 < updateResource (prog_server c i) \<or> (\<exists>j. strm (p_lw c i) j = SGot))"
  using prog_reach_inventory [OF assms]
  by (auto simp: inventory_ok_def announced_def announcing_def numbered_ids_def)


text \<open>C30: In CDI mode, shutting down can leave a spec behind: the clean-up runs before the
  servers are stopped, so a \<^verbatim>\<open>ListAndWatch\<close> call that is about to write the spec of its
  pool when main begins to stop servers may or may not write it; either way the program exits,
  in one case with the files as the clean-up left them, in the other with the new spec among
  them; and from then on nothing but such a call touches the spec files.\<close>

theorem call_outlives_cleanup:
  assumes "prog_reach env oo files c" "p_main c = MStop n" "i < n_servers c"
    and "strm (p_lw c i) j = SSpec"
    and "updateCDISpec e (prog_server c i) (p_files c) = (None, written)"
  shows "(\<exists>ts c'. prog_run ts c c' \<and> shut_down c' \<and> p_files c' = p_files c) \<and>
    (\<exists>ts c'. prog_run ts c c' \<and> shut_down c' \<and> p_files c' = written) \<and>
    (\<forall>ts c'. prog_run ts c c' \<longrightarrow> (\<forall>i j. StreamThread i j \<notin> set ts) \<longrightarrow> p_files c' = p_files c)"
proof -
  note inv = prog_reach_inv [OF assms(1)]
  let ?v = "goto j SWait (inventory_view i c)"
  let ?c = "(put_inventory i ?v c)\<lparr>p_files := written\<rparr>"
  have "pdo True (Writes j None) (inventory_view i c) ?v"
    by (rule pdo.spec_ok) (use assms(4) in simp)
  then have one: "prog_step (StreamThread i j) c ?c"
    by (intro stream_writes [OF _ assms(3) assms(5)]) (use assms(2) in \<open>simp_all add: prog_alive_def\<close>)
  have "p_main ?c = MStop n" using assms(2) by simp
  then obtain ts c' where "prog_run ts ?c c'" "shut_down c'" "p_files c' = p_files ?c"
    using stopping_finishes [OF prog_step_inv [OF one inv]] by blast
  then show ?thesis
    using run_more [OF one] stopping_finishes [OF inv assms(2)] stopping_run_files assms(2)
    by fastforce
qed

text \<open>The manager of a started program and its servers are those of the configuration.\<close>

lemma main_start_pools:
  assumes run: "main_start env oo files os = Running c"
    and cfg: "me_ReadFile env (configFilePath oo) = Inr raw" "me_Unmarshal env raw = Inr cfg"
  shows "map cdiResourceName (resourceServers (sys_rm c)) = map ResourceName (ConfigList cfg) \<and>
    map rdmaHcaMax (resourceServers (sys_rm c)) = map RdmaHcaMax (ConfigList cfg) \<and>
    (\<forall>s \<in> set (resourceServers (sys_rm c)). useCdi s = optUseCdi oo) \<and>
    configList (sys_rm c) = map (normalise rdmaHcaResourcePrefix) (ConfigList cfg) \<and>
    rds (sys_rm c) = requiredRdmaDevices \<and>
    PeriodicUpdateInterval (sys_rm c) = (case CfgPeriodicUpdateInterval cfg of
      None \<Rightarrow> defaultPeriodicUpdateInterval | Some x \<Rightarrow> x * nanoseconds_per_second)"
proof (rule main_start_servers [OF run])
  fix rm1 rm servers out r
  assume p: "ReadConfig (me_ReadFile env) (me_Unmarshal env)
       (NewResourceManager (me_Stat env) (configFilePath oo) (optKubeletRootDir oo) (optUseCdi oo))
       = (None, rm1)"
    "rm = rm1\<lparr>configList := map (normalise (defaultResourcePrefix rm1)) (configList rm1),
              deviceList := deviceList rm\<rparr>"
    "length servers = length (configList rm)"
    "\<forall>i < length servers. built (me_hosts env) rm i (configList rm ! i) = Inr (servers ! i)"
    "distinct (map socketPath servers)" "\<forall>s \<in> set servers. rsConnector s \<noteq> None \<and> listener_ok s"
    "start_loop (me_start env) (rmWatchMode rm) 0 servers os = Returns r" "st_err r = None"
    "c = \<lparr>sys_rm = rm\<lparr>resourceServers := st_servers r\<rparr>, sys_files = out_files out,
          sys_watched = st_watched r, sys_mach = st_mach r,
          sys_sigs = Notify (NewSignalNotifier [SIGHUP, SIGINT, SIGTERM, SIGQUIT])\<rparr>"
  have rm1: "configList rm1 = ConfigList cfg" "rmUseCdi rm1 = optUseCdi oo"
    "defaultResourcePrefix rm1 = rdmaHcaResourcePrefix" "rds rm1 = requiredRdmaDevices"
    "PeriodicUpdateInterval rm1 = (case CfgPeriodicUpdateInterval cfg of
      None \<Rightarrow> defaultPeriodicUpdateInterval | Some x \<Rightarrow> x * nanoseconds_per_second)"
    using p(1) cfg by (auto simp: ReadConfig_def NewResourceManager_def Let_def)
  have rm: "configList rm = map (normalise rdmaHcaResourcePrefix) (ConfigList cfg)"
    "rmUseCdi rm = optUseCdi oo" "rds rm = requiredRdmaDevices"
    "PeriodicUpdateInterval rm = PeriodicUpdateInterval rm1"
    by (subst p(2), simp add: rm1)+
  have same: "list_all2 same_server servers (st_servers r)"
    using start_loop_success [OF p(7,8,6,5)] by blast
  have at: "cdiResourceName (st_servers r ! i) = ResourceName (ConfigList cfg ! i) \<and>
      rdmaHcaMax (st_servers r ! i) = RdmaHcaMax (ConfigList cfg ! i) \<and>
      useCdi (st_servers r ! i) = optUseCdi oo" if i: "i < length servers" for i
    using list_all2_nthD [OF same i] newResourceServer_fields [OF p(4) [rule_format, OF i, unfolded built_def]]
      i p(3) rm by (simp add: same_server_def)
  have len: "length (st_servers r) = length servers" using list_all2_lengthD [OF same] by simp
  have "map cdiResourceName (st_servers r) = map ResourceName (ConfigList cfg)"
    "map rdmaHcaMax (st_servers r) = map RdmaHcaMax (ConfigList cfg)"
    using p(3) rm(1) len at by (auto intro!: nth_equalityI)
  then show ?thesis
    using p(3,9) rm len at rm1(5) by (auto simp: in_set_conv_nth)
qed

text \<open>The kubelet opens a stream, and the first list is sent.\<close>

lemma stream_opens:
  assumes reach: "prog_reach env oo files d" and pc: "p_main d = MWait" and i: "i < n_servers d"
    and lis: "own_listener (prog_server d i) \<noteq> None" and new: "strm (p_lw d i) j = SNew"
  shows "\<exists>d'. prog_reach env oo files d' \<and> p_main d' = MWait \<and> p_sigs d' = p_sigs d \<and>
    p_upd d' = p_upd d \<and> p_files d' = p_files d \<and> p_rm d' = p_rm d \<and>
    strm (p_lw d' i) j = SSpec \<and> delivered (p_lw d' i) = Some (device_list (prog_server d i))"
proof -
  let ?d1 = "d\<lparr>p_lists := (i, j) # p_lists d\<rparr>"
  let ?v = "goto j SSpec (deliver j (inventory_view i ?d1))"
  let ?d2 = "(put_inventory i ?v ?d1)\<lparr>p_lists := remove1 (i, j) (p_lists ?d1)\<rparr>"
  have al: "prog_alive d" using pc by (simp add: prog_alive_def)
  have one: "prog_step OutsideWorld d ?d1" by (rule kubelet_lists [OF al i lis])
  have "pdo True (Begins j) (inventory_view i ?d1) ?v"
    by (rule pdo.begin_ok) (use new in simp_all)
  then have "prog_step (StreamThread i j) ?d1 ?d2"
    using al by (intro stream_begins) (simp_all add: prog_alive_def)
  then have "prog_reach env oo files ?d2" by (rule moved [OF moved [OF reach one]])
  then show ?thesis
    using pc i
    by (intro exI [of _ ?d2])
       (simp add: put_inventory_def put_server_def prog_server_def proto_simps)
qed

text \<open>The first server of a started program with a call that has sent the first list.\<close>

lemma call_at_started:
  assumes run: "main_start env oo files os = Running c" and ne: "resourceServers (sys_rm c) \<noteq> []"
    and lis: "\<forall>s \<in> set (resourceServers (sys_rm c)). listening s (sys_mach c)"
  shows "\<exists>d. prog_reach env oo files d \<and> p_main d = MWait \<and> p_sigs d = Some (sys_sigs c) \<and>
    p_upd d = (if sint (PeriodicUpdateInterval (sys_rm c)) > 0 then UWait else UOff) \<and>
    p_files d = sys_files c \<and> p_rm d = sys_rm c \<and> strm (p_lw d 0) 0 = SSpec \<and>
    delivered (p_lw d 0) = Some (device_list (resourceServers (sys_rm c) ! 0))"
proof -
  have "own_listener (prog_server (prog_of [] c) 0) \<noteq> None"
    using lis ne by (auto simp: listening_def)
  then show ?thesis
    using stream_opens [OF running_program [OF run] prog_of_simps(5), of 0 0] ne
    by (auto simp: no_streams_def)
qed

lemma program_loses_no_update_witness:
  "\<exists>c m. prog_reach sample_main default_options [] c \<and> delivered (p_lw c 0) = Some m \<and>
     (map ID m = map ID (device_list (prog_server c 0)) \<or> p_upd c = UNotify 0 \<or>
      0 < updateResource (prog_server c 0) \<or> (\<exists>j. strm (p_lw c 0) j = SGot))"
proof -
  obtain c where c: "main_start sample_main default_options [] sample_os = Running c"
    "\<forall>s \<in> set (resourceServers (sys_rm c)). listening s (sys_mach c)"
    using main_start_works [OF sample_main_working] by blast
  have ne: "resourceServers (sys_rm c) \<noteq> []" using sample_main_paths [OF c(1)] by auto
  obtain d m where d: "prog_reach sample_main default_options [] d" "p_rm d = sys_rm c"
    "delivered (p_lw d 0) = Some m"
    using call_at_started [OF c(1) ne c(2)] by blast
  have "0 < n_servers d" using ne d(2) by (simp add: n_servers_def)
  then show ?thesis using program_loses_no_update [OF d(1)] d(1,3) by blast
qed

text \<open>An update that makes an empty pool non-empty or the other way round.\<close>

lemma update_flips_ids:
  assumes ok: "inventory_ok s" "inventory_ok s'" and hca: "0 < rdmaHcaMax s"
    and up: "update_locked ds s = (need, s')" and flip: "deviceSpec s = [] \<longleftrightarrow> getDevicesSpec ds \<noteq> []"
  shows "map ID (device_list s') \<noteq> map ID (device_list s)"
proof -
  have "devicesChanged (deviceSpec s) (getDevicesSpec ds)"
    using flip by (cases "deviceSpec s = []") (auto simp: devicesChanged_def)
  then have "deviceSpec s' = getDevicesSpec ds \<and> rdmaHcaMax s' = rdmaHcaMax s"
    using up by (auto simp: update_locked_def Let_def split: if_splits)
  moreover have "numbered_ids (rdmaHcaMax s) \<noteq> []" using hca by (simp add: numbered_ids_def)
  ultimately show ?thesis using ok flip by (auto simp: inventory_ok_def)
qed

lemma sample_pool:
  assumes "rds rm = requiredRdmaDevices" "ConfSelectors conf = no_selectors\<lparr>Vendors := [''15b3'']\<rparr>"
  shows "GetFilteredDevices (GetDevices sample_host (rm\<lparr>deviceList := []\<rparr>)) (ConfSelectors conf) = []"
    "GetFilteredDevices (GetDevices sample_host (rm\<lparr>deviceList := [sample_ghw]\<rparr>)) (ConfSelectors conf) =
       [sample_device]"
  using assms sample_device_built
  by (simp_all add: GetDevices_def GetFilteredDevices_filter selector_matches_def no_selectors_def
      sample_device_def getters)

lemma sample_found: "DiscoverHostDevices (Inr [sample_ghw]) rm =
    (None, rm\<lparr>deviceList := [sample_ghw]\<rparr>, snd (discover_loop [sample_ghw]))"
  "DiscoverHostDevices (Inr []) rm = (None, rm\<lparr>deviceList := []\<rparr>, [])"
proof -
  have "network_device sample_ghw"
    by (simp add: network_device_def sample_ghw_def netClass_def go_ParseInt16_def go_ParseUint16_def
        hex_digit_def)
  then show "DiscoverHostDevices (Inr [sample_ghw]) rm =
      (None, rm\<lparr>deviceList := [sample_ghw]\<rparr>, snd (discover_loop [sample_ghw]))"
    using discover_loop_found [of "[sample_ghw]"] by (simp add: DiscoverHostDevices_def split_beta)
qed (simp add: DiscoverHostDevices_def)

lemma sample_first_server:
  assumes "main_start sample_main default_options [] sample_os = Running c"
  shows "resourceServers (sys_rm c) \<noteq> []" "rdmaHcaMax (resourceServers (sys_rm c) ! 0) = 3"
    "\<not> useCdi (resourceServers (sys_rm c) ! 0)" "rds (sys_rm c) = requiredRdmaDevices"
    "ConfSelectors (configList (sys_rm c) ! 0) = no_selectors\<lparr>Vendors := [''15b3'']\<rparr>"
    "0 < length (configList (sys_rm c))" "sint (PeriodicUpdateInterval (sys_rm c)) > 0"
proof -
  show ne: "resourceServers (sys_rm c) \<noteq> []" using sample_main_paths [OF assms] by auto
  have cfg: "me_ReadFile sample_main (configFilePath default_options) = Inr []"
    "me_Unmarshal sample_main [] = Inr \<lparr>CfgPeriodicUpdateInterval = Some 60,
        ConfigList = [sample_config, device_config]\<rparr>"
    by (simp_all add: sample_main_def)
  note P = main_start_pools [OF assms cfg]
  show "rdmaHcaMax (resourceServers (sys_rm c) ! 0) = 3" "\<not> useCdi (resourceServers (sys_rm c) ! 0)"
    using P ne by (auto simp: default_options_def sample_config_def map_eq_Cons_conv)
  show "ConfSelectors (configList (sys_rm c) ! 0) = no_selectors\<lparr>Vendors := [''15b3'']\<rparr>"
    "0 < length (configList (sys_rm c))"
    using P by (simp_all add: sample_config_def normalise_def IsEmptySelector_iff no_selectors_def)
  show "rds (sys_rm c) = requiredRdmaDevices" using P by simp
  show "sint (PeriodicUpdateInterval (sys_rm c)) > 0" using P by (simp add: nanoseconds_per_second_def)
qed

text \<open>The kubelet has been shown the devices at start-up and waits for more.\<close>

lemma sample_waiting:
  assumes c: "main_start sample_main default_options [] sample_os = Running c"
    "\<forall>s \<in> set (resourceServers (sys_rm c)). listening s (sys_mach c)"
  shows "\<exists>d. prog_reach sample_main default_options [] d \<and> prog_alive d \<and> p_upd d = UWait \<and>
    p_rm d = sys_rm c \<and> strm (p_lw d 0) 0 = SWait \<and>
    delivered (p_lw d 0) = Some (device_list (resourceServers (sys_rm c) ! 0))"
proof -
  note F = sample_first_server [OF c(1)]
  obtain d where d: "prog_reach sample_main default_options [] d" "p_main d = MWait" "p_upd d = UWait"
    "p_rm d = sys_rm c" "strm (p_lw d 0) 0 = SSpec"
    "delivered (p_lw d 0) = Some (device_list (resourceServers (sys_rm c) ! 0))"
    using call_at_started [OF c(1) F(1) c(2)] F(7) by auto
  have at: "prog_alive d" "0 < n_servers d" "prog_server d 0 = resourceServers (sys_rm c) ! 0"
    using d(2,4) F(1) by (simp_all add: prog_alive_def n_servers_def prog_server_def)
  let ?v = "goto 0 SWait (inventory_view 0 d)"
  let ?d1 = "(put_inventory 0 ?v d)\<lparr>p_files := p_files d\<rparr>"
  have w: "updateCDISpec undefined (prog_server d 0) (p_files d) = (None, p_files d)"
    using F(3) at(3) by (simp add: updateCDISpec_def)
  have "pdo True (Writes 0 None) (inventory_view 0 d) ?v" by (rule pdo.spec_ok) (use d(5) in simp)
  then have "prog_reach sample_main default_options [] ?d1"
    using moved [OF d(1) stream_writes [OF at(1,2) w]] by blast
  moreover have "prog_alive ?d1" "p_upd ?d1 = UWait" "p_rm ?d1 = sys_rm c" "strm (p_lw ?d1 0) 0 = SWait"
    "delivered (p_lw ?d1 0) = Some (device_list (resourceServers (sys_rm c) ! 0))"
    using at(1) d(3,4,6)
    by (simp_all add: prog_alive_def put_inventory_def put_server_def prog_server_def n_servers_def
        proto_simps)
  ultimately show ?thesis by (intro exI [of _ ?d1] conjI)
qed

text \<open>Then the update loop takes the device away, or finds the first one, and what the kubelet was
  shown is out of date.\<close>

lemma sample_stale:
  "\<exists>c m. prog_reach sample_main default_options [] c \<and> prog_alive c \<and> 0 < n_servers c \<and>
     strm (p_lw c 0) 0 = SWait \<and> delivered (p_lw c 0) = Some m \<and>
     map ID m \<noteq> map ID (device_list (prog_server c 0))"
proof -
  obtain c where c: "main_start sample_main default_options [] sample_os = Running c"
    "\<forall>s \<in> set (resourceServers (sys_rm c)). listening s (sys_mach c)"
    using main_start_works [OF sample_main_working] by blast
  note F = sample_first_server [OF c(1)]
  let ?s = "resourceServers (sys_rm c) ! 0" and ?conf = "configList (sys_rm c) ! 0"
  obtain d where d: "prog_reach sample_main default_options [] d" "prog_alive d" "p_upd d = UWait"
    "p_rm d = sys_rm c" "strm (p_lw d 0) 0 = SWait" "delivered (p_lw d 0) = Some (device_list ?s)"
    using sample_waiting [OF c] by blast
  have at: "0 < n_servers d" "prog_server d 0 = ?s"
    using d(4) F(1) by (simp_all add: n_servers_def prog_server_def)
  let ?new = "if deviceSpec ?s = [] then [sample_ghw] else []"
  let ?rm = "(sys_rm c)\<lparr>deviceList := ?new\<rparr>"
  obtain logged where disc: "DiscoverHostDevices (Inr ?new) (p_rm d) = (None, ?rm, logged)"
    using sample_found [of "sys_rm c"] d(4) by (cases "deviceSpec ?s = []") auto
  let ?d2 = "d\<lparr>p_rm := ?rm, p_upd := UAt 0\<rparr>"
  have r2: "prog_reach sample_main default_options [] ?d2" by (rule moved [OF d(1) tick [OF d(2,3) disc]])
  have d2: "prog_alive ?d2" "p_upd ?d2 = UAt 0" "n_servers ?d2 = n_servers d" "p_rm ?d2 = ?rm"
    "prog_server ?d2 0 = ?s" "p_lw ?d2 = p_lw d"
    using d(2,4) by (simp_all add: prog_alive_def n_servers_def prog_server_def)
  let ?ds = "GetFilteredDevices (GetDevices sample_host ?rm) (ConfSelectors ?conf)"
  obtain need s3 where up: "update_locked ?ds ?s = (need, s3)" by force
  let ?d3 = "(put_server 0 s3 (p_mach ?d2) ?d2)\<lparr>p_upd := (if need then UNotify 0 else UAt (Suc 0))\<rparr>"
  have "prog_step UpdateThread ?d2 ?d3"
    by (rule update_one [OF d2(1,2), where h = sample_host and ds = ?ds])
       (use at(1) d2(3-5) F(6) up in simp_all)
  then have r3: "prog_reach sample_main default_options [] ?d3" by (rule moved [OF r2])
  have d3: "prog_alive ?d3" "0 < n_servers ?d3" "prog_server ?d3 0 = s3" "p_lw ?d3 = p_lw d"
    using d2(1,3,6) at(1) by (simp_all add: prog_alive_def)
  have "getDevicesSpec [sample_device] \<noteq> []"
    by (simp add: getDevicesSpec_concat sample_device_def sample_specs_def getters)
  then have flip: "deviceSpec ?s = [] \<longleftrightarrow> getDevicesSpec ?ds \<noteq> []"
    using sample_pool [OF F(4,5)] by (cases "deviceSpec ?s = []") simp_all
  have "map ID (device_list s3) \<noteq> map ID (device_list ?s)"
    using update_flips_ids [OF _ _ _ up flip] prog_reach_inventory [OF d(1) at(1)]
      prog_reach_inventory [OF r3 d3(2)] F(2) at(2) d3(3) by simp
  then have stale: "map ID (device_list ?s) \<noteq> map ID (device_list (prog_server ?d3 0))"
    unfolding d3(3) by (rule not_sym)
  have here: "strm (p_lw ?d3 0) 0 = SWait" "delivered (p_lw ?d3 0) = Some (device_list ?s)"
    unfolding d3(4) by (rule d(5), rule d(6))
  show ?thesis
    by (rule exI [of _ ?d3], rule exI [of _ "device_list ?s"]) (intro conjI r3 d3(1,2) here stale)
qed


definition cdi_options :: options where
  "cdi_options = default_options\<lparr>optUseCdi := True\<rparr>"

lemma sample_cleanup_works: "cleanup_works sample_cdi cdiResourcePrefix"
proof -
  have "list_all (\<lambda>dir. \<not> has_meta (glob_dir (path_Join [dir, cdiResourcePrefix @ ''*''])))
      [''/etc/cdi'', ''/var/run/cdi'']"
    by code_simp
  then show ?thesis by (simp add: cleanup_works_def sample_cdi_def)
qed

lemma sample_cdi_working:
  "working sample_main cdi_options
     \<lparr>CfgPeriodicUpdateInterval = Some 60, ConfigList = [sample_config, device_config]\<rparr> sample_os"
proof -
  have "me_cdi sample_main = sample_cdi" by (simp add: sample_main_def)
  then show ?thesis
    using sample_main_working sample_cleanup_works by (simp add: working_def cdi_options_def)
qed

lemma call_outlives_cleanup_witness:
  "\<exists>c c'. prog_reach sample_main cdi_options [] c \<and> p_main c = MStop 0 \<and>
     prog_reach sample_main cdi_options [] c' \<and> shut_down c' \<and>
     p_files c' = (''/var/run/cdi/nvidia.com_hca_a'', ''nvidia.com/net-rdma'') # p_files c"
proof -
  obtain c where c: "main_start sample_main cdi_options [] sample_os = Running c"
    "\<forall>s \<in> set (resourceServers (sys_rm c)). listening s (sys_mach c)"
    using main_start_works [OF sample_cdi_working] by blast
  have cfg: "me_ReadFile sample_main (configFilePath cdi_options) = Inr []"
    "me_Unmarshal sample_main [] = Inr \<lparr>CfgPeriodicUpdateInterval = Some 60,
        ConfigList = [sample_config, device_config]\<rparr>"
    by (simp_all add: sample_main_def)
  note P = main_start_pools [OF c(1) cfg]
  let ?s = "resourceServers (sys_rm c) ! 0"
  have ne: "resourceServers (sys_rm c) \<noteq> []" using P by auto
  have s: "useCdi ?s" "cdiResourceName ?s = ''hca_a''"
    using P ne by (auto simp: cdi_options_def sample_config_def Cons_eq_map_conv map_eq_Cons_conv)
  obtain d where d: "prog_reach sample_main cdi_options [] d" "p_main d = MWait"
    "p_sigs d = Some (Notify (NewSignalNotifier [SIGHUP, SIGINT, SIGTERM, SIGQUIT]))"
    "p_upd d = (if sint (PeriodicUpdateInterval (p_rm d)) > 0 then UWait else UOff)"
    "p_rm d = sys_rm c" "strm (p_lw d 0) 0 = SSpec"
    using call_at_started [OF c(1) ne c(2)] main_start_modes [OF c(1)] by auto
  have at: "0 < n_servers d" "prog_server d 0 = ?s"
    using ne d(5) by (simp_all add: n_servers_def prog_server_def)
  note down = end_begins [OF d(1-3)]
  let ?d1 = "d\<lparr>p_main := MTicker\<rparr>"
  obtain files where cl: "cdi_cleanup sample_cdi ?d1 = (None, files)"
    using CleanupSpecs_works [OF sample_cleanup_works, of cdiResourceKind "p_files d"]
    by (cases "CleanupSpecs sample_cdi cdiResourcePrefix cdiResourceKind (p_files d)";
        cases "rmUseCdi (p_rm d)") (auto simp: cdi_cleanup_def)
  let ?d2 = "?d1\<lparr>p_upd := UOff, p_files := files, p_main := MStop 0\<rparr>"
  have "prog_step MainThread ?d1 ?d2"
    using end_updates [OF _ _ cl] d(4) by simp
  note stop = moved [OF down this]
  have "updateCDISpec sample_cdi (prog_server ?d2 0) (p_files ?d2) =
      (None, (''/var/run/cdi/nvidia.com_hca_a'', ''nvidia.com/net-rdma'') # files)"
    using s at(2)
    by (simp add: updateCDISpec_def CreateCDISpec_def build_spec_def sample_cdi_def
        cdiResourcePrefix_def cdiResourceKind_def)
  then obtain ts c' where "prog_run ts ?d2 c'" "shut_down c'"
    "p_files c' = (''/var/run/cdi/nvidia.com_hca_a'', ''nvidia.com/net-rdma'') # p_files ?d2"
    using call_outlives_cleanup [OF stop, of 0 0 0 sample_cdi] at(1) d(6) by auto
  then show ?thesis using stop prog_run_reach by (intro exI [of _ ?d2] exI [of _ c']) simp
qed

end
