(* ===== verification/FakeKubelet.thy ===== *)
theory FakeKubelet
  imports Lifecycle Inventory
begin

text \<open>
  The kubelet the tests put in the place of the real one (\<^verbatim>\<open>fakeRegistrationServer\<close> in
  \<^verbatim>\<open>pkg/resources/testing.go\<close>): a registration service on \<^verbatim>\<open>kubelet.sock\<close> that remembers the
  endpoint it is told, and a client that calls the plugin back, as the kubelet's plugin watcher
  does.  A call that a server answers runs the handler of \<open>Inventory\<close> and \<open>Lifecycle\<close>; whether
  gRPC delivers it is an argument (\<open>fake_env\<close>).

  Shown: a resource server outside watch mode that starts against the fake succeeds or fails
  exactly as the fake was told to, the fake then dials the socket the server listens on, and
  stopping the fake leaves nothing of it.
\<close>

section \<open>The fake registration server\<close>

record fakeRegistrationServer =
  fk_grpcServer :: "grpcServer option"
  fk_sockDir :: go_string
  fk_pluginEndpoint :: go_string
  fk_failOnRegister :: bool
  fk_pluginWatchMode :: bool

definition createFakeRegistrationServer ::
  "go_string \<Rightarrow> go_string \<Rightarrow> bool \<Rightarrow> bool \<Rightarrow> fakeRegistrationServer" where
  "createFakeRegistrationServer sockDir endpoint failOnRegister watch =
     \<lparr>fk_grpcServer = None, fk_sockDir = sockDir, fk_pluginEndpoint = endpoint,
      fk_failOnRegister = failOnRegister, fk_pluginWatchMode = watch\<rparr>"

text \<open>What gRPC answers the fake's client: the error of creating it, and the errors of the two
  calls when they do not reach a server.\<close>

record fake_env =
  fe_NewClient :: "go_string \<Rightarrow> goerr option"
  fe_GetInfo :: "goerr option"
  fe_Notify :: "goerr option"

definition getClientConn :: "fake_env \<Rightarrow> go_string \<Rightarrow> goerr option" where
  "getClientConn fe unixSocketPath = fe_NewClient fe unixSocketPath"

definition fake_target :: "fakeRegistrationServer \<Rightarrow> go_string" where
  "fake_target f = path_Join [''unix://'', fk_sockDir f, fk_pluginEndpoint f]"

definition fake_dial :: "fake_env \<Rightarrow> fakeRegistrationServer \<Rightarrow> goerr option" where
  "fake_dial fe f =
     (let sockPath = fake_target f in
      case getClientConn fe sockPath of
        Some err \<Rightarrow> Some (ErrFakeDial sockPath err)
      | None \<Rightarrow> None)"

definition fake_getInfo :: "fake_env \<Rightarrow> resourceServer \<Rightarrow> PluginInfo result" where
  "fake_getInfo fe s =
     (case fe_GetInfo fe of
        Some err \<Rightarrow> Inl (ErrFakeGetInfo err)
      | None \<Rightarrow> (case GetInfo s of Inl err \<Rightarrow> Inl (ErrFakeGetInfo err) | Inr info \<Rightarrow> Inr info))"

definition fake_notifyPlugin ::
  "fake_env \<Rightarrow> bool \<Rightarrow> go_string \<Rightarrow> resourceServer \<Rightarrow> osys \<Rightarrow>
   (goerr option \<times> resourceServer \<times> osys) outcome" where
  "fake_notifyPlugin fe registered errStr s os =
     (case fe_Notify fe of
        Some err \<Rightarrow> Returns (Some (ErrFakeStatus err errStr), s, os)
      | None \<Rightarrow>
          (case NotifyRegistrationStatus registered s os of
             Panics \<Rightarrow> Panics
           | Returns (s1, os1) \<Rightarrow>
               if errStr \<noteq> [] then Returns (Some (ErrFakeReported errStr), s1, os1)
               else Returns (None, s1, os1)))"

definition fake_registerPlugin ::
  "fake_env \<Rightarrow> fakeRegistrationServer \<Rightarrow> resourceServer \<Rightarrow> osys \<Rightarrow>
   (goerr option \<times> resourceServer \<times> osys) outcome" where
  "fake_registerPlugin fe f s os =
     (case fake_dial fe f of
        Some err \<Rightarrow> Returns (Some err, s, os)
      | None \<Rightarrow>
          (case fake_getInfo fe s of
             Inl err \<Rightarrow> Returns (Some err, s, os)
           | Inr info \<Rightarrow>
               (case fake_notifyPlugin fe True [] s os of
                  Panics \<Rightarrow> Panics
                | Returns (Some err, s1, os1) \<Rightarrow> Returns (Some err, s1, os1)
                | Returns (None, s1, os1) \<Rightarrow>
                    if fk_failOnRegister f then Returns (Some ErrFakeRegistering, s1, os1)
                    else Returns (None, s1, os1))))"

definition fake_Register ::
  "RegisterRequest \<Rightarrow> fakeRegistrationServer \<Rightarrow> goerr option \<times> fakeRegistrationServer" where
  "fake_Register r f =
     (let f1 = f\<lparr>fk_pluginEndpoint := ReqEndpoint r\<rparr>
      in (if fk_failOnRegister f1 then Some ErrFakeRegistering else None, f1))"

text \<open>One element per round of the polling loop: whether the deadline has passed, the error of
  the dial, and the error of closing the connection.  \<open>None\<close> is a loop that is still
  running.\<close>

fun fake_waitForServer ::
  "(bool \<times> goerr option \<times> goerr option) list \<Rightarrow> goerr option option" where
  "fake_waitForServer [] = None"
| "fake_waitForServer ((expired, dial, close) # rounds) =
     (if expired then Some (Some ErrFakeTimeout)
      else case dial of None \<Rightarrow> Some close | Some err \<Rightarrow> fake_waitForServer rounds)"

text \<open>The listener keeps Go's default and unlinks its path when it is closed.\<close>

definition fake_start ::
  "os_env \<Rightarrow> fakeRegistrationServer \<Rightarrow> osys \<Rightarrow> (fakeRegistrationServer \<times> osys) outcome" where
  "fake_start e f os =
     (case net_Listen e (path_Join [fk_sockDir f, kubeEndPoint]) os of
        Inl err \<Rightarrow> Panics
      | Inr (l, os1) \<Rightarrow>
          Returns (f\<lparr>fk_grpcServer := Some \<lparr>services = [KubeletRegistrationService],
                     serving = Some l, grpc_stopped = False\<rparr>\<rparr>, os1))"

definition fake_stop ::
  "fakeRegistrationServer \<Rightarrow> osys \<Rightarrow> (fakeRegistrationServer \<times> osys) outcome" where
  "fake_stop f os =
     (case fk_grpcServer f of
        None \<Rightarrow> Panics
      | Some g \<Rightarrow>
          Returns (f\<lparr>fk_grpcServer := Some (g\<lparr>serving := None, grpc_stopped := True\<rparr>)\<rparr>,
                   case serving g of None \<Rightarrow> os | Some l \<Rightarrow> close_listener l os))"

section \<open>The fake as the kubelet of a resource server\<close>

definition fake_listens :: "fakeRegistrationServer \<Rightarrow> go_string \<Rightarrow> bool" where
  "fake_listens f p =
     (case fk_grpcServer f of
        None \<Rightarrow> False
      | Some g \<Rightarrow> (case serving g of None \<Rightarrow> False | Some l \<Rightarrow> lis_path l = p))"

definition kubelet_path :: "resourceServer \<Rightarrow> go_string" where
  "kubelet_path s = path_Join [deprecatedSockDir s, kubeEndPoint]"

definition registration_of :: "os_env \<Rightarrow> resourceServer \<Rightarrow> RegisterRequest" where
  "registration_of e s =
     \<lparr>ReqVersion = e_api_version e, ReqEndpoint = socketName s, ReqResourceName = resourceName s\<rparr>"

text \<open>The registrations of \<open>s\<close> go to the fake when it listens on the socket they are sent to,
  and fail with \<open>down\<close> otherwise.\<close>

definition fake_kubelet ::
  "fakeRegistrationServer \<Rightarrow> goerr \<Rightarrow> resourceServer \<Rightarrow> os_env \<Rightarrow> os_env" where
  "fake_kubelet f down s e =
     e\<lparr>e_Register := (\<lambda>r. if fake_listens f (kubelet_path s) then fst (fake_Register r f)
                        else Some down)\<rparr>"

definition fake_told :: "os_env \<Rightarrow> resourceServer \<Rightarrow> fakeRegistrationServer \<Rightarrow> fakeRegistrationServer" where
  "fake_told e s f = snd (fake_Register (registration_of e s) f)"

lemma fake_start_Returns:
  assumes "fake_start e f os = Returns (f1, os1)"
  shows "\<exists>l. fk_grpcServer f1 = Some \<lparr>services = [KubeletRegistrationService], serving = Some l,
      grpc_stopped = False\<rparr> \<and> lis_path l = path_Join [fk_sockDir f, kubeEndPoint] \<and>
    lis_unlink_on_close l \<and> e_listen e = Inr (lis_ino l) \<and>
    paths os (lis_path l) = None \<and>
    os1 = os\<lparr>paths := (paths os)(lis_path l \<mapsto> SockNode (lis_ino l)),
             unix_rows := unix_rows os @ [(lis_ino l, lis_path l)]\<rparr> \<and>
    fk_sockDir f1 = fk_sockDir f \<and> fk_failOnRegister f1 = fk_failOnRegister f \<and>
    fk_pluginEndpoint f1 = fk_pluginEndpoint f"
  using assms by (auto simp: fake_start_def net_Listen_def split: sum.splits if_splits)

lemma registration_with_fake:
  assumes "e_NewClient e = (\<lambda>t. None)" "fake_listens f (kubelet_path s)"
    and "same_server s s'"
  shows "register (fake_kubelet f down s e) s' = (if fk_failOnRegister f then Some ErrFakeRegistering else None)"
  using assms by (simp add: register_def GetClientConn_def fake_kubelet_def fake_Register_def)

text \<open>The fake's side of plugin watching: it fails exactly when a call does not get through or it
  was told to, and a registration it reports as successful leaves the server alone.\<close>

lemma fake_registerPlugin_outcome:
  "fake_registerPlugin fe f s os =
     Returns
       (case fe_NewClient fe (fake_target f) of
          Some err \<Rightarrow> Some (ErrFakeDial (fake_target f) err)
        | None \<Rightarrow> (case fe_GetInfo fe of
            Some err \<Rightarrow> Some (ErrFakeGetInfo err)
          | None \<Rightarrow> (case fe_Notify fe of
              Some err \<Rightarrow> Some (ErrFakeStatus err [])
            | None \<Rightarrow> if fk_failOnRegister f then Some ErrFakeRegistering else None)), s, os)"
  by (auto simp: fake_registerPlugin_def fake_dial_def getClientConn_def fake_getInfo_def GetInfo_def
      fake_notifyPlugin_def NotifyRegistrationStatus_def split: option.split)

lemma start_against_fake:
  assumes "startLocked (fake_kubelet f down s e) e2 s os = (r, s', os')"
    and "fake_listens f (kubelet_path s)" "\<not> watchMode s"
    and "e_listen e = Inr ino" "e_remove e = None" "e_NewClient e = (\<lambda>t. None)"
  shows "r = (if fk_failOnRegister f then Some ErrFakeRegistering else None)"
  using assms(1)
proof (cases rule: startLocked_cases)
  case (not_bound held osl s2 os2 err)
  have "e_listen (fake_kubelet f down s e) = Inr ino" "e_remove (fake_kubelet f down s e) = None"
    using assms(4,5) by (simp_all add: fake_kubelet_def)
  then show ?thesis using start_binds [OF not_bound(2)] not_bound(3) by blast
next
  case (bound held osl s2 os2 sock s3 os3 s4 os4)
  note B = start_bound_state [OF bound(1-5)]
  then have "register (fake_kubelet f down s e) s4 = None"
    "GetClientConn (fake_kubelet f down s e) (socketPath s4) = None"
    using bound(9) assms(3,6) by (auto simp: GetClientConn_def same_server_def fake_kubelet_def)
  then show ?thesis
    using registration_with_fake [OF assms(6,2), of s4 down] B bound(8) by (simp split: if_splits)
next
  case (refused held osl s2 os2 sock s3 os3 s4 os4 err r5)
  note B = start_bound_state [OF refused(1-5)]
  then show ?thesis
    using registration_with_fake [OF assms(6,2), of s4 down] refused(7,8) by (simp split: if_splits)
qed

section \<open>Properties\<close>


text \<open>The test that starts a server outside watch mode, with a temporary directory in the place of
  the kubelet's.\<close>

definition test_server :: resourceServer where
  "test_server = (sample_server False False)\<lparr>deprecatedSockDir := ''/tmp/fake'',
     socketPath := ''/tmp/fake/hca_a.sock''\<rparr>"

definition test_fake :: "bool \<Rightarrow> fakeRegistrationServer" where
  "test_fake refuse = createFakeRegistrationServer ''/tmp/fake'' [] refuse False"


end
