(* ===== verification/Spec2Isabelle.thy ===== *)
theory Spec2Isabelle
  imports SocketRace ServeRace ThreadStreams FakeKubelet
begin

text \<open>
  The k8s RDMA shared device plugin, a Kubernetes device plugin written in Go
  (\<^verbatim>\<open>src/cmd\<close> and \<^verbatim>\<open>src/pkg\<close>), as HOL definitions, with the theorems that make it
  correct.

  \<^bold>\<open>The program.\<close>  At start-up the plugin reads a JSON file that names resources, each with
  selectors of network devices and a device count (\<^verbatim>\<open>main.go\<close>, \<^verbatim>\<open>resources_manager.go\<close>).
  It scans the PCI bus, turns every usable network device into a \<^verbatim>\<open>PciNetDevice\<close> with its RDMA
  character devices (\<^verbatim>\<open>pci_net_device.go\<close>, \<^verbatim>\<open>rdma_device_spec.go\<close>,
  \<^verbatim>\<open>netlink_manager.go\<close>, \<^verbatim>\<open>utils.go\<close>) and filters the list per resource
  (\<^verbatim>\<open>device_selectors.go\<close>).  For every resource it builds a resource server
  (\<^verbatim>\<open>server.go\<close>), which listens on a Unix socket of its own, registers with the kubelet,
  announces a number of virtual devices on the stream \<^verbatim>\<open>ListAndWatch\<close> and answers
  \<^verbatim>\<open>Allocate\<close> with the RDMA character devices of its pool, or with CDI annotations
  (\<^verbatim>\<open>cdi.go\<close>).  A periodic update scans the bus again and hands every server its new pool;
  a watcher per server restarts it when the kubelet has removed its socket; the signals that
  \<^verbatim>\<open>watcher.go\<close> subscribes to restart or stop all servers.

  \<^bold>\<open>Theories, bottom up.\<close>
  \<^item> \<open>Prelude\<close>: Go strings, errors and results, generic lemmas, the collection \<open>frame_simps\<close>.
  \<^item> \<open>GoLib\<close>: the functions of \<^verbatim>\<open>strconv\<close>, \<^verbatim>\<open>strings\<close> and \<^verbatim>\<open>path\<close> that the sources call;
    \<open>Base32\<close>: the encoding of the CDI pool identifier.
  \<^item> \<open>Types\<close>: the structs of \<^verbatim>\<open>pkg/types/types.go\<close> and the PCI network device.
  \<^item> \<open>DeviceSelectors\<close>: the five \<^verbatim>\<open>Filter\<close> methods, under the locale \<open>device_selector\<close>, and
    \<^verbatim>\<open>GetFilteredDevices\<close>.
  \<^item> \<open>HostDevices\<close>: from what sysfs, netlink and the RDMA library answer (the record \<open>host\<close>)
    to a \<open>pciNetDevice\<close>.
  \<^item> \<open>Cdi\<close>: \<^verbatim>\<open>pkg/cdi/cdi.go\<close> over the entry points of the CDI library (\<open>cdi_env\<close>) and an
    association list of spec files.
  \<^item> \<open>ServerState\<close>: the record \<open>resourceServer\<close>, field by field, and \<^verbatim>\<open>newResourceServer\<close>;
    \<open>Inventory\<close>: \<^verbatim>\<open>UpdateDevices\<close>, \<^verbatim>\<open>ListAndWatch\<close> and \<^verbatim>\<open>Allocate\<close>, with the invariant
    \<open>inventory_ok\<close> and the locale \<open>inventory_operation\<close>.
  \<^item> \<open>Sockets\<close>: who owns the socket path: the ownership record and check, the parser of
    \<^verbatim>\<open>/proc/net/unix\<close>, the lock, the clean-up, over the machine \<open>osys\<close>;
    \<open>Lifecycle\<close>: \<^verbatim>\<open>Start\<close>, \<^verbatim>\<open>Stop\<close>, \<^verbatim>\<open>Restart\<close>, \<^verbatim>\<open>Watch\<close>, registration, under the
    locale \<open>lifecycle_operation\<close>.
  \<^item> \<open>Config\<close> and \<open>Manager\<close>: the two halves of \<^verbatim>\<open>resources_manager.go\<close>, the record
    \<open>resourceManager\<close>; \<open>MainProgram\<close>: \<^verbatim>\<open>main.go\<close> and \<^verbatim>\<open>watcher.go\<close>, the record \<open>sys\<close>.
  \<^item> \<open>Shutdown\<close>: the whole life of the program, in sequence, up to the terminating signal.
  \<^item> The protocol theories, where code runs concurrently: \<open>InventoryProtocol\<close> (updates and
    streams of one server), \<open>WatchStop\<close> (the watcher against the main goroutine),
    \<open>SocketRace\<close> (several plugin processes on one path), \<open>Threads\<close> (all goroutines of the
    program: main, the watchers, the periodic update, the kubelet's calls), \<open>ThreadRuns\<close> (the
    sequential program is one of their schedules; their properties), \<open>ThreadStreams\<close> (every
    step of the program is a step of the inventory protocol or none) and \<open>ServeRace\<close> (the
    goroutine in which \<^verbatim>\<open>Serve\<close> runs, against the lifecycle calls).
  \<^item> \<open>FakeKubelet\<close>: the registration server of the tests (\<^verbatim>\<open>testing.go\<close>), as a kubelet for the
    model's servers.
  \<^item> This theory: properties that span components.

  \<^bold>\<open>How state and operations correspond.\<close>  Definitions carry the names of the source.  A
  function that changes state takes it and returns it updated; a method of \<^verbatim>\<open>*T\<close> is a function
  on the record \<open>T\<close>.  A \<^verbatim>\<open>(T, error)\<close> is a sum, an \<^verbatim>\<open>error\<close> alone an option, a panic a
  constructor of its own where one is possible (\<open>outcome\<close> in \<open>Prelude\<close>).  What comes from
  outside the repository is an argument: the answers of the kernel and of the libraries during
  one call (\<open>os_env\<close>, \<open>host\<close>, \<open>cdi_env\<close>), the JSON decoder, the kubelet.  Nothing is assumed of
  these answers unless a theorem says so.  The effects of the system calls on socket paths are
  modelled (\<open>osys\<close>): binding, unlinking, locking.

  \<^bold>\<open>What the lemmas show.\<close>
  \<^item> Data: selection is a filter over the pool; a device that is accepted is complete;
    validation accepts exactly the well-formed configurations; the command line, the socket
    table and base32 are read back or are injective.
  \<^item> One server: every operation keeps the inventory consistent and touches no other server's
    path; start and stop undo each other; the ownership check lets only the sole owner remove
    a path.
  \<^item> Concurrency: no update is lost between the update loop and the streams, at one server and
    under any schedule of the whole program, and an idle stream is at most three steps from
    showing the kubelet the current devices; \<^verbatim>\<open>Stop\<close> returns against the watcher and leaves
    nothing running; instances that overlap during a rolling update do not remove each other's
    socket.  The sequential definitions are proved to be
    runs of the step relations, so the two levels speak of the same code.  Shutting down
    completes under every schedule of the goroutines.  Two things can panic: a registration
    refusal that outlives its server (\<open>ThreadRuns\<close>, where \<^verbatim>\<open>Serve\<close> takes effect at once) and a
    serving goroutine that is overtaken by a stop or a restart (\<open>ServeRace\<close>).
  \<^item> The program: start-up succeeds when the machine answers, no run of events panics or hangs,
    every server stays sound, and the terminating signal leaves no trace on the machine.
  \<^item> Surprises are theorems as well: the stop after a refused registration, the CDI pool that
    an update does not reach, the repeated host path, the second signal that is dropped, the
    lock whose failure is ignored, the CDI spec that a call writes after the clean-up, the
    socket file that a restart leaves behind when it overtakes the serving goroutine.

  \<^bold>\<open>Bounds and fuel.\<close>  There is no fuel.  Loops over slices are structural recursion.  The
  loops without an end (\<^verbatim>\<open>ListAndWatch\<close>, \<^verbatim>\<open>Watch\<close>, the periodic update, the signal loop) are
  functions of the list of events they are woken by, or step relations; a theorem about them
  holds for every list or every reachable state.  The liveness theorems give explicit bounds on
  the number of steps.  The update interval keeps its 64 bits and wraps; \<^verbatim>\<open>RdmaHcaMax\<close> is an
  \<open>int\<close>, because it is only compared and counted up to.

  \<^bold>\<open>Not modelled.\<close>
  \<^item> Log output, except where the program computes on it (the shortened names discovery logs).
  \<^item> The libraries themselves: gRPC, ghw, netlink, CDI, SHA-256, the JSON decoder.
    They are arguments.  A gRPC server is its services, its listener, and whether it was
    stopped.  Outside \<open>ServeRace\<close> its \<^verbatim>\<open>Serve\<close> takes effect at once; \<open>ServeRace\<close> shows that
    this is what happens whenever the goroutine runs before the next lifecycle call.
  \<^item> Weak memory: a step of a protocol theory is a stretch of code under one mutex or between
    two synchronisation points.
  \<^item> Calls that never come back: a \<^verbatim>\<open>Send\<close> to the kubelet, a system call or a library call
    answers, with an error or not.  A \<^verbatim>\<open>Send\<close> that blocks for ever under the read lock would
    hold up the periodic update, and with it the shutdown.
  \<^item> In \<open>Threads\<close> one lifecycle operation on one server is one step; operations of several
    servers interleave between their steps only.  They touch different paths, which
    \<open>Lifecycle\<close> proves, and share the directory lock, which \<open>SocketRace\<close> models.
  \<^item> The fake file system of the tests (\<^verbatim>\<open>pkg/utils/testing.go\<close>), which only issues system
    calls, the generated \<^verbatim>\<open>mocks\<close>, the tests, the build files and the deployment manifests.
\<close>

section \<open>Properties that span components\<close>

lemma tick_pool:
  "pool h (rm\<lparr>deviceList := fst (discover_loop devices)\<rparr>) conf =
     filter (selector_matches (ConfSelectors conf))
       (List.map_filter (usable_device h (rds rm)) (filter network_device devices))"
  by (simp add: pool_def GetDevices_def new_devices_eq discover_loop_found GetFilteredDevices_filter)


definition sample_pool_rm :: resourceManager where
  "sample_pool_rm = (sample_rm [sample_config])\<lparr>resourceServers := [sample_server False False]\<rparr>"

lemma sample_usable: "usable_device sample_host requiredRdmaDevices sample_ghw = Some sample_device"
  by (simp add: usable_device_def sample_device_built)

lemma sample_network: "network_device sample_ghw"
proof -
  have "go_ParseInt16 ''02'' = Some 2"
    by (simp add: go_ParseInt16_def go_ParseUint16_def hex_digit_def)
  then show ?thesis by (simp add: network_device_def sample_ghw_def netClass_def)
qed


text \<open>C7: A rolling update keeps the replacement: when a second instance starts on the path of a
  first one that is still serving, the start displaces the name, and the stop of the first that
  follows leaves the second listening and its name in place.\<close>

theorem rolling_update_keeps_replacement:
  assumes "Start e1 f1 s os = Returns (None, s1, os1)" "Start e2 f2 t os1 = Returns (None, t1, os2)"
    and "socketPath t = socketPath s" "e_capture e1 = CapFstat" "e_listen e1 \<noteq> e_listen e2"
    and "rows_clean (unix_rows os)" "go_Fields (socketPath s) = [socketPath s]"
    and "proc_format (e_proc_net_unix e3)"
  shows "\<exists>s2 os3. Stop True e3 s1 os2 = Some (None, s2, os3) \<and> rsc_GetServer s2 = None \<and>
    listening t1 os3"
proof -
  have st: "startLocked e1 f1 s os = (None, s1, os1)" "startLocked e2 f2 t os1 = (None, t1, os2)"
    using assms(1,2) by (auto simp: Start_def split: if_splits)
  obtain l where S: "own_listener s1 = Some l" "e_listen e1 = Inr (lis_ino l)" "same_server s s1"
    "\<not> lis_unlink_on_close l" "rsc_GetServer s1 \<noteq> None"
    "unix_rows os1 = unix_rows os @ [(lis_ino l, socketPath s)]"
    "socketOwner s1 = socketOwnerKnown" "socketIno s1 = lis_ino l"
    using startLocked_None_state [OF st(1)] assms(4) by auto
  obtain m where T: "own_listener t1 = Some m" "e_listen e2 = Inr (lis_ino m)" "same_server t t1"
    "lis_path m = socketPath t" "paths os2 (socketPath t) = Some (SockNode (lis_ino m))"
    "unix_rows os2 = unix_rows os1 @ [(lis_ino m, socketPath t)]"
    using startLocked_None_state [OF st(2)] by auto
  have path: "socketPath s1 = socketPath s" "socketPath t1 = socketPath s"
    using S(3) T(3) assms(3) by (simp_all add: same_server_def)
  have ne: "lis_ino m \<noteq> lis_ino l" using S(2) T(2) assms(5) by auto
  have clean: "rows_clean (unix_rows os2)"
    using assms(3,6,7) S(6) T(6) by (auto simp: rows_clean_def)
  have "inos_of (socketPath s) (unix_rows os2) \<noteq> [lis_ino l]"
    using S(6) T(6) assms(3) ne by simp
  then have keep: "\<not> shouldRemoveSocketPathLocked e3 s1 os2"
    using shouldRemove_known_iff [OF assms(8) clean S(7)] path(1) S(8) by simp
  obtain s2 os3 where P: "Stop True e3 s1 os2 = Some (None, s2, os3)" "rsc_GetServer s2 = None"
    "unix_rows os3 = filter (\<lambda>r. fst r \<noteq> lis_ino l) (unix_rows os2)" "paths os3 = paths os2"
    using Stop_parts [of s1 e3 os2] S(1,4,5) keep by auto
  have "listening t1 os3"
    using T P(3,4) ne path(2) assms(3) by (auto simp: listening_def)
  then show ?thesis using P(1,2) by blast
qed

lemma rolling_update_keeps_replacement_witness:
  "\<exists>s1 os1 t1 os2 s2 os3.
     Start (sample_env 42) (sample_env 42) (sample_server False False) sample_os
       = Returns (None, s1, os1) \<and>
     Start (sample_env 43) (sample_env 43) (sample_server False False) os1 = Returns (None, t1, os2) \<and>
     Stop True (sample_env 0) s1 os2 = Some (None, s2, os3) \<and> listening t1 os3"
proof -
  let ?s = "sample_server False False"
  have conn: "rsConnector ?s \<noteq> None" by (simp add: sample_server_idle)
  obtain s1 os1 where a: "Start (sample_env 42) (sample_env 42) ?s sample_os = Returns (None, s1, os1)"
    using sample_start by blast
  obtain r t1 os2 where b: "startLocked (sample_env 43) (sample_env 43) ?s os1 = (r, t1, os2)"
    by (cases "startLocked (sample_env 43) (sample_env 43) ?s os1") auto
  have reg: "register (sample_env 43) t = None" for t by (simp add: register_def GetClientConn_def)
  have "r = None"
    using b
  proof (cases rule: startLocked_cases)
    case (not_bound held osa s2 osb err)
    note R = start_reclaim_state [OF not_bound(2)]
    have "paths osb (socketPath s2) = None" using R by (simp add: same_server_def)
    then show ?thesis using not_bound(3) by (simp add: start_bind_def net_Listen_def split: prod.splits)
  next
    case (bound held osa s2 osb sock s3 os3 s4 os4)
    then show ?thesis by (simp add: GetClientConn_def)
  next
    case (refused held osa s2 osb sock s3 os3 s4 os4 err r5)
    then show ?thesis by (simp add: reg)
  qed
  then have b': "Start (sample_env 43) (sample_env 43) ?s os1 = Returns (None, t1, os2)"
    using b conn by (simp add: Start_def)
  show ?thesis
    using rolling_update_keeps_replacement [OF a b' refl, of "sample_env 0"] sample_socket_path(2) a b'
    by (auto simp: rows_clean_def)
qed

end
